(* ===== verification/Prelude.thy ===== *)
theory Prelude
  imports Main "HOL-Library.Word" "HOL-Library.Multiset" "HOL-Library.Monad_Syntax"
    "HOL-Library.List_Lexorder" "HOL-Library.Char_ord"
begin

text \<open>
  Shared vocabulary of the development: the Go integer types, the reading of a signed
  integer out of a machine word, the standard library's sorting, and the generic list and
  word lemmas the components use.

  \<^item> \<open>u8\<close>, \<open>u16\<close>, \<open>u32\<close>, \<open>u64\<close> are Go's unsigned integers, with wrap-around \<open>+\<close>, \<open>-\<close>, \<open>*\<close>.
  \<^item> \<open>i64\<close> (and Go's \<open>int\<close> on the 64-bit targets the services are built for) is an \<open>int\<close>; every
    place of the source that produces one by a conversion or by arithmetic that may leave
    the range goes through \<open>int64\<close>, which takes the two's complement value of a 64-bit word.
  \<^item> \<open>sort_stable\<close> is \<open>sort.SliceStable\<close>: for a strict weak order its result is determined
    (the ordered list that keeps the relative order of equivalent elements), and the
    insertion sort below computes it. It is also literally the code Go runs on a short
    slice, so on such slices it is what Go computes for any comparison function.
\<close>

section \<open>Machine integers\<close>

type_synonym u8 = "8 word"
type_synonym u16 = "16 word"
type_synonym u32 = "32 word"
type_synonym u64 = "64 word"
type_synonym i64 = int

definition int64 :: "u64 \<Rightarrow> i64" where
  "int64 w = sint w"

definition int32 :: "u32 \<Rightarrow> int" where
  "int32 w = sint w"

text \<open>The conversion \<open>int32(x)\<close> of a wider signed integer keeps its low 32 bits.\<close>

definition int32_of_int :: "int \<Rightarrow> int" where
  "int32_of_int x = sint (word_of_int x :: u32)"

text \<open>Go's \<open>%\<close> on signed integers truncates: the result has the sign of the dividend.\<close>

definition go_mod :: "int \<Rightarrow> int \<Rightarrow> int" where
  "go_mod a b = sgn a * (\<bar>a\<bar> mod \<bar>b\<bar>)"

section \<open>Sorting\<close>

text \<open>
  \<open>insertBack lt x acc\<close> moves \<open>x\<close> down from the end of the sorted prefix while it is less
  than its left neighbour; the prefix is kept reversed, so its end is the head of \<open>acc\<close>.
\<close>

fun insertBack :: "('a \<Rightarrow> 'a \<Rightarrow> bool) \<Rightarrow> 'a \<Rightarrow> 'a list \<Rightarrow> 'a list" where
  "insertBack lt x [] = [x]"
| "insertBack lt x (y # ys) = (if lt x y then y # insertBack lt x ys else x # y # ys)"

definition sort_stable :: "('a \<Rightarrow> 'a \<Rightarrow> bool) \<Rightarrow> 'a list \<Rightarrow> 'a list" where
  "sort_stable lt xs = rev (fold (insertBack lt) xs [])"

text \<open>What a comparison function owes to \<open>sort\<close>, on the elements that are sorted.\<close>

definition strict_weak_on :: "'a set \<Rightarrow> ('a \<Rightarrow> 'a \<Rightarrow> bool) \<Rightarrow> bool" where
  "strict_weak_on A lt \<longleftrightarrow>
     (\<forall>x\<in>A. \<forall>y\<in>A. lt x y \<longrightarrow> \<not> lt y x) \<and>
     (\<forall>x\<in>A. \<forall>y\<in>A. \<forall>z\<in>A. \<not> lt x y \<longrightarrow> \<not> lt y z \<longrightarrow> \<not> lt x z)"

named_theorems go_sort \<open>facts on the standard library's sorting\<close>

section \<open>Generic lemmas\<close>

lemma strict_weak_on_subset: "strict_weak_on A lt \<Longrightarrow> B \<subseteq> A \<Longrightarrow> strict_weak_on B lt"
  unfolding strict_weak_on_def by blast

lemma strict_weak_on_asym: "strict_weak_on A lt \<Longrightarrow> lt x y \<Longrightarrow> x \<in> A \<Longrightarrow> y \<in> A \<Longrightarrow> \<not> lt y x"
  unfolding strict_weak_on_def by blast

lemma strict_weak_on_negtrans:
  "strict_weak_on A lt \<Longrightarrow> \<not> lt x y \<Longrightarrow> \<not> lt y z \<Longrightarrow> x \<in> A \<Longrightarrow> y \<in> A \<Longrightarrow> z \<in> A \<Longrightarrow> \<not> lt x z"
  unfolding strict_weak_on_def by blast

lemma mset_insertBack [simp]: "mset (insertBack lt x ys) = add_mset x (mset ys)"
  by (induction ys) auto

lemma set_insertBack [simp]: "set (insertBack lt x ys) = insert x (set ys)"
  by (induction ys) auto

lemma mset_fold_insertBack: "mset (fold (insertBack lt) xs acc) = mset xs + mset acc"
  by (induction xs arbitrary: acc) auto

lemma mset_sort_stable [simp, go_sort]: "mset (sort_stable lt xs) = mset xs"
  by (simp add: sort_stable_def mset_fold_insertBack)

lemma set_sort_stable [simp, go_sort]: "set (sort_stable lt xs) = set xs"
  using mset_sort_stable [of lt xs] by (metis set_mset_mset)

lemma length_sort_stable [simp, go_sort]: "length (sort_stable lt xs) = length xs"
  using mset_sort_stable [of lt xs] by (metis size_mset)

lemma sort_stable_Nil [simp]: "sort_stable lt [] = []"
  by (simp add: sort_stable_def)

lemma distinct_sort_stable [simp]: "distinct (sort_stable lt xs) = distinct xs"
  by (metis mset_sort_stable mset_eq_imp_distinct_iff)

lemma sorted_insertBack:
  assumes "strict_weak_on (insert x (set ys)) lt"
    and "sorted_wrt (\<lambda>a b. \<not> lt a b) ys"
  shows "sorted_wrt (\<lambda>a b. \<not> lt a b) (insertBack lt x ys)"
  using assms
proof (induction ys)
  case Nil
  then show ?case by simp
next
  case (Cons y ys)
  have sw: "strict_weak_on (insert x (set ys)) lt"
    using Cons.prems(1) by (rule strict_weak_on_subset) auto
  show ?case
  proof (cases "lt x y")
    case True
    then have "\<not> lt y x"
      by (intro strict_weak_on_asym [OF Cons.prems(1)]) auto
    with True Cons.IH [OF sw] Cons.prems(2) show ?thesis by simp
  next
    case False
    have "\<not> lt x z" if "z \<in> set ys" for z
      by (rule strict_weak_on_negtrans [OF Cons.prems(1) False]) (use that Cons.prems(2) in auto)
    with False Cons.prems(2) show ?thesis by simp
  qed
qed

lemma sorted_fold_insertBack:
  assumes "strict_weak_on (set xs \<union> set acc) lt"
    and "sorted_wrt (\<lambda>a b. \<not> lt a b) acc"
  shows "sorted_wrt (\<lambda>a b. \<not> lt a b) (fold (insertBack lt) xs acc)"
  using assms
proof (induction xs arbitrary: acc)
  case (Cons x xs)
  have "sorted_wrt (\<lambda>a b. \<not> lt a b) (insertBack lt x acc)"
    using Cons.prems by (intro sorted_insertBack) (auto intro: strict_weak_on_subset)
  moreover have "strict_weak_on (set xs \<union> set (insertBack lt x acc)) lt"
    using Cons.prems(1) by (rule strict_weak_on_subset) auto
  ultimately show ?case using Cons.IH by simp
qed simp

lemma sorted_sort_stable [go_sort]:
  assumes "strict_weak_on (set xs) lt"
  shows "sorted_wrt (\<lambda>a b. \<not> lt b a) (sort_stable lt xs)"
proof -
  have "sorted_wrt (\<lambda>a b. \<not> lt a b) (fold (insertBack lt) xs [])"
    using assms by (intro sorted_fold_insertBack) simp_all
  then show ?thesis by (simp add: sort_stable_def sorted_wrt_rev)
qed

text \<open>
  When no two different elements are equivalent, the sorted order is unique: it does not
  depend on the order in which the elements arrive.
\<close>

lemma sorted_unique:
  assumes "mset xs = mset ys"
    and "\<And>a b. a \<in> set xs \<Longrightarrow> b \<in> set xs \<Longrightarrow> a \<noteq> b \<Longrightarrow> lt a b \<or> lt b a"
    and "sorted_wrt (\<lambda>a b. \<not> lt b a) xs" and "sorted_wrt (\<lambda>a b. \<not> lt b a) ys"
  shows "xs = ys"
  using assms
proof (induction xs arbitrary: ys)
  case (Cons x xs)
  then obtain y ys' where ys: "ys = y # ys'"
    by (cases ys) auto
  have mem: "x \<in> set ys" "y \<in> set (x # xs)"
    using Cons.prems(1) ys by (metis list.set_intros(1) set_mset_mset)+
  have "x = y"
  proof (rule ccontr)
    assume neq: "x \<noteq> y"
    with mem ys have "x \<in> set ys'" "y \<in> set xs" by auto
    then have "\<not> lt x y" "\<not> lt y x"
      using Cons.prems(3,4) ys by auto
    with Cons.prems(2) [of x y] neq mem show False by auto
  qed
  moreover have "xs = ys'"
    using Cons.prems ys \<open>x = y\<close> by (intro Cons.IH) auto
  ultimately show ?case using ys by simp
qed simp

lemma sort_stable_perm [go_sort]:
  assumes "mset xs = mset ys" and "strict_weak_on (set xs) lt"
    and "\<And>a b. a \<in> set xs \<Longrightarrow> b \<in> set xs \<Longrightarrow> a \<noteq> b \<Longrightarrow> lt a b \<or> lt b a"
  shows "sort_stable lt xs = sort_stable lt ys"
proof (rule sorted_unique)
  have eq: "set ys = set xs" using assms(1) by (metis set_mset_mset)
  show "sorted_wrt (\<lambda>a b. \<not> lt b a) (sort_stable lt xs)"
    using assms(2) by (rule sorted_sort_stable)
  show "sorted_wrt (\<lambda>a b. \<not> lt b a) (sort_stable lt ys)"
    using assms(2) eq by (intro sorted_sort_stable) simp
qed (use assms in auto)

lemma insertBack_last:
  "(\<And>y. y \<in> set ys \<Longrightarrow> \<not> lt x y) \<Longrightarrow> insertBack lt x ys = x # ys"
  by (cases ys) auto

lemma fold_insertBack_id:
  assumes "sorted_wrt (\<lambda>a b. \<not> lt b a) (rev acc @ xs)"
  shows "fold (insertBack lt) xs acc = rev xs @ acc"
  using assms
proof (induction xs arbitrary: acc)
  case (Cons x xs)
  have "\<not> lt x y" if "y \<in> set acc" for y
    using Cons.prems that by (auto simp: sorted_wrt_append)
  then have "insertBack lt x acc = x # acc"
    by (rule insertBack_last)
  with Cons show ?case by simp
qed simp

lemma sort_stable_id: "sorted_wrt (\<lambda>a b. \<not> lt b a) xs \<Longrightarrow> sort_stable lt xs = xs"
  by (simp add: sort_stable_def fold_insertBack_id)

text \<open>Appending an element to a list that is sorted already only moves it within the part it is less than.\<close>

lemma insertBack_append: "\<forall>e\<in>set es. \<not> lt x e \<Longrightarrow> insertBack lt x (ys @ rev es) = insertBack lt x ys @ rev es"
proof (induction ys)
  case Nil
  show ?case
  proof (cases "rev es")
    case (Cons e zs)
    then have "e \<in> set es" by (metis list.set_intros(1) set_rev)
    then show ?thesis using Nil Cons by simp
  qed simp
qed simp

lemma sort_stable_snoc:
  assumes "sort_stable lt xs = es @ sort_stable lt ys" "\<forall>e\<in>set es. \<not> lt x e"
  shows "sort_stable lt (xs @ [x]) = es @ sort_stable lt (ys @ [x])"
proof -
  have "fold (insertBack lt) xs [] = fold (insertBack lt) ys [] @ rev es"
    using arg_cong [OF assms(1), of rev] by (simp add: sort_stable_def)
  then show ?thesis using insertBack_append [of es lt x, OF assms(2)] by (simp add: sort_stable_def)
qed

subsection \<open>Words\<close>

lemma word_min_sub: "unat ((a::u64) - min a b) = unat a - min (unat a) (unat b)"
  by (simp add: min_def unat_sub word_le_nat_alt)

lemma unat_min: "unat (min (a::u64) b) = min (unat a) (unat b)"
  by (simp add: min_def word_le_nat_alt)

lemma unat_add_no_wrap: "unat (a::'a::len word) + unat b < 2 ^ LENGTH('a) \<Longrightarrow> unat (a + b) = unat a + unat b"
  by (simp add: unat_word_ariths)

end
