(* ===== verification/GoFloat.thy ===== *)
theory GoFloat
  imports Prelude "HOL-Library.Log_Nat" Complex_Main
begin

text \<open>
  Go's \<open>float64\<close>. A finite value is a rational number, every operation is the exact rational
  operation followed by IEEE 754 rounding to nearest, ties to even, at 53 bits of precision,
  with gradual underflow at exponent -1022 and overflow to infinity at 2^1024. The sign of
  zero is not kept: it shows only in a division by zero, and the services guard each of
  their divisions. NaN and the infinities are values, because \<open>score.Config\<close> tests for them.

  The lemmas are the ones a client of rounding needs: rounding is monotone, it is exact on
  representable numbers (the integers up to 2^53 among them), and a quotient of two counts
  lies between 0 and 1 and equals 1 only when the counts are equal.
\<close>

section \<open>Rounding\<close>

text \<open>\<open>rne x\<close>: the integer nearest to \<open>x\<close>, the even one of the two at a tie.\<close>

definition rne :: "rat \<Rightarrow> int" where
  "rne x = (let f = \<lfloor>x\<rfloor>; d = x - of_int f in
     if d < 1 / 2 then f else if d > 1 / 2 then f + 1 else if even f then f else f + 1)"

text \<open>\<open>ilog2 x\<close>: the exponent of a positive rational, the \<open>k\<close> with 2^k \<open>\<le>\<close> x \<open><\<close> 2^(k+1).\<close>

definition ilog2 :: "rat \<Rightarrow> int" where
  "ilog2 x = (let (p, q) = quotient_of x; k = bitlen p - bitlen q in
     if x < 2 powi k then k - 1 else k)"

definition ulp_exp :: "rat \<Rightarrow> int" where
  "ulp_exp x = max (ilog2 x) (-1022) - 52"

definition round_pos :: "rat \<Rightarrow> rat" where
  "round_pos x = of_int (rne (x / 2 powi ulp_exp x)) * 2 powi ulp_exp x"

definition round64 :: "rat \<Rightarrow> rat" where
  "round64 x = (if x = 0 then 0 else if x > 0 then round_pos x else - round_pos (- x))"

section \<open>Values and operations\<close>

datatype float64 = Fin rat | PInf | NInf | NaN

definition f64 :: "rat \<Rightarrow> float64" where
  "f64 x = (let r = round64 x in
     if r \<ge> 2 ^ 1024 then PInf else if r \<le> - (2 ^ 1024) then NInf else Fin r)"

definition u64_rat :: "u64 \<Rightarrow> rat" where
  "u64_rat w = of_int (uint w)"

definition f64_of_u64 :: "u64 \<Rightarrow> float64" where
  "f64_of_u64 w = f64 (u64_rat w)"

definition f64_of_u32 :: "u32 \<Rightarrow> float64" where
  "f64_of_u32 w = f64 (of_int (uint w))"

fun flt :: "float64 \<Rightarrow> float64 \<Rightarrow> bool" where
  "flt (Fin a) (Fin b) = (a < b)"
| "flt NaN _ = False"
| "flt _ NaN = False"
| "flt NInf b = (b \<noteq> NInf)"
| "flt a NInf = False"
| "flt PInf b = False"
| "flt a PInf = True"

definition fle :: "float64 \<Rightarrow> float64 \<Rightarrow> bool" where
  "fle a b = (flt a b \<or> a = b \<and> a \<noteq> NaN)"

fun fneg :: "float64 \<Rightarrow> float64" where
  "fneg (Fin a) = Fin (- a)"
| "fneg PInf = NInf"
| "fneg NInf = PInf"
| "fneg NaN = NaN"

fun fadd :: "float64 \<Rightarrow> float64 \<Rightarrow> float64" where
  "fadd (Fin a) (Fin b) = f64 (a + b)"
| "fadd NaN _ = NaN"
| "fadd _ NaN = NaN"
| "fadd PInf NInf = NaN"
| "fadd NInf PInf = NaN"
| "fadd PInf _ = PInf"
| "fadd _ PInf = PInf"
| "fadd NInf _ = NInf"
| "fadd _ NInf = NInf"

definition fsign :: "float64 \<Rightarrow> int" where
  "fsign a = (case a of Fin x \<Rightarrow> (if x > 0 then 1 else if x < 0 then -1 else 0)
     | PInf \<Rightarrow> 1 | NInf \<Rightarrow> -1 | NaN \<Rightarrow> 0)"

definition finf :: "int \<Rightarrow> float64" where
  "finf s = (if s > 0 then PInf else if s < 0 then NInf else NaN)"

fun fmul :: "float64 \<Rightarrow> float64 \<Rightarrow> float64" where
  "fmul (Fin a) (Fin b) = f64 (a * b)"
| "fmul a b = (if a = NaN \<or> b = NaN then NaN else finf (fsign a * fsign b))"

fun fdiv :: "float64 \<Rightarrow> float64 \<Rightarrow> float64" where
  "fdiv (Fin a) (Fin b) = (if b = 0 then finf (fsign (Fin a)) else f64 (a / b))"
| "fdiv NaN _ = NaN"
| "fdiv _ NaN = NaN"
| "fdiv (Fin _) _ = Fin 0"
| "fdiv a (Fin b) = finf (fsign a * (if b < 0 then -1 else 1))"
| "fdiv _ _ = NaN"

text \<open>The built-in \<open>min\<close> and \<open>math.Max\<close>: NaN is contagious (for \<open>math.Max\<close>, +Inf wins over it).\<close>

definition fmin :: "float64 \<Rightarrow> float64 \<Rightarrow> float64" where
  "fmin a b = (if a = NaN \<or> b = NaN then NaN else if flt b a then b else a)"

definition math_Max :: "float64 \<Rightarrow> float64 \<Rightarrow> float64" where
  "math_Max a b = (if a = PInf \<or> b = PInf then PInf else if a = NaN \<or> b = NaN then NaN
     else if flt a b then b else a)"

text \<open>\<open>math.Round\<close>: half away from zero.\<close>

fun math_Round :: "float64 \<Rightarrow> float64" where
  "math_Round (Fin a) = Fin (if a \<ge> 0 then of_int \<lfloor>a + 1 / 2\<rfloor> else - of_int \<lfloor>- a + 1 / 2\<rfloor>)"
| "math_Round a = a"

text \<open>
  \<open>uint64(f)\<close> truncates towards zero. Out of range the result is implementation-defined;
  the model returns the low 64 bits there and no theorem depends on them.
\<close>

definition u64_of_f64 :: "float64 \<Rightarrow> u64" where
  "u64_of_f64 f = (case f of Fin a \<Rightarrow> word_of_int (if a \<ge> 0 then \<lfloor>a\<rfloor> else - \<lfloor>- a\<rfloor>) | _ \<Rightarrow> 0)"

section \<open>Rounding lemmas\<close>

lemma rne_mono: assumes "x \<le> y" shows "rne x \<le> rne y"
proof -
  have f: "\<lfloor>x\<rfloor> \<le> \<lfloor>y\<rfloor>" using assms by (rule floor_mono)
  show ?thesis
  proof (cases "\<lfloor>x\<rfloor> = \<lfloor>y\<rfloor>")
    case True
    with assms show ?thesis by (auto simp: rne_def Let_def)
  next
    case False
    with f have "\<lfloor>x\<rfloor> + 1 \<le> \<lfloor>y\<rfloor>" by simp
    then show ?thesis by (auto simp: rne_def Let_def)
  qed
qed

lemma rne_of_int [simp]: "rne (of_int n) = n"
  by (simp add: rne_def)

lemma rne_le_iff: "x \<le> of_int n \<Longrightarrow> rne x \<le> n"
  using rne_mono [of x "of_int n"] by simp

lemma rne_ge: "of_int n \<le> x \<Longrightarrow> n \<le> rne x"
  using rne_mono [of "of_int n" x] by simp

lemma bitlen_bounds_rat:
  assumes "0 < p" shows "(2::rat) powi (bitlen p - 1) \<le> of_int p" "of_int p < (2::rat) powi bitlen p"
proof -
  have b: "2 ^ nat (bitlen p - 1) \<le> p" "p < 2 ^ nat (bitlen p)"
    using bitlen_bounds [OF assms] by auto
  have pos: "0 < bitlen p" using assms bitlen_eq_zero_iff [of p] bitlen_nonneg [of p] by linarith
  have "(2::rat) powi (bitlen p - 1) = of_int (2 ^ nat (bitlen p - 1))"
    using pos by (simp add: power_int_def)
  then show "(2::rat) powi (bitlen p - 1) \<le> of_int p"
    using b(1) by (metis of_int_le_iff)
  have "(2::rat) powi bitlen p = of_int (2 ^ nat (bitlen p))"
    using pos by (simp add: power_int_def)
  then show "of_int p < (2::rat) powi bitlen p"
    using b(2) by (metis of_int_less_iff)
qed

lemma powi_pos [simp]: "0 < (2::rat) powi k"
  by (simp add: zero_less_power_int)

lemma powi_Suc: "(2::rat) powi (k + 1) = 2 * 2 powi k"
  by (simp add: power_int_add)

lemma powi_mono: "k \<le> m \<Longrightarrow> (2::rat) powi k \<le> 2 powi m"
  by (rule power_int_increasing) auto

lemma ilog2_bounds:
  assumes "0 < x" shows "2 powi ilog2 x \<le> x" "x < 2 powi (ilog2 x + 1)"
proof -
  obtain p q where pq: "quotient_of x = (p, q)" by (cases "quotient_of x")
  have q: "0 < q" using quotient_of_denom_pos [OF pq] .
  have x: "x = of_int p / of_int q" using quotient_of_div [OF pq] .
  have p: "0 < p" using assms q by (simp add: x zero_less_divide_iff)
  define k where "k = bitlen p - bitlen q"
  note bp = bitlen_bounds_rat [OF p] and bq = bitlen_bounds_rat [OF q]
  have q': "0 < (of_int q :: rat)" using q by simp
  have up: "x < 2 powi (k + 1)"
  proof -
    have "of_int p < (2::rat) powi bitlen p" by (rule bp)
    also have "\<dots> = 2 powi (k + 1) * 2 powi (bitlen q - 1)"
      by (simp add: k_def flip: power_int_add)
    also have "\<dots> \<le> 2 powi (k + 1) * of_int q"
      using bq(1) by (intro mult_left_mono) auto
    finally show ?thesis using q' by (simp add: x divide_less_eq)
  qed
  have lo: "2 powi (k - 1) \<le> x"
  proof -
    have "2 powi (k - 1) * of_int q \<le> 2 powi (k - 1) * (2::rat) powi bitlen q"
      using bq(2) by (intro mult_left_mono) auto
    also have "\<dots> = 2 powi (bitlen p - 1)"
      by (simp add: k_def flip: power_int_add)
    also have "\<dots> \<le> of_int p" by (rule bp)
    finally show ?thesis using q' by (simp add: x le_divide_eq)
  qed
  have il: "ilog2 x = (if x < 2 powi k then k - 1 else k)"
    by (simp add: ilog2_def pq k_def)
  show "2 powi ilog2 x \<le> x" using lo by (simp add: il)
  show "x < 2 powi (ilog2 x + 1)" using up by (simp add: il)
qed

lemma ilog2_mono: assumes "0 < x" "x \<le> y" shows "ilog2 x \<le> ilog2 y"
proof (rule ccontr)
  assume "\<not> ilog2 x \<le> ilog2 y"
  then have "ilog2 y + 1 \<le> ilog2 x" by simp
  then have "(2::rat) powi (ilog2 y + 1) \<le> 2 powi ilog2 x" by (rule powi_mono)
  moreover have "y < 2 powi (ilog2 y + 1)" "2 powi ilog2 x \<le> x"
    using ilog2_bounds [of x] ilog2_bounds [of y] assms by auto
  ultimately show False using assms by linarith
qed

lemma ulp_exp_mono: "0 < x \<Longrightarrow> x \<le> y \<Longrightarrow> ulp_exp x \<le> ulp_exp y"
  using ilog2_mono [of x y] by (simp add: ulp_exp_def max_def)

text \<open>The significand: below 2^53, and at least 2^52 above the subnormal range.\<close>

lemma signif_less: assumes "0 < x" shows "x / 2 powi ulp_exp x < 2 ^ 53"
proof -
  have "x < 2 powi (ilog2 x + 1)" using assms by (rule ilog2_bounds)
  also have "\<dots> \<le> 2 powi (ulp_exp x + 53)" by (rule powi_mono) (simp add: ulp_exp_def)
  also have "\<dots> = 2 ^ 53 * 2 powi ulp_exp x" by (simp add: power_int_add)
  finally show ?thesis by (simp add: divide_less_eq)
qed

lemma signif_ge: assumes "0 < x" "ulp_exp x > -1074" shows "2 ^ 52 \<le> x / 2 powi ulp_exp x"
proof -
  have "ulp_exp x = ilog2 x - 52" using assms(2) by (simp add: ulp_exp_def max_def split: if_splits)
  then have "2 ^ 52 * 2 powi ulp_exp x = (2::rat) powi ilog2 x"
    by (simp flip: power_int_add add: power_int_diff)
  then show ?thesis using ilog2_bounds(1) [OF assms(1)] by (simp add: le_divide_eq)
qed

lemma round_pos_le_top: assumes "0 < x" shows "round_pos x \<le> 2 powi (ulp_exp x + 53)"
proof -
  have "rne (x / 2 powi ulp_exp x) \<le> 2 ^ 53"
    using signif_less [OF assms] by (intro rne_le_iff) simp
  then have "(of_int (rne (x / 2 powi ulp_exp x)) :: rat) \<le> of_int (2 ^ 53)" by (rule of_int_le_iff [THEN iffD2])
  then have "round_pos x \<le> 2 ^ 53 * 2 powi ulp_exp x"
    unfolding round_pos_def by (intro mult_right_mono) auto
  then show ?thesis by (simp add: power_int_add)
qed

lemma round_pos_ge_bottom: assumes "0 < x" "ulp_exp x > -1074" shows "2 powi (ulp_exp x + 52) \<le> round_pos x"
proof -
  have "2 ^ 52 \<le> rne (x / 2 powi ulp_exp x)"
    using signif_ge [OF assms] by (intro rne_ge) simp
  then have "of_int (2 ^ 52) \<le> (of_int (rne (x / 2 powi ulp_exp x)) :: rat)" by (rule of_int_le_iff [THEN iffD2])
  then have "2 ^ 52 * 2 powi ulp_exp x \<le> round_pos x"
    unfolding round_pos_def by (intro mult_right_mono) auto
  then show ?thesis by (simp add: power_int_add)
qed

lemma round_pos_mono: assumes "0 < x" "x \<le> y" shows "round_pos x \<le> round_pos y"
proof (cases "ulp_exp x = ulp_exp y")
  case True
  have "rne (x / 2 powi ulp_exp x) \<le> rne (y / 2 powi ulp_exp x)"
    using assms by (intro rne_mono divide_right_mono) auto
  then show ?thesis unfolding round_pos_def True [symmetric] by (intro mult_right_mono) auto
next
  case False
  with ulp_exp_mono [OF assms] have lt: "ulp_exp x + 1 \<le> ulp_exp y" by simp
  have ge: "-1074 \<le> ulp_exp x" by (simp add: ulp_exp_def)
  have "round_pos x \<le> 2 powi (ulp_exp x + 53)" using assms(1) by (rule round_pos_le_top)
  also have "\<dots> \<le> 2 powi (ulp_exp y + 52)" using lt by (intro powi_mono) simp
  also have "\<dots> \<le> round_pos y" using assms lt ge by (intro round_pos_ge_bottom) auto
  finally show ?thesis .
qed

lemma round_pos_nonneg: "0 < x \<Longrightarrow> 0 \<le> round_pos x"
  unfolding round_pos_def by (intro mult_nonneg_nonneg) (auto intro!: rne_ge [of 0, simplified])

text \<open>A multiple of the unit in the last place is rounded to itself.\<close>

lemma round_pos_exact: assumes "x = of_int m * 2 powi ulp_exp x" shows "round_pos x = x"
proof -
  have "x / 2 powi ulp_exp x = of_int m" by (subst (1) assms) simp
  then show ?thesis using assms by (simp add: round_pos_def)
qed

text \<open>Numbers with at most 53 significant bits are representable.\<close>

lemma round_pos_repr: assumes x: "x = of_int m * 2 powi k" and "0 < m" "m < 2 ^ 53" "-1074 \<le> k"
  shows "round_pos x = x"
proof -
  have pos: "0 < x" using assms by simp
  have "x < 2 powi (k + 53)"
  proof -
    have "(of_int m :: rat) < of_int (2 ^ 53)" using assms(3) by (rule of_int_less_iff [THEN iffD2])
    then have "x < 2 ^ 53 * 2 powi k" unfolding x by (intro mult_strict_right_mono) auto
    then show ?thesis by (simp add: power_int_add)
  qed
  with ilog2_bounds(1) [OF pos] have "(2::rat) powi ilog2 x < 2 powi (k + 53)" by simp
  then have "ilog2 x < k + 53" by (metis linorder_not_le powi_mono)
  then have u: "ulp_exp x \<le> k" using assms(4) by (simp add: ulp_exp_def)
  have "x = of_int (m * 2 ^ nat (k - ulp_exp x)) * 2 powi ulp_exp x"
  proof -
    have "(2::rat) powi k = 2 ^ nat (k - ulp_exp x) * 2 powi ulp_exp x"
      using u by (metis (no_types) add.commute diff_add_cancel diff_ge_0_iff_ge power_int_add power_int_def zero_neq_numeral)
    then show ?thesis by (simp add: x)
  qed
  then show ?thesis by (rule round_pos_exact)
qed

text \<open>Rounding of rationals, and the quotients of counts the scores are made of.\<close>

lemma round64_mono: assumes "x \<le> y" shows "round64 x \<le> round64 y"
proof -
  consider "0 < x" | "y < 0" | "x \<le> 0" "0 \<le> y" by linarith
  then show ?thesis
  proof cases
    case 1
    with assms show ?thesis by (simp add: round64_def round_pos_mono)
  next
    case 2
    with assms have "round_pos (- y) \<le> round_pos (- x)" by (intro round_pos_mono) auto
    with 2 assms show ?thesis by (simp add: round64_def)
  next
    case 3
    then have "round64 x \<le> 0" "0 \<le> round64 y"
      using round_pos_nonneg [of "- x"] round_pos_nonneg [of y] by (auto simp: round64_def)
    then show ?thesis by simp
  qed
qed

lemma round64_0 [simp]: "round64 0 = 0"
  by (simp add: round64_def)

lemma round64_repr:
  "0 < m \<Longrightarrow> m < 2 ^ 53 \<Longrightarrow> -1074 \<le> k \<Longrightarrow> round64 (of_int m * 2 powi k) = of_int m * 2 powi k"
  using round_pos_repr [OF refl, of m k] by (simp add: round64_def)

lemma round64_of_int: assumes "0 \<le> m" "m < 2 ^ 53" shows "round64 (of_int m) = of_int m"
  using round64_repr [of m 0] assms by (cases "m = 0") auto

lemma round64_1 [simp]: "round64 1 = 1"
  using round64_of_int [of 1] by simp

lemma round64_pow2: assumes "-1074 \<le> k" shows "round64 (2 powi k) = 2 powi k"
  using round64_repr [of 1 k] assms by simp

lemma f64_Fin: assumes "\<bar>x\<bar> \<le> 2 powi 1023" shows "f64 x = Fin (round64 x)"
proof -
  have top: "round64 (2 powi 1023) = 2 powi 1023" by (rule round64_pow2) simp
  have lt: "(2::rat) powi 1023 < 2 ^ 1024" by (simp add: power_int_def)
  have "round64 x \<le> 2 powi 1023"
    using round64_mono [of x "2 powi 1023"] assms top by simp
  moreover have "- (2 powi 1023) \<le> round64 x"
    using round64_mono [of "- (2 powi 1023)" x] assms top by (simp add: round64_def)
  ultimately show ?thesis using lt by (simp add: f64_def Let_def)
qed

lemma u64_rat_nonneg [simp]: "0 \<le> u64_rat w"
  unfolding u64_rat_def by (rule of_int_0_le_iff [THEN iffD2]) (rule uint_ge_0)

lemma u64_rat_0 [simp]: "u64_rat 0 = 0"
  by (simp add: u64_rat_def)

lemma u64_rat_mono: "a \<le> b \<Longrightarrow> u64_rat a \<le> u64_rat b"
  unfolding u64_rat_def by (rule of_int_le_iff [THEN iffD2]) (simp add: word_le_def)

lemma u64_rat_less: "a < b \<Longrightarrow> u64_rat a + 1 \<le> u64_rat b"
proof -
  assume "a < b"
  then have "uint a + 1 \<le> uint b" by (simp add: word_less_def)
  then have "(of_int (uint a + 1) :: rat) \<le> of_int (uint b)" by (rule of_int_le_iff [THEN iffD2])
  then show ?thesis unfolding u64_rat_def by (simp only: of_int_add of_int_1)
qed

lemma u64_rat_ge1: "w \<noteq> 0 \<Longrightarrow> 1 \<le> u64_rat w"
  using u64_rat_less [of 0 w] by (simp add: word_neq_0_conv)

lemma u64_rat_bound: "\<bar>u64_rat w\<bar> \<le> 2 powi 1023"
proof -
  have "u64_rat w \<le> of_int (2 ^ 64)"
    unfolding u64_rat_def using uint_lt2p [of w] by (intro of_int_le_iff [THEN iffD2]) simp
  also have "\<dots> \<le> 2 powi 1023"
    using powi_mono [of 64 1023] by (simp add: power_int_def)
  finally show ?thesis by (subst abs_of_nonneg) simp_all
qed

lemma f64_of_u64_Fin: "f64_of_u64 w = Fin (round64 (u64_rat w))"
  unfolding f64_of_u64_def by (rule f64_Fin) (rule u64_rat_bound)

lemma f64_of_u64_exact: assumes "uint w < 2 ^ 53" shows "f64_of_u64 w = Fin (u64_rat w)"
proof -
  have "round64 (u64_rat w) = u64_rat w"
    unfolding u64_rat_def using assms by (intro round64_of_int) auto
  then show ?thesis by (simp only: f64_of_u64_Fin)
qed

lemma round64_u64_ge1: "w \<noteq> 0 \<Longrightarrow> 1 \<le> round64 (u64_rat w)"
  using round64_mono [of 1 "u64_rat w"] u64_rat_ge1 [of w] by simp

lemma unit_bound: "0 \<le> x \<Longrightarrow> x \<le> 1 \<Longrightarrow> \<bar>x\<bar> \<le> (2::rat) powi 1023"
  using powi_mono [of 0 1023] by (simp only: abs_of_nonneg power_int_0_right order_trans)

text \<open>The quotient of two counts.\<close>

lemma f64_ratio:
  assumes "a \<le> b" "b \<noteq> 0"
  obtains r where "fdiv (f64_of_u64 a) (f64_of_u64 b) = Fin r" "0 \<le> r" "r \<le> 1"
proof -
  define x y where "x = round64 (u64_rat a)" and "y = round64 (u64_rat b)"
  have y: "1 \<le> y" using assms(2) by (simp add: y_def round64_u64_ge1)
  have xy: "x \<le> y" unfolding x_def y_def using assms(1) by (intro round64_mono u64_rat_mono)
  have x: "0 \<le> x" unfolding x_def using round64_mono [of 0 "u64_rat a"] by simp
  have q: "0 \<le> x / y" "x / y \<le> 1" using x y xy by auto
  have "fdiv (f64_of_u64 a) (f64_of_u64 b) = Fin (round64 (x / y))"
    using y f64_Fin [OF unit_bound [OF q]] by (simp add: f64_of_u64_Fin flip: x_def y_def)
  moreover have "0 \<le> round64 (x / y)" "round64 (x / y) \<le> 1"
    using round64_mono [OF q(1)] round64_mono [OF q(2)] by simp_all
  ultimately show ?thesis by (rule that)
qed

lemma f64_ratio_one: "b \<noteq> 0 \<Longrightarrow> fdiv (f64_of_u64 b) (f64_of_u64 b) = Fin 1"
  using round64_u64_ge1 [of b] f64_Fin [OF unit_bound, of 1] by (simp add: f64_of_u64_Fin)

lemma f64_ratio_zero: "b \<noteq> 0 \<Longrightarrow> fdiv (f64_of_u64 0) (f64_of_u64 b) = Fin 0"
  using round64_u64_ge1 [of b] f64_Fin [OF unit_bound, of 0] by (simp add: f64_of_u64_Fin)

lemma round64_below_one: "round64 (1 - 1 / 2 ^ 53) = 1 - 1 / 2 ^ 53"
proof -
  have "(1 - 1 / 2 ^ 53 :: rat) = of_int (2 ^ 53 - 1) * 2 powi (- 53)"
    by (simp add: power_int_def power_divide)
  moreover have "round64 (of_int (2 ^ 53 - 1) * 2 powi (- 53)) = of_int (2 ^ 53 - 1) * 2 powi (- 53)"
    by (rule round64_repr) simp_all
  ultimately show ?thesis by (simp only:)
qed

lemma f64_ratio_less_one:
  assumes "a < b" "uint b < 2 ^ 53"
  obtains r where "fdiv (f64_of_u64 a) (f64_of_u64 b) = Fin r" "r < 1"
proof -
  have ab: "u64_rat a + 1 \<le> u64_rat b" "uint a < 2 ^ 53"
    using u64_rat_less [OF assms(1)] assms by (simp_all add: word_less_def)
  have b: "1 \<le> u64_rat b" using ab u64_rat_nonneg [of a] by linarith
  have b53: "u64_rat b \<le> 2 ^ 53"
  proof -
    have "u64_rat b \<le> of_int (2 ^ 53)"
      unfolding u64_rat_def using assms(2) by (intro of_int_le_iff [THEN iffD2]) simp
    then show ?thesis by simp
  qed
  define x where "x = u64_rat a / u64_rat b"
  have "x \<le> (u64_rat b - 1) / u64_rat b"
    unfolding x_def using ab b by (intro divide_right_mono) auto
  also have "\<dots> = 1 - 1 / u64_rat b" using b by (simp add: diff_divide_distrib)
  also have "\<dots> \<le> 1 - 1 / 2 ^ 53" using b b53 by (intro diff_left_mono divide_left_mono) auto
  finally have "round64 x \<le> round64 (1 - 1 / 2 ^ 53)" by (rule round64_mono)
  then have lt: "round64 x < 1" unfolding round64_below_one by (rule order_le_less_trans) simp
  have x: "0 \<le> x" "x \<le> 1" using ab b by (simp_all add: x_def)
  have "fdiv (f64_of_u64 a) (f64_of_u64 b) = Fin (round64 x)"
    using b f64_Fin [OF unit_bound [OF x]]
    by (simp add: f64_of_u64_exact [OF assms(2)] f64_of_u64_exact [OF ab(2)] flip: x_def)
  then show ?thesis using lt by (rule that)
qed

lemma flt_irrefl [simp]: "\<not> flt a a"
  by (cases a) auto

lemma flt_asym: "flt a b \<Longrightarrow> \<not> flt b a"
  by (cases a; cases b) auto

lemma flt_trans: "flt a b \<Longrightarrow> flt b c \<Longrightarrow> flt a c"
  by (cases a; cases b; cases c) auto

lemma flt_total: "a \<noteq> NaN \<Longrightarrow> b \<noteq> NaN \<Longrightarrow> a \<noteq> b \<Longrightarrow> flt a b \<or> flt b a"
  by (cases a; cases b) auto

end
