(* ===== verification/Model.thy ===== *)
theory Model
  imports Prelude
begin

text \<open>
  The order model of the correctness validator (\<open>correctness-validator/internal/model/order.go\<close>):
  TCP flows, sides, kinds, the responses captured for an order and the order itself. A Go
  string is its list of bytes; a price is the \<open>int64\<close> of the source, as an \<open>int\<close>.
\<close>

record Flow =
  SrcIP :: u32
  SrcPort :: u16

definition Flow_Less :: "Flow \<Rightarrow> Flow \<Rightarrow> bool" where
  "Flow_Less f o' = (if SrcIP f \<noteq> SrcIP o' then SrcIP f < SrcIP o' else SrcPort f < SrcPort o')"

datatype Side = Buy | Sell

definition SideFrom :: "string \<Rightarrow> Side" where
  "SideFrom s = (if s = ''SELL'' then Sell else Buy)"

datatype Kind = NewLimit | NewMarket | Cancel | Replace

definition KindFrom :: "string \<Rightarrow> string \<Rightarrow> Kind" where
  "KindFrom payloadType ordType =
     (if payloadType = ''CANCEL'' then Cancel
      else if payloadType = ''REPLACE'' then Replace
      else if ordType = ''MARKET'' then NewMarket else NewLimit)"

fun Kind_String :: "Kind \<Rightarrow> string" where
  "Kind_String NewLimit = ''NewLimit''"
| "Kind_String NewMarket = ''NewMarket''"
| "Kind_String Cancel = ''Cancel''"
| "Kind_String Replace = ''Replace''"

record Response =
  ExecType :: string
  FillQty :: u64
  FillPrice :: u64
  T7Ns :: u64

record Order =
  o_OrderID :: string
  o_Flow :: Flow
  o_TCPSeq :: u32
  o_T3Ns :: u64
  o_EffectiveT3 :: u64
  o_Side :: Side
  o_Price :: i64
  o_Qty :: u64
  o_Kind :: Kind
  o_OrigOrderID :: string
  o_SMPID :: u32
  o_HasSMPID :: bool
  o_Responses :: "Response list"

text \<open>The zero value of \<open>Order\<close>, which a composite literal starts from.\<close>

definition zeroFlow :: Flow where
  "zeroFlow = \<lparr>SrcIP = 0, SrcPort = 0\<rparr>"

definition zeroOrder :: Order where
  "zeroOrder = \<lparr>o_OrderID = [], o_Flow = zeroFlow, o_TCPSeq = 0, o_T3Ns = 0, o_EffectiveT3 = 0,
     o_Side = Buy, o_Price = 0, o_Qty = 0, o_Kind = NewLimit, o_OrigOrderID = [], o_SMPID = 0,
     o_HasSMPID = False, o_Responses = []\<rparr>"

text \<open>Flows are ordered totally.\<close>

lemma Flow_eqI: "SrcIP f = SrcIP g \<Longrightarrow> SrcPort f = SrcPort g \<Longrightarrow> f = (g :: Flow)"
  by simp

lemma Flow_Less_irrefl [simp]: "\<not> Flow_Less f f"
  by (simp add: Flow_Less_def)

lemma Flow_Less_asym: "Flow_Less f g \<Longrightarrow> \<not> Flow_Less g f"
  by (auto simp: Flow_Less_def split: if_splits)

lemma Flow_Less_trans: "Flow_Less f g \<Longrightarrow> Flow_Less g h \<Longrightarrow> Flow_Less f h"
  by (auto simp: Flow_Less_def split: if_splits)

lemma Flow_Less_total: "f \<noteq> g \<Longrightarrow> Flow_Less f g \<or> Flow_Less g f"
  by (auto simp: Flow_Less_def intro: Flow_eqI)

end
