(* ===== verification/Btree.thy ===== *)
theory Btree
  imports Prelude
begin

text \<open>
  The interface of \<open>github.com/google/btree\<close>, the one third-party container the order book is
  built on. Its code is not part of the repository, so the book takes its operations as a
  parameter (the record \<open>btree_ops\<close>) and relies on what the package documents, the laws of the
  locale \<open>btree_laws\<close>: a tree made by \<open>NewG\<close> with a strict weak order holds its items in that
  order, \<open>Min\<close> is the first, \<open>Get\<close> finds the item equivalent to a key, \<open>Delete\<close> removes it, and
  \<open>ReplaceOrInsert\<close> puts the item in the place of an equivalent one or in its sorted position.

  \<open>LB\<close> is the reference implementation, a comparison function with a sorted list; it
  satisfies the laws, and the concrete runs of the development use it.
\<close>

record ('k, 't) btree_ops =
  NewG :: "nat \<Rightarrow> ('k \<Rightarrow> 'k \<Rightarrow> bool) \<Rightarrow> 't"
  Min_op :: "'t \<Rightarrow> 'k option"
  Get_op :: "'t \<Rightarrow> 'k \<Rightarrow> 'k option"
  Delete_op :: "'t \<Rightarrow> 'k \<Rightarrow> 't"
  ReplaceOrInsert_op :: "'t \<Rightarrow> 'k \<Rightarrow> 't"

definition less_weak :: "('k \<Rightarrow> 'k \<Rightarrow> bool) \<Rightarrow> bool" where
  "less_weak lt = strict_weak_on UNIV lt"

locale btree_laws =
  fixes B :: "('k, 't) btree_ops"
    and wf :: "'t \<Rightarrow> bool"
    and less_of :: "'t \<Rightarrow> 'k \<Rightarrow> 'k \<Rightarrow> bool"
    and items :: "'t \<Rightarrow> 'k list"
  assumes NewG_wf: "1 < d \<Longrightarrow> less_weak lt \<Longrightarrow> wf (NewG B d lt)"
    and NewG_less: "1 < d \<Longrightarrow> less_weak lt \<Longrightarrow> less_of (NewG B d lt) = lt"
    and NewG_items: "1 < d \<Longrightarrow> less_weak lt \<Longrightarrow> items (NewG B d lt) = []"
    and wf_less: "wf t \<Longrightarrow> less_weak (less_of t)"
    and items_sorted: "wf t \<Longrightarrow> sorted_wrt (less_of t) (items t)"
    and Min_items: "wf t \<Longrightarrow> Min_op B t = (case items t of [] \<Rightarrow> None | x # _ \<Rightarrow> Some x)"
    and Get_items: "wf t \<Longrightarrow>
      Get_op B t k = find (\<lambda>x. \<not> less_of t k x \<and> \<not> less_of t x k) (items t)"
    and Delete_wf: "wf t \<Longrightarrow> wf (Delete_op B t k)"
    and Delete_less: "wf t \<Longrightarrow> less_of (Delete_op B t k) = less_of t"
    and Delete_items: "wf t \<Longrightarrow>
      items (Delete_op B t k) = filter (\<lambda>x. less_of t k x \<or> less_of t x k) (items t)"
    and Insert_wf: "wf t \<Longrightarrow> wf (ReplaceOrInsert_op B t k)"
    and Insert_less: "wf t \<Longrightarrow> less_of (ReplaceOrInsert_op B t k) = less_of t"
    and Insert_items: "wf t \<Longrightarrow> items (ReplaceOrInsert_op B t k) =
      filter (\<lambda>x. less_of t x k) (items t) @ [k] @ filter (less_of t k) (items t)"
begin

lemma less_irrefl: "wf t \<Longrightarrow> \<not> less_of t x x"
  using wf_less [of t] unfolding less_weak_def strict_weak_on_def by blast

lemma less_trans: "wf t \<Longrightarrow> less_of t x y \<Longrightarrow> less_of t y z \<Longrightarrow> less_of t x z"
  using wf_less [of t] unfolding less_weak_def strict_weak_on_def by blast

text \<open>Deleting the first item leaves the rest.\<close>

lemma Delete_min:
  assumes "wf t" "items t = x # xs"
  shows "items (Delete_op B t x) = xs"
  using assms items_sorted [OF assms(1)] less_irrefl [OF assms(1)]
  by (auto simp: Delete_items intro!: filter_True)

text \<open>Items that all come before the tree's, put back one after the other, become its front.\<close>

lemma foldl_Insert_front:
  assumes "wf t" "sorted_wrt (less_of t) (xs @ items t)"
  shows "items (foldl (ReplaceOrInsert_op B) t xs) = xs @ items t
    \<and> wf (foldl (ReplaceOrInsert_op B) t xs)
    \<and> less_of (foldl (ReplaceOrInsert_op B) t xs) = less_of t"
  using assms
proof (induction xs rule: rev_induct)
  case (snoc x xs)
  let ?t = "foldl (ReplaceOrInsert_op B) t xs"
  have so: "sorted_wrt (less_of t) (xs @ items t)"
    using snoc.prems(2) by (auto simp: sorted_wrt_append)
  note IH = snoc.IH [OF snoc.prems(1) so]
  have lt: "less_of t y x" if "y \<in> set xs" for y
    using that snoc.prems(2) by (auto simp: sorted_wrt_append)
  have gt: "less_of t x y" if "y \<in> set (items t)" for y
    using that snoc.prems(2) by (auto simp: sorted_wrt_append)
  have asym: "\<not> less_of t b a" if "less_of t a b" for a b
    using less_irrefl [OF snoc.prems(1)] less_trans [OF snoc.prems(1) that] by blast
  have "filter (\<lambda>y. less_of t y x) xs = xs" "filter (\<lambda>y. less_of t y x) (items t) = []"
    "filter (less_of t x) xs = []" "filter (less_of t x) (items t) = items t"
    using lt gt asym by (simp_all add: filter_id_conv filter_empty_conv)
  then show ?case
    using IH by (simp add: Insert_items Insert_wf Insert_less)
qed simp

end

section \<open>The reference implementation\<close>

type_synonym 'k ltree = "('k \<Rightarrow> 'k \<Rightarrow> bool) \<times> 'k list"

definition LB_Delete :: "'k ltree \<Rightarrow> 'k \<Rightarrow> 'k ltree" where
  "LB_Delete t k = (fst t, filter (\<lambda>x. fst t k x \<or> fst t x k) (snd t))"

definition LB_Insert :: "'k ltree \<Rightarrow> 'k \<Rightarrow> 'k ltree" where
  "LB_Insert t k = (fst t, filter (\<lambda>x. fst t x k) (snd t) @ [k] @ filter (fst t k) (snd t))"

definition LB :: "('k, 'k ltree) btree_ops" where
  "LB = \<lparr>NewG = (\<lambda>d lt. (lt, [])),
     Min_op = (\<lambda>t. case snd t of [] \<Rightarrow> None | x # _ \<Rightarrow> Some x),
     Get_op = (\<lambda>t k. find (\<lambda>x. \<not> fst t k x \<and> \<not> fst t x k) (snd t)),
     Delete_op = LB_Delete, ReplaceOrInsert_op = LB_Insert\<rparr>"

definition LB_wf :: "'k ltree \<Rightarrow> bool" where
  "LB_wf t \<longleftrightarrow> less_weak (fst t) \<and> sorted_wrt (fst t) (snd t)"

lemma LB_simps [simp]:
  "NewG LB d lt = (lt, [])" "Min_op LB t = (case snd t of [] \<Rightarrow> None | x # _ \<Rightarrow> Some x)"
  "Get_op LB t k = find (\<lambda>x. \<not> fst t k x \<and> \<not> fst t x k) (snd t)"
  "Delete_op LB = LB_Delete" "ReplaceOrInsert_op LB = LB_Insert"
  by (simp_all add: LB_def)

lemma LB_Insert_wf: "LB_wf t \<Longrightarrow> LB_wf (LB_Insert t k)"
proof -
  assume wf: "LB_wf t"
  then have tr: "fst t x z" if "fst t x y" "fst t y z" for x y z
    using that unfolding LB_wf_def less_weak_def strict_weak_on_def by blast
  have "sorted_wrt (fst t) (filter (\<lambda>x. fst t x k) (snd t) @ [k] @ filter (fst t k) (snd t))"
    using wf tr by (auto simp: LB_wf_def sorted_wrt_append sorted_wrt_filter)
  with wf show ?thesis by (simp add: LB_wf_def LB_Insert_def)
qed

interpretation lb: btree_laws LB LB_wf fst snd
proof
  show "LB_wf t \<Longrightarrow> LB_wf (ReplaceOrInsert_op LB t k)" for t :: "'a ltree" and k
    by (simp add: LB_Insert_wf)
qed (auto simp: LB_wf_def LB_Delete_def LB_Insert_def sorted_wrt_filter split: list.splits)

end
