(* ===== verification/Book.thy ===== *)
theory Book
  imports Model Btree
begin

text \<open>
  The reference matching engine (\<open>correctness-validator/internal/book/book.go\<close>).

  The engine is the record \<open>Engine\<close>, with the fields of the Go struct. The two price trees hold
  pointers to price levels, and a level holds pointers to resting orders that the index map
  shares; the code mutates both through those pointers. So the record carries an explicit
  store: \<open>orderHeap\<close> maps an order's address to its struct, \<open>levelHeap\<close> a level's address to its
  \<open>orders\<close> slice (the \<open>price\<close> of a level is never assigned after its construction and stays in
  the pointer record \<open>priceLevel\<close>), and the two counters are the next free addresses.

  The trees are those of \<open>google/btree\<close>: the operations take the record \<open>B\<close> of its operations
  as an argument. The inner matching loop is a total function; the outer one ends only
  because the tree shrinks, so it is a partial function, with \<open>None\<close> for not returning.
\<close>

section \<open>State\<close>

type_synonym addr = nat

record Fill =
  f_OrderID :: string
  f_Price :: i64
  f_Qty :: u64

record Trade =
  t_MakerOrderID :: string
  t_TakerOrderID :: string
  t_Price :: i64
  t_Qty :: u64
  t_MakerSeq :: u64
  t_MakerSMPID :: u32
  t_MakerHasSMPID :: bool
  t_TakerSMPID :: u32
  t_TakerHasSMPID :: bool

record RestingState =
  rs_OrderID :: string
  rs_Side :: Side
  rs_Price :: i64
  rs_Seq :: u64
  rs_Remaining :: u64
  rs_SMPID :: u32
  rs_HasSMPID :: bool

record restingOrder =
  ro_orderID :: string
  ro_side :: Side
  ro_price :: i64
  ro_remaining :: u64
  ro_seq :: u64
  ro_smpID :: u32
  ro_hasSMP :: bool

record priceLevel =
  pl_price :: i64
  pl_ref :: addr

record 't Engine =
  asks :: 't
  bids :: 't
  index :: "string \<rightharpoonup> addr"
  seq :: u64
  fills :: "Fill list"
  trades :: "Trade list"
  repriced :: "string \<rightharpoonup> bool"
  seqByOrder :: "string \<rightharpoonup> u64"
  evicted :: "string list"
  orderHeap :: "addr \<Rightarrow> restingOrder"
  orderNext :: addr
  levelHeap :: "addr \<Rightarrow> addr list"
  levelNext :: addr

type_synonym 't level_ops = "(priceLevel, 't) btree_ops"

definition zeroResting :: restingOrder where
  "zeroResting = \<lparr>ro_orderID = [], ro_side = Buy, ro_price = 0, ro_remaining = 0, ro_seq = 0,
     ro_smpID = 0, ro_hasSMP = False\<rparr>"

definition asks_less :: "priceLevel \<Rightarrow> priceLevel \<Rightarrow> bool" where
  "asks_less a b = (pl_price a < pl_price b)"

definition bids_less :: "priceLevel \<Rightarrow> priceLevel \<Rightarrow> bool" where
  "bids_less a b = (pl_price a > pl_price b)"

definition NewEngine :: "'t level_ops \<Rightarrow> 't Engine" where
  "NewEngine B = \<lparr>asks = NewG B 32 asks_less, bids = NewG B 32 bids_less,
     index = Map.empty, seq = 0, fills = [], trades = [], repriced = Map.empty,
     seqByOrder = Map.empty, evicted = [],
     orderHeap = (\<lambda>_. zeroResting), orderNext = 0, levelHeap = (\<lambda>_. []), levelNext = 0\<rparr>"

section \<open>Queries\<close>

definition Repriced :: "'t Engine \<Rightarrow> string \<Rightarrow> bool" where
  "Repriced e orderID = (case repriced e orderID of Some b \<Rightarrow> b | None \<Rightarrow> False)"

definition SeqOf :: "'t Engine \<Rightarrow> string \<Rightarrow> u64 option" where
  "SeqOf e orderID = seqByOrder e orderID"

definition DrainFills :: "'t Engine \<Rightarrow> Fill list \<times> 't Engine" where
  "DrainFills e = (fills e, e\<lparr>fills := []\<rparr>)"

definition DrainTrades :: "'t Engine \<Rightarrow> Trade list \<times> 't Engine" where
  "DrainTrades e = (trades e, e\<lparr>trades := []\<rparr>)"

definition DrainEvicted :: "'t Engine \<Rightarrow> string list \<times> 't Engine" where
  "DrainEvicted e = (evicted e, e\<lparr>evicted := []\<rparr>)"

definition Forget :: "'t Engine \<Rightarrow> string \<Rightarrow> 't Engine" where
  "Forget e orderID = e\<lparr>seqByOrder := (seqByOrder e)(orderID := None),
     repriced := (repriced e)(orderID := None)\<rparr>"

definition IsResting :: "'t Engine \<Rightarrow> string \<Rightarrow> bool" where
  "IsResting e orderID = (index e orderID \<noteq> None)"

definition tree :: "'t Engine \<Rightarrow> Side \<Rightarrow> 't" where
  "tree e side = (if side = Buy then bids e else asks e)"

definition setTree :: "Side \<Rightarrow> 't \<Rightarrow> 't Engine \<Rightarrow> 't Engine" where
  "setTree side t e = (if side = Buy then e\<lparr>bids := t\<rparr> else e\<lparr>asks := t\<rparr>)"

definition setOrders :: "priceLevel \<Rightarrow> addr list \<Rightarrow> 't Engine \<Rightarrow> 't Engine" where
  "setOrders level os e = e\<lparr>levelHeap := (levelHeap e)(pl_ref level := os)\<rparr>"

definition orders :: "'t Engine \<Rightarrow> priceLevel \<Rightarrow> addr list" where
  "orders e level = levelHeap e (pl_ref level)"

text \<open>A search key \<open>&priceLevel{price: p}\<close>: a fresh level with no orders.\<close>

definition keyLevel :: "'t Engine \<Rightarrow> i64 \<Rightarrow> priceLevel" where
  "keyLevel e p = \<lparr>pl_price = p, pl_ref = levelNext e\<rparr>"

definition RestingSMPMatch :: "'t level_ops \<Rightarrow> 't Engine \<Rightarrow> Side \<Rightarrow> i64 \<Rightarrow> u32 \<Rightarrow> bool" where
  "RestingSMPMatch B e side price smpID =
     (case Get_op B (tree e side) (keyLevel e price) of
        None \<Rightarrow> False
      | Some level \<Rightarrow> list_ex (\<lambda>a. ro_hasSMP (orderHeap e a) \<and> ro_smpID (orderHeap e a) = smpID)
          (orders e level))"

definition Resting :: "'t Engine \<Rightarrow> string \<rightharpoonup> RestingState" where
  "Resting e orderID = (case index e orderID of None \<Rightarrow> None
     | Some a \<Rightarrow> (let ro = orderHeap e a in
         Some \<lparr>rs_OrderID = orderID, rs_Side = ro_side ro, rs_Price = ro_price ro, rs_Seq = ro_seq ro,
           rs_Remaining = ro_remaining ro, rs_SMPID = ro_smpID ro, rs_HasSMPID = ro_hasSMP ro\<rparr>))"

section \<open>Matching\<close>

definition crosses :: "Side \<Rightarrow> i64 \<Rightarrow> i64 \<Rightarrow> bool" where
  "crosses aggressorSide aggressorPrice restingPrice =
     (if aggressorSide = Buy then restingPrice \<le> aggressorPrice
      else restingPrice \<ge> aggressorPrice)"

definition oppositeSide :: "Side \<Rightarrow> Side" where
  "oppositeSide s = (if s = Buy then Sell else Buy)"

definition min_u64 :: "u64 \<Rightarrow> u64 \<Rightarrow> u64" where
  "min_u64 a b = (if a < b then a else b)"

definition sameSMP :: "Order \<Rightarrow> restingOrder \<Rightarrow> bool" where
  "sameSMP o' maker \<longleftrightarrow> o_HasSMPID o' \<and> ro_hasSMP maker \<and> ro_smpID maker = o_SMPID o'"

definition mkTrade :: "Order \<Rightarrow> i64 \<Rightarrow> restingOrder \<Rightarrow> u64 \<Rightarrow> Trade" where
  "mkTrade o' price maker traded = \<lparr>t_MakerOrderID = ro_orderID maker, t_TakerOrderID = o_OrderID o',
     t_Price = price, t_Qty = traded, t_MakerSeq = ro_seq maker,
     t_MakerSMPID = ro_smpID maker, t_MakerHasSMPID = ro_hasSMP maker,
     t_TakerSMPID = o_SMPID o', t_TakerHasSMPID = o_HasSMPID o'\<rparr>"

definition mkFills :: "Order \<Rightarrow> i64 \<Rightarrow> restingOrder \<Rightarrow> u64 \<Rightarrow> Fill list" where
  "mkFills o' price maker traded =
     [\<lparr>f_OrderID = o_OrderID o', f_Price = price, f_Qty = traded\<rparr>,
      \<lparr>f_OrderID = ro_orderID maker, f_Price = price, f_Qty = traded\<rparr>]"

text \<open>One trade with the maker at the front of the level, and its removal once consumed.\<close>

definition tradeFront ::
  "Order \<Rightarrow> priceLevel \<Rightarrow> addr \<Rightarrow> addr list \<Rightarrow> 't Engine \<Rightarrow> u64 \<Rightarrow> 't Engine" where
  "tradeFront o' level a rest e remaining = (let
     maker = orderHeap e a;
     traded = min_u64 remaining (ro_remaining maker);
     e1 = e\<lparr>fills := fills e @ mkFills o' (pl_price level) maker traded,
            trades := trades e @ [mkTrade o' (pl_price level) maker traded],
            orderHeap := (orderHeap e)(a := maker\<lparr>ro_remaining := ro_remaining maker - traded\<rparr>)\<rparr>
   in if ro_remaining maker - traded = 0
      then setOrders level rest
             (e1\<lparr>index := (index e)(ro_orderID maker := None),
                evicted := evicted e @ [ro_orderID maker]\<rparr>)
      else e1)"

lemma orders_setOrders [simp]: "orders (setOrders l os e) l = os"
  by (simp add: orders_def setOrders_def)

lemma min_u64_min: "min_u64 a b = min a b"
  by (auto simp: min_u64_def min_def not_less)

lemma tradeFront_decreases:
  assumes "orders e level = a # rest" "remaining \<noteq> 0"
  defines "q \<equiv> min_u64 remaining (ro_remaining (orderHeap e a))"
  shows "length (orders (tradeFront o' level a rest e remaining) level) + unat (remaining - q)
    < length (orders e level) + unat remaining"
proof (cases "ro_remaining (orderHeap e a) - q = 0")
  case True
  moreover have "unat (remaining - q) \<le> unat remaining"
    by (simp add: q_def min_u64_min word_min_sub)
  ultimately show ?thesis
    using assms(1) by (simp add: tradeFront_def Let_def q_def)
next
  case False
  then have "q = remaining" by (auto simp: q_def min_u64_def split: if_splits)
  with False assms(1,2) show ?thesis
    by (simp add: tradeFront_def Let_def q_def orders_def word_neq_0_conv unat_gt_0)
qed

text \<open>The inner loop over the makers of one level; it returns the makers it passed over.\<close>

function matchLevel ::
  "Order \<Rightarrow> priceLevel \<Rightarrow> 't Engine \<Rightarrow> addr list \<Rightarrow> u64 \<Rightarrow> 't Engine \<times> addr list \<times> u64" where
  "matchLevel o' level e skipped remaining = (case orders e level of
     [] \<Rightarrow> (e, skipped, remaining)
   | a # rest \<Rightarrow>
       if remaining = 0 then (e, skipped, remaining)
       else if sameSMP o' (orderHeap e a)
       then matchLevel o' level (setOrders level rest e) (skipped @ [a]) remaining
       else matchLevel o' level (tradeFront o' level a rest e remaining) skipped
              (remaining - min_u64 remaining (ro_remaining (orderHeap e a))))"
  by pat_completeness auto
termination
proof (relation "measure (\<lambda>(o', level, e, skipped, remaining). length (orders e level) + unat remaining)",
    goal_cases)
  case (3 o' level e skipped remaining a rest)
  then show ?case using tradeFront_decreases [of e level a rest remaining o'] by simp
qed auto

declare matchLevel.simps [simp del]

definition allSameSMP :: "'t Engine \<Rightarrow> addr list \<Rightarrow> u32 \<Rightarrow> bool" where
  "allSameSMP e os smp =
     (list_all (\<lambda>a. \<not> (\<not> ro_hasSMP (orderHeap e a) \<or> ro_smpID (orderHeap e a) \<noteq> smp)) os
      \<and> os \<noteq> [])"

text \<open>
  The outer loop over the price levels of the opposite side; it returns the levels parked
  out of the tree and the quantity left.
\<close>

partial_function (option) matchLoop ::
  "'t level_ops \<Rightarrow> Order \<Rightarrow> 't Engine \<Rightarrow> priceLevel list \<Rightarrow> u64 \<Rightarrow>
   ('t Engine \<times> priceLevel list \<times> u64) option" where
  "matchLoop B o' e skippedLevels remaining = (let opp = oppositeSide (o_Side o') in
     if remaining = 0 then Some (e, skippedLevels, remaining)
     else case Min_op B (tree e opp) of
       None \<Rightarrow> Some (e, skippedLevels, remaining)
     | Some level \<Rightarrow>
         if o_Kind o' = NewLimit \<and> \<not> crosses (o_Side o') (o_Price o') (pl_price level)
         then Some (e, skippedLevels, remaining)
         else (let
           (e1, skipped, remaining1) = matchLevel o' level e [] remaining;
           e2 = (if skipped \<noteq> [] then setOrders level (skipped @ orders e1 level) e1 else e1)
         in if orders e2 level = []
            then matchLoop B o' (setTree opp (Delete_op B (tree e2 opp) level) e2)
                   skippedLevels remaining1
            else if o_HasSMPID o' \<and> allSameSMP e2 (orders e2 level) (o_SMPID o')
            then matchLoop B o' (setTree opp (Delete_op B (tree e2 opp) level) e2)
                   (skippedLevels @ [level]) remaining1
            else Some (e2, skippedLevels, remaining1)))"

declare matchLoop.simps [code]

section \<open>Resting, removing, replacing\<close>

definition insert_order :: "'t level_ops \<Rightarrow> 't Engine \<Rightarrow> Order \<Rightarrow> u64 \<Rightarrow> 't Engine" where
  "insert_order B e o' remaining = (let
     s = seq e + 1;
     a = orderNext e;
     ro = \<lparr>ro_orderID = o_OrderID o', ro_side = o_Side o', ro_price = o_Price o',
           ro_remaining = remaining, ro_seq = s, ro_smpID = o_SMPID o', ro_hasSMP = o_HasSMPID o'\<rparr>;
     e1 = e\<lparr>seq := s, orderHeap := (orderHeap e)(a := ro), orderNext := a + 1,
            index := (index e)(o_OrderID o' \<mapsto> a),
            seqByOrder := (seqByOrder e)(o_OrderID o' \<mapsto> s)\<rparr>;
     key = keyLevel e1 (o_Price o');
     t = tree e1 (o_Side o')
   in case Get_op B t key of
        Some level \<Rightarrow> setOrders level (orders e1 level @ [a]) e1
      | None \<Rightarrow> setTree (o_Side o') (ReplaceOrInsert_op B t key)
                 (setOrders key [a] (e1\<lparr>levelNext := levelNext e1 + 1\<rparr>)))"

text \<open>The scan of \<open>remove\<close>: it drops the first order of the level with the given id.\<close>

fun removeFirst :: "(addr \<Rightarrow> bool) \<Rightarrow> addr list \<Rightarrow> addr list" where
  "removeFirst P [] = []"
| "removeFirst P (x # xs) = (if P x then xs else x # removeFirst P xs)"

definition remove :: "'t level_ops \<Rightarrow> 't Engine \<Rightarrow> string \<Rightarrow> 't Engine" where
  "remove B e orderID = (case index e orderID of
     None \<Rightarrow> e
   | Some a \<Rightarrow> (let
       ro = orderHeap e a;
       t = tree e (ro_side ro);
       e1 = (case Get_op B t (keyLevel e (ro_price ro)) of
               None \<Rightarrow> e
             | Some level \<Rightarrow> (let
                 e' = setOrders level
                        (removeFirst (\<lambda>x. ro_orderID (orderHeap e x) = orderID) (orders e level)) e
               in if orders e' level = [] then setTree (ro_side ro) (Delete_op B t level) e' else e'))
     in e1\<lparr>index := (index e1)(orderID := None), evicted := evicted e1 @ [orderID]\<rparr>))"

definition orReplaceID :: "Order \<Rightarrow> string" where
  "orReplaceID o' = (if o_OrderID o' \<noteq> [] then o_OrderID o' else o_OrigOrderID o')"

text \<open>The in-place branch of \<open>replace\<close>: quantity reduced at the same price, id renamed.\<close>

definition replaceInPlace :: "'t Engine \<Rightarrow> Order \<Rightarrow> addr \<Rightarrow> 't Engine" where
  "replaceInPlace e o' a = (let
     ro = orderHeap e a;
     e1 = e\<lparr>orderHeap := (orderHeap e)(a := ro\<lparr>ro_remaining := o_Qty o'\<rparr>)\<rparr>
   in if o_OrderID o' \<noteq> [] \<and> o_OrderID o' \<noteq> ro_orderID ro
      then let
        oldID = ro_orderID ro;
        e2 = e1\<lparr>orderHeap := (orderHeap e1)(a := (orderHeap e1 a)\<lparr>ro_orderID := o_OrderID o'\<rparr>),
               index := (index e1)(oldID := None, o_OrderID o' \<mapsto> a)\<rparr>
      in (case seqByOrder e2 oldID of
            None \<Rightarrow> e2
          | Some s \<Rightarrow> e2\<lparr>seqByOrder := (seqByOrder e2)(o_OrderID o' \<mapsto> s, oldID := None)\<rparr>)
      else e1)"

definition replace :: "'t level_ops \<Rightarrow> 't Engine \<Rightarrow> Order \<Rightarrow> 't Engine" where
  "replace B e o' = (case index e (o_OrigOrderID o') of
     None \<Rightarrow> e
   | Some a \<Rightarrow> (let ro = orderHeap e a in
       if o_Price o' = ro_price ro \<and> o_Qty o' \<le> ro_remaining ro
       then replaceInPlace e o' a
       else let
         e1 = (if o_Price o' \<noteq> ro_price ro
               then e\<lparr>repriced := (repriced e)(orReplaceID o' \<mapsto> True)\<rparr> else e);
         e2 = remove B e1 (o_OrigOrderID o');
         repl = zeroOrder\<lparr>o_OrderID := orReplaceID o', o_Side := o_Side o', o_Price := o_Price o',
                  o_SMPID := ro_smpID ro, o_HasSMPID := ro_hasSMP ro\<rparr>
       in insert_order B e2 repl (o_Qty o')))"

definition matchAndRest :: "'t level_ops \<Rightarrow> 't Engine \<Rightarrow> Order \<Rightarrow> bool \<Rightarrow> 't Engine option" where
  "matchAndRest B e o' rest = do {
     (e1, skippedLevels, remaining) \<leftarrow> matchLoop B o' e [] (o_Qty o');
     let opp = oppositeSide (o_Side o');
     let e2 = setTree opp (foldl (ReplaceOrInsert_op B) (tree e1 opp) skippedLevels) e1;
     Some (if rest \<and> remaining > 0 \<and> o_Kind o' = NewLimit
           then insert_order B e2 o' remaining else e2)
   }"

definition Process :: "'t level_ops \<Rightarrow> 't Engine \<Rightarrow> Order \<Rightarrow> 't Engine option" where
  "Process B e o' = (case o_Kind o' of
     NewLimit \<Rightarrow> matchAndRest B e o' True
   | NewMarket \<Rightarrow> matchAndRest B e o' False
   | Cancel \<Rightarrow> Some (remove B e (o_OrigOrderID o'))
   | Replace \<Rightarrow> Some (replace B e o'))"

end
