(* ===== verification/Book_Spec.thy ===== *)
theory Book_Spec
  imports Book "HOL-Library.Sublist"
begin

text \<open>
  What the reference book promises, with no trees, pointers or maps: each side is the list
  of its resting orders in price-time priority, and an aggressor walks the opposite list
  once, trading with every maker it may trade with until its quantity is used up. The
  theory \<open>Book_Refine\<close> shows that the engine of \<open>Book\<close> implements this.

  The lemmas give the sense of the walk: quantities are conserved, nobody trades with the
  same self-match-prevention id or outside the limit, a maker is passed by only if it is not
  eligible, and what is left of an aggressor finds nobody it could still trade with.
\<close>

section \<open>The walk over the opposite side\<close>

definition eligible :: "Order \<Rightarrow> restingOrder \<Rightarrow> bool" where
  "eligible o' m \<longleftrightarrow>
     (o_Kind o' = NewLimit \<longrightarrow> crosses (o_Side o') (o_Price o') (ro_price m)) \<and> \<not> sameSMP o' m"

text \<open>
  \<open>sweep\<close> returns the executions (the maker as it was and the quantity), the quantity left
  and the makers that stay.
\<close>

fun sweep :: "Order \<Rightarrow> u64 \<Rightarrow> restingOrder list \<Rightarrow> (restingOrder \<times> u64) list \<times> u64 \<times> restingOrder list" where
  "sweep o' r [] = ([], r, [])"
| "sweep o' r (m # ms) =
     (if r = 0 \<or> \<not> eligible o' m
      then let (ex, r', ks) = sweep o' r ms in (ex, r', m # ks)
      else let q = min r (ro_remaining m);
               (ex, r', ks) = sweep o' (r - q) ms
           in ((m, q) # ex, r',
               if ro_remaining m - q = 0 then ks else m\<lparr>ro_remaining := ro_remaining m - q\<rparr> # ks))"

definition consumedIDs :: "(restingOrder \<times> u64) list \<Rightarrow> string list" where
  "consumedIDs ex = map (\<lambda>(m, q). ro_orderID m) (filter (\<lambda>(m, q). ro_remaining m - q = 0) ex)"

definition execFills :: "Order \<Rightarrow> (restingOrder \<times> u64) list \<Rightarrow> Fill list" where
  "execFills o' ex = concat (map (\<lambda>(m, q). mkFills o' (ro_price m) m q) ex)"

definition execTrades :: "Order \<Rightarrow> (restingOrder \<times> u64) list \<Rightarrow> Trade list" where
  "execTrades o' ex = map (\<lambda>(m, q). mkTrade o' (ro_price m) m q) ex"

section \<open>The abstract book\<close>

record ABook =
  a_orders :: "Side \<Rightarrow> restingOrder list"
  a_seq :: u64
  a_fills :: "Fill list"
  a_trades :: "Trade list"
  a_evicted :: "string list"

text \<open>\<open>better s p q\<close>: on side \<open>s\<close>, price \<open>p\<close> has priority over price \<open>q\<close>.\<close>

definition better :: "Side \<Rightarrow> i64 \<Rightarrow> i64 \<Rightarrow> bool" where
  "better s p q = (if s = Buy then p > q else p < q)"

definition rest_in :: "restingOrder \<Rightarrow> restingOrder list \<Rightarrow> restingOrder list" where
  "rest_in ro xs = filter (\<lambda>x. \<not> better (ro_side ro) (ro_price ro) (ro_price x)) xs @ [ro]
     @ filter (\<lambda>x. better (ro_side ro) (ro_price ro) (ro_price x)) xs"

definition a_insert :: "Order \<Rightarrow> u64 \<Rightarrow> ABook \<Rightarrow> ABook" where
  "a_insert o' q b = (let
     ro = \<lparr>ro_orderID = o_OrderID o', ro_side = o_Side o', ro_price = o_Price o', ro_remaining = q,
           ro_seq = a_seq b + 1, ro_smpID = o_SMPID o', ro_hasSMP = o_HasSMPID o'\<rparr>
   in b\<lparr>a_seq := a_seq b + 1,
        a_orders := (a_orders b)(o_Side o' := rest_in ro (a_orders b (o_Side o')))\<rparr>)"

definition a_match :: "Order \<Rightarrow> bool \<Rightarrow> ABook \<Rightarrow> ABook" where
  "a_match o' rest b = (let
     opp = oppositeSide (o_Side o');
     (ex, r, ks) = sweep o' (o_Qty o') (a_orders b opp);
     b1 = b\<lparr>a_orders := (a_orders b)(opp := ks), a_fills := a_fills b @ execFills o' ex,
            a_trades := a_trades b @ execTrades o' ex, a_evicted := a_evicted b @ consumedIDs ex\<rparr>
   in if rest \<and> r > 0 \<and> o_Kind o' = NewLimit then a_insert o' r b1 else b1)"

definition a_find :: "string \<Rightarrow> ABook \<Rightarrow> restingOrder option" where
  "a_find i b = find (\<lambda>ro. ro_orderID ro = i) (a_orders b Buy @ a_orders b Sell)"

definition a_remove :: "string \<Rightarrow> ABook \<Rightarrow> ABook" where
  "a_remove i b = (if a_find i b = None then b
     else b\<lparr>a_orders := (\<lambda>s. filter (\<lambda>ro. ro_orderID ro \<noteq> i) (a_orders b s)),
            a_evicted := a_evicted b @ [i]\<rparr>)"

definition a_replace :: "Order \<Rightarrow> ABook \<Rightarrow> ABook" where
  "a_replace o' b = (case a_find (o_OrigOrderID o') b of
     None \<Rightarrow> b
   | Some ro \<Rightarrow>
       if o_Price o' = ro_price ro \<and> o_Qty o' \<le> ro_remaining ro
       then b\<lparr>a_orders := (\<lambda>s. map (\<lambda>x. if ro_orderID x = o_OrigOrderID o'
                then x\<lparr>ro_remaining := o_Qty o', ro_orderID := orReplaceID o'\<rparr> else x) (a_orders b s))\<rparr>
       else a_insert (zeroOrder\<lparr>o_OrderID := orReplaceID o', o_Side := o_Side o',
              o_Price := o_Price o', o_SMPID := ro_smpID ro, o_HasSMPID := ro_hasSMP ro\<rparr>)
              (o_Qty o') (a_remove (o_OrigOrderID o') b))"

definition a_process :: "Order \<Rightarrow> ABook \<Rightarrow> ABook" where
  "a_process o' b = (case o_Kind o' of
     NewLimit \<Rightarrow> a_match o' True b
   | NewMarket \<Rightarrow> a_match o' False b
   | Cancel \<Rightarrow> a_remove (o_OrigOrderID o') b
   | Replace \<Rightarrow> a_replace o' b)"

section \<open>Lemmas on the walk\<close>

lemma sweep_0 [simp]: "sweep o' 0 ms = ([], 0, ms)"
  by (induction ms) auto

lemma sweep_none: "(\<And>m. m \<in> set ms \<Longrightarrow> \<not> eligible o' m) \<Longrightarrow> sweep o' r ms = ([], r, ms)"
  by (induction ms) auto

lemma sweep_append: "sweep o' r (xs @ ys) = (let (ex1, r1, ks1) = sweep o' r xs;
    (ex2, r2, ks2) = sweep o' r1 ys in (ex1 @ ex2, r2, ks1 @ ks2))"
  by (induction xs arbitrary: r) (auto simp: Let_def split: prod.splits)

text \<open>Conservation: what the aggressor lost is what was executed.\<close>

lemma sweep_conserve:
  "sweep o' r ms = (ex, r', ks) \<Longrightarrow> sum_list (map (unat \<circ> snd) ex) + unat r' = unat r"
proof (induction ms arbitrary: r ex ks)
  case (Cons m ms)
  show ?case
  proof (cases "r = 0 \<or> \<not> eligible o' m")
    case True
    with Cons show ?thesis by (auto split: prod.splits)
  next
    case False
    define q where "q = min r (ro_remaining m)"
    obtain ex1 ks1 where sw: "sweep o' (r - q) ms = (ex1, r', ks1)" "ex = (m, q) # ex1"
      using Cons.prems False by (auto simp: Let_def q_def split: prod.splits)
    moreover have "unat (r - q) = unat r - unat q" "unat q \<le> unat r"
      by (simp_all add: q_def word_min_sub unat_min)
    ultimately show ?thesis using Cons.IH [OF sw(1)] by simp
  qed
qed simp

lemma sweep_rest_ineligible:
  "sweep o' r ms = (ex, r', ks) \<Longrightarrow> r' \<noteq> 0 \<Longrightarrow> m \<in> set ks \<Longrightarrow> \<not> eligible o' m"
proof (induction ms arbitrary: r ex ks)
  case (Cons x ms)
  show ?case
  proof (cases "r = 0 \<or> \<not> eligible o' x")
    case True
    then show ?thesis using Cons by (cases "r = 0") (auto split: prod.splits)
  next
    case False
    define q where "q = min r (ro_remaining x)"
    obtain ex1 ks1 where sw: "sweep o' (r - q) ms = (ex1, r', ks1)"
      and ks: "ks = (if ro_remaining x - q = 0 then ks1 else x\<lparr>ro_remaining := ro_remaining x - q\<rparr> # ks1)"
      using Cons.prems(1) False by (auto simp: Let_def q_def split: prod.splits)
    have "ro_remaining x - q = 0"
    proof (rule ccontr)
      assume "ro_remaining x - q \<noteq> 0"
      then have "r - q = 0" by (auto simp: q_def min_def split: if_splits)
      with sw Cons.prems(2) show False by simp
    qed
    with ks Cons.IH [OF sw Cons.prems(2)] Cons.prems(3) show ?thesis by simp
  qed
qed simp

lemma sweep_execs:
  "sweep o' r ms = (ex, r', ks) \<Longrightarrow> (m, q) \<in> set ex \<Longrightarrow>
     m \<in> set ms \<and> eligible o' m \<and> q \<le> ro_remaining m \<and> (ro_remaining m \<noteq> 0 \<longrightarrow> q \<noteq> 0)"
proof (induction ms arbitrary: r ex ks)
  case (Cons x ms)
  show ?case
  proof (cases "r = 0 \<or> \<not> eligible o' x")
    case True
    with Cons show ?thesis by (auto split: prod.splits)
  next
    case False
    define q' where "q' = min r (ro_remaining x)"
    obtain ex1 ks1 where sw: "sweep o' (r - q') ms = (ex1, r', ks1)" "ex = (x, q') # ex1"
      using Cons.prems(1) False by (auto simp: Let_def q'_def split: prod.splits)
    then show ?thesis
      using Cons.prems(2) Cons.IH [OF sw(1)] False by (auto simp: q'_def min_def split: if_splits)
  qed
qed simp

text \<open>
  Priority: the executions are a prefix of the eligible makers, in order, and every one but
  the last takes all that the maker has.
\<close>

lemma sweep_prefix:
  "sweep o' r ms = (ex, r', ks) \<Longrightarrow> prefix (map fst ex) (filter (eligible o') ms)"
proof (induction ms arbitrary: r ex ks)
  case (Cons x ms)
  show ?case
  proof (cases "r = 0 \<or> \<not> eligible o' x")
    case True
    with Cons show ?thesis by (cases "r = 0") (auto split: prod.splits)
  next
    case False
    then show ?thesis using Cons by (auto simp: Let_def split: prod.splits)
  qed
qed simp

lemma sweep_butlast:
  "sweep o' r ms = (ex, r', ks) \<Longrightarrow> (m, q) \<in> set (butlast ex) \<Longrightarrow> q = ro_remaining m"
proof (induction ms arbitrary: r ex ks)
  case (Cons x ms)
  show ?case
  proof (cases "r = 0 \<or> \<not> eligible o' x")
    case True
    with Cons show ?thesis by (auto split: prod.splits)
  next
    case False
    define q' where "q' = min r (ro_remaining x)"
    obtain ex1 ks1 where sw: "sweep o' (r - q') ms = (ex1, r', ks1)" "ex = (x, q') # ex1"
      using Cons.prems(1) False by (auto simp: Let_def q'_def split: prod.splits)
    show ?thesis
    proof (cases "r - q' = 0")
      case True
      then have "ex1 = []" using sw by simp
      with Cons.prems(2) sw(2) show ?thesis by simp
    next
      case ne: False
      then have "q' = ro_remaining x" by (auto simp: q'_def min_def)
      then show ?thesis using Cons.prems(2) Cons.IH [OF sw(1)] sw(2) by (auto split: if_splits)
    qed
  qed
qed simp

end
