(* ===== verification/Book_Match.thy ===== *)
theory Book_Match
  imports Book_Spec
begin

text \<open>
  The matching loops of the engine compute the walk of \<open>Book_Spec\<close>. First the walk is carried
  to the store (\<open>sweepA\<close>, over addresses, with the order heap threaded through) and shown to
  agree with the walk over values; then the inner loop is shown to be that walk over one
  level, and the outer loop, under the laws of the price trees, the walk over the whole
  side. The outer loop therefore returns, whatever the book holds.
\<close>

section \<open>The walk over addresses\<close>

text \<open>The walk on the store: over the addresses of a side, with the heap of orders threaded.\<close>

fun sweepA :: "Order \<Rightarrow> (addr \<Rightarrow> restingOrder) \<Rightarrow> u64 \<Rightarrow> addr list \<Rightarrow>
    (restingOrder \<times> u64) list \<times> u64 \<times> addr list \<times> (addr \<Rightarrow> restingOrder)" where
  "sweepA o' H r [] = ([], r, [], H)"
| "sweepA o' H r (a # as) =
     (if r = 0 \<or> \<not> eligible o' (H a)
      then let (ex, r', ks, H') = sweepA o' H r as in (ex, r', a # ks, H')
      else let q = min_u64 r (ro_remaining (H a));
               (ex, r', ks, H') = sweepA o'
                 (H(a := (H a)\<lparr>ro_remaining := ro_remaining (H a) - q\<rparr>)) (r - q) as
           in ((H a, q) # ex, r', if ro_remaining (H a) - q = 0 then ks else a # ks, H'))"

definition applyExecs :: "Order \<Rightarrow> (restingOrder \<times> u64) list \<Rightarrow> 't Engine \<Rightarrow> 't Engine" where
  "applyExecs o' ex e = e\<lparr>fills := fills e @ execFills o' ex, trades := trades e @ execTrades o' ex,
     index := index e |` (- set (consumedIDs ex)), evicted := evicted e @ consumedIDs ex\<rparr>"

lemma consumedIDs_simps [simp]:
  "consumedIDs [] = []"
  "consumedIDs ((m, q) # ex) = (if ro_remaining m - q = 0 then ro_orderID m # consumedIDs ex else consumedIDs ex)"
  "consumedIDs (ex @ ex') = consumedIDs ex @ consumedIDs ex'"
  by (simp_all add: consumedIDs_def)

lemma execFills_simps [simp]:
  "execFills o' [] = []" "execFills o' ((m, q) # ex) = mkFills o' (ro_price m) m q @ execFills o' ex"
  "execFills o' (ex @ ex') = execFills o' ex @ execFills o' ex'"
  by (simp_all add: execFills_def)

lemma execTrades_simps [simp]:
  "execTrades o' [] = []" "execTrades o' ((m, q) # ex) = mkTrade o' (ro_price m) m q # execTrades o' ex"
  "execTrades o' (ex @ ex') = execTrades o' ex @ execTrades o' ex'"
  by (simp_all add: execTrades_def)

lemma subseq_set: "subseq xs ys \<Longrightarrow> set xs \<subseteq> set ys"
  by (metis notin_set_nthsI subseq_conv_nths subsetI)

lemma restrict_UNIV [simp]: "m |` UNIV = m"
  by (simp add: restrict_map_def)

lemma applyExecs_Nil [simp]: "applyExecs o' [] e = e"
  by (simp add: applyExecs_def)

lemma applyExecs_append: "applyExecs o' ex' (applyExecs o' ex e) = applyExecs o' (ex @ ex') e"
  by (simp add: applyExecs_def Int_commute)

lemma restrict_drop: "m(k := None) |` (- S) = m |` (- insert k S)"
  by (auto simp: restrict_map_def fun_eq_iff)

lemma sweepA_0 [simp]: "sweepA o' H 0 as = ([], 0, as, H)"
  by (induction as) auto

lemma sweepA_none: "(\<And>a. a \<in> set as \<Longrightarrow> \<not> eligible o' (H a)) \<Longrightarrow> sweepA o' H r as = ([], r, as, H)"
  by (induction as) auto

lemma sweepA_append: "sweepA o' H r (xs @ ys) = (let (ex1, r1, ks1, H1) = sweepA o' H r xs;
    (ex2, r2, ks2, H2) = sweepA o' H1 r1 ys in (ex1 @ ex2, r2, ks1 @ ks2, H2))"
  by (induction xs arbitrary: r H) (auto simp: Let_def split: prod.splits)

text \<open>What the walk keeps: the addresses are a subsequence, the orders keep all but their quantity.\<close>

lemma sweepA_frame:
  "sweepA o' H r as = (ex, r', ks, H') \<Longrightarrow>
     subseq ks as \<and> (\<forall>a. a \<notin> set as \<longrightarrow> H' a = H a) \<and> (\<forall>a. \<exists>q. H' a = (H a)\<lparr>ro_remaining := q\<rparr>)"
proof (induction as arbitrary: H r ex ks)
  case Nil
  have "\<forall>a. \<exists>q. H a = (H a)\<lparr>ro_remaining := q\<rparr>" by (metis restingOrder.surjective restingOrder.update_convs(4))
  with Nil show ?case by simp
next
  case (Cons a as)
  show ?case
  proof (cases "r = 0 \<or> \<not> eligible o' (H a)")
    case True
    then obtain ks1 where "sweepA o' H r as = (ex, r', ks1, H')" and ks: "ks = a # ks1"
      using Cons.prems by (auto split: prod.splits)
    from Cons.IH [OF this(1)] ks show ?thesis by simp
  next
    case False
    define q where "q = min_u64 r (ro_remaining (H a))"
    define H1 where "H1 = H(a := (H a)\<lparr>ro_remaining := ro_remaining (H a) - q\<rparr>)"
    obtain ex1 ks1 where sw: "sweepA o' H1 (r - q) as = (ex1, r', ks1, H')"
      and ks: "ks = (if ro_remaining (H a) - q = 0 then ks1 else a # ks1)"
      using Cons.prems False by (auto simp: Let_def q_def H1_def split: prod.splits)
    have "\<exists>q. H' b = (H b)\<lparr>ro_remaining := q\<rparr>" for b
    proof -
      obtain q' where "H' b = (H1 b)\<lparr>ro_remaining := q'\<rparr>" using Cons.IH [OF sw] by blast
      then have "H' b = (H b)\<lparr>ro_remaining := q'\<rparr>" by (simp add: H1_def)
      then show ?thesis by blast
    qed
    then show ?thesis using Cons.IH [OF sw] ks by (auto simp: H1_def)
  qed
qed

lemma sweepA_keeps:
  assumes "sweepA o' H r as = (ex, r', ks, H')"
  shows "ro_orderID (H' a) = ro_orderID (H a)" "ro_side (H' a) = ro_side (H a)"
    "ro_price (H' a) = ro_price (H a)" "ro_seq (H' a) = ro_seq (H a)"
proof -
  obtain q where "H' a = (H a)\<lparr>ro_remaining := q\<rparr>" using sweepA_frame [OF assms] by blast
  then show "ro_orderID (H' a) = ro_orderID (H a)" "ro_side (H' a) = ro_side (H a)"
    "ro_price (H' a) = ro_price (H a)" "ro_seq (H' a) = ro_seq (H a)" by simp_all
qed

lemma sweepA_sweep:
  "distinct as \<Longrightarrow> sweepA o' H r as = (ex, r', ks, H') \<Longrightarrow> sweep o' r (map H as) = (ex, r', map H' ks)"
proof (induction as arbitrary: H r ex ks)
  case (Cons a as)
  show ?case
  proof (cases "r = 0 \<or> \<not> eligible o' (H a)")
    case True
    then obtain ks1 where sw: "sweepA o' H r as = (ex, r', ks1, H')" and ks: "ks = a # ks1"
      using Cons.prems by (auto split: prod.splits)
    have "H' a = H a" using sweepA_frame [OF sw] Cons.prems(1) by simp
    with Cons.IH [OF _ sw] Cons.prems(1) True ks show ?thesis by simp
  next
    case False
    define q where "q = min_u64 r (ro_remaining (H a))"
    define H1 where "H1 = H(a := (H a)\<lparr>ro_remaining := ro_remaining (H a) - q\<rparr>)"
    obtain ex1 ks1 where sw: "sweepA o' H1 (r - q) as = (ex1, r', ks1, H')"
      and ks: "ks = (if ro_remaining (H a) - q = 0 then ks1 else a # ks1)" "ex = (H a, q) # ex1"
      using Cons.prems False by (auto simp: Let_def q_def H1_def split: prod.splits)
    have "H' a = H1 a" using sweepA_frame [OF sw] Cons.prems(1) by simp
    moreover have eq: "map H1 as = map H as" using Cons.prems(1) by (auto simp: H1_def)
    have "sweep o' (r - q) (map H as) = (ex1, r', map H' ks1)"
      unfolding eq [symmetric] by (rule Cons.IH [OF _ sw]) (use Cons.prems(1) in simp)
    ultimately show ?thesis
      using False ks by (simp add: Let_def H1_def flip: q_def min_u64_min)
  qed
qed simp

section \<open>The inner loop is the walk over one level\<close>

lemma tradeFront_consumed:
  assumes "ro_remaining (orderHeap e a) - min_u64 r (ro_remaining (orderHeap e a)) = 0"
    and "ro_price (orderHeap e a) = pl_price l"
  shows "tradeFront o' l a rest e r = setOrders l rest (applyExecs o'
    [(orderHeap e a, min_u64 r (ro_remaining (orderHeap e a)))] (e\<lparr>orderHeap := (orderHeap e)(a :=
      (orderHeap e a)\<lparr>ro_remaining := ro_remaining (orderHeap e a) - min_u64 r (ro_remaining (orderHeap e a))\<rparr>)\<rparr>))"
  using assms
  by (intro Engine.equality)
    (simp_all add: tradeFront_def Let_def setOrders_def applyExecs_def restrict_complement_singleton_eq)

lemma tradeFront_partial:
  assumes "ro_remaining (orderHeap e a) - min_u64 r (ro_remaining (orderHeap e a)) \<noteq> 0"
    and "ro_price (orderHeap e a) = pl_price l" "orders e l = a # rest"
  shows "tradeFront o' l a rest e r = setOrders l (a # rest) (applyExecs o'
    [(orderHeap e a, min_u64 r (ro_remaining (orderHeap e a)))] (e\<lparr>orderHeap := (orderHeap e)(a :=
      (orderHeap e a)\<lparr>ro_remaining := ro_remaining (orderHeap e a) - min_u64 r (ro_remaining (orderHeap e a))\<rparr>)\<rparr>))"
proof -
  have "(levelHeap e)(pl_ref l := a # rest) = levelHeap e"
    using assms(3) by (simp add: orders_def fun_upd_idem_iff)
  then show ?thesis
    using assms(1,2)
    by (intro Engine.equality) (simp_all add: tradeFront_def Let_def setOrders_def applyExecs_def)
qed

lemma setOrders_applyExecs: "setOrders l os (applyExecs o' ex e) = applyExecs o' ex (setOrders l os e)"
  by (simp add: setOrders_def applyExecs_def)

lemma setOrders_twice [simp]: "setOrders l os (setOrders l os' e) = setOrders l os e"
  by (simp add: setOrders_def)

lemma setOrders_same: "orders e l = os \<Longrightarrow> setOrders l os e = e"
  by (drule sym) (simp add: orders_def setOrders_def)

lemma setOrders_heap [simp]: "orderHeap (setOrders l os e) = orderHeap e"
  by (simp add: setOrders_def)

lemma applyExecs_heaps [simp]:
  "orderHeap (applyExecs o' ex e) = orderHeap e" "levelHeap (applyExecs o' ex e) = levelHeap e"
  "orders (applyExecs o' ex e) = orders e"
  by (simp_all add: applyExecs_def orders_def fun_eq_iff)


lemma eligible_cong: "eligible o' (m\<lparr>ro_remaining := q\<rparr>) = eligible o' m"
  by (simp add: eligible_def sameSMP_def)

definition restoreLevel :: "priceLevel \<Rightarrow> 't Engine \<times> addr list \<times> u64 \<Rightarrow> 't Engine \<times> u64" where
  "restoreLevel l x = (case x of (e, sk, r) \<Rightarrow> (setOrders l (sk @ orders e l) e, r))"

lemma setOrders_absorb:
  "setOrders l os (applyExecs o' ex ((setOrders l os' (applyExecs o' ex' e))\<lparr>orderHeap := H\<rparr>))
    = setOrders l os (applyExecs o' (ex' @ ex) (e\<lparr>orderHeap := H\<rparr>))"
  by (simp add: setOrders_def applyExecs_def Int_commute)

lemma matchLevel_0 [simp]: "matchLevel o' l e sk 0 = (e, sk, 0)"
  by (subst matchLevel.simps) (simp split: list.split)

lemma matchLevel_sweepA:
  assumes "\<And>a. a \<in> set (orders e l) \<Longrightarrow> ro_price (orderHeap e a) = pl_price l"
    and "o_Kind o' = NewLimit \<Longrightarrow> crosses (o_Side o') (o_Price o') (pl_price l)"
    and "sweepA o' (orderHeap e) r (orders e l) = (ex, r', ks, H')"
  shows "restoreLevel l (matchLevel o' l e sk r) =
      (setOrders l (sk @ ks) (applyExecs o' ex (e\<lparr>orderHeap := H'\<rparr>)), r')"
  using assms(1,3)
proof (induction "orders e l" arbitrary: e sk r ex ks)
  case Nil
  from Nil(1) [symmetric] Nil(3) show ?case
    by (auto simp: matchLevel.simps restoreLevel_def)
next
  case (Cons a as)
  let ?m = "orderHeap e a" and ?q = "min_u64 r (ro_remaining (orderHeap e a))"
  let ?H = "(orderHeap e)(a := ?m\<lparr>ro_remaining := ro_remaining ?m - ?q\<rparr>)"
  note ords = Cons.hyps(2) [symmetric]
  have price: "ro_price ?m = pl_price l" using Cons.prems(1) ords by simp
  consider "r = 0" | "r \<noteq> 0" "sameSMP o' ?m" | "r \<noteq> 0" "\<not> sameSMP o' ?m" "ro_remaining ?m - ?q = 0"
    | "r \<noteq> 0" "\<not> sameSMP o' ?m" "ro_remaining ?m - ?q \<noteq> 0" by blast
  then show ?case
  proof cases
    case 1
    then show ?thesis using Cons.prems(2) ords by (auto simp: restoreLevel_def)
  next
    case 2
    then obtain ks1 where sw: "sweepA o' (orderHeap e) r as = (ex, r', ks1, H')" and ks: "ks = a # ks1"
      using Cons.prems(2) ords by (auto simp: eligible_def split: prod.splits)
    have "restoreLevel l (matchLevel o' l (setOrders l as e) (sk @ [a]) r) =
        (setOrders l ((sk @ [a]) @ ks1) (applyExecs o' ex ((setOrders l as e)\<lparr>orderHeap := H'\<rparr>)), r')"
      using Cons.prems(1) ords sw by (intro Cons.hyps(1)) auto
    with 2 ords ks setOrders_absorb [where ex' = "[]"] show ?thesis
      by (subst matchLevel.simps) simp
  next
    case 3
    then have el: "eligible o' ?m" using assms(2) price by (auto simp: eligible_def)
    then obtain ex1 where sw: "sweepA o' ?H (r - ?q) as = (ex1, r', ks, H')" and ex: "ex = (?m, ?q) # ex1"
      using Cons.prems(2) ords 3 by (auto simp: Let_def split: prod.splits)
    let ?e = "tradeFront o' l a as e r"
    have e: "?e = setOrders l as (applyExecs o' [(?m, ?q)] (e\<lparr>orderHeap := ?H\<rparr>))"
      using 3 price by (intro tradeFront_consumed)
    have "restoreLevel l (matchLevel o' l ?e sk (r - ?q)) =
        (setOrders l (sk @ ks) (applyExecs o' ex1 (?e\<lparr>orderHeap := H'\<rparr>)), r')"
      using Cons.prems(1) ords sw price by (intro Cons.hyps(1)) (auto simp: e)
    with 3 ords ex show ?thesis
      by (subst matchLevel.simps) (simp add: e setOrders_absorb)
  next
    case 4
    then have el: "eligible o' ?m" using assms(2) price by (auto simp: eligible_def)
    have q: "?q = r" using 4(3) by (auto simp: min_u64_def split: if_splits)
    then have res: "ex = [(?m, ?q)]" "r' = 0" "ks = a # as" "H' = ?H"
      using Cons.prems(2) ords 4 el by (auto simp: Let_def)
    have e: "tradeFront o' l a as e r = setOrders l (a # as) (applyExecs o' [(?m, ?q)] (e\<lparr>orderHeap := ?H\<rparr>))"
      using 4 price ords by (intro tradeFront_partial)
    have "matchLevel o' l e sk r = (tradeFront o' l a as e r, sk, 0)"
      using 4 ords q by (subst matchLevel.simps) (simp add: matchLevel.simps e)
    then show ?thesis using res by (simp add: restoreLevel_def e)
  qed
qed


section \<open>The outer loop is the walk over the side\<close>

definition side_less :: "Side \<Rightarrow> priceLevel \<Rightarrow> priceLevel \<Rightarrow> bool" where
  "side_less s = (if s = Buy then bids_less else asks_less)"

lemma less_weak_side [simp]: "less_weak (side_less s)" "less_weak asks_less" "less_weak bids_less"
  by (auto simp: less_weak_def strict_weak_on_def side_less_def asks_less_def bids_less_def)

lemma side_less_better: "side_less s a b = better s (pl_price a) (pl_price b)"
  by (simp add: side_less_def better_def asks_less_def bids_less_def)

lemma not_crosses_mono:
  "\<not> crosses sd p x \<Longrightarrow> better (oppositeSide sd) x y \<Longrightarrow> \<not> crosses sd p y"
  by (auto simp: crosses_def better_def oppositeSide_def split: if_splits)

lemma tree_setTree [simp]: "tree (setTree s t e) s = t"
  by (simp add: tree_def setTree_def)

lemma setTree_tree [simp]: "setTree s (tree e s) e = e"
  by (simp add: tree_def setTree_def)

lemma setTree_twice [simp]: "setTree s t (setTree s t' e) = setTree s t e"
  by (simp add: setTree_def)

lemma setTree_heaps [simp]:
  "orderHeap (setTree s t e) = orderHeap e" "levelHeap (setTree s t e) = levelHeap e"
  "orders (setTree s t e) = orders e"
  by (simp_all add: setTree_def orders_def fun_eq_iff)

lemma tree_applyExecs [simp]: "tree (applyExecs o' ex e) = tree e"
  "tree (setOrders l os e) = tree e" "tree (e\<lparr>orderHeap := H\<rparr>) = tree e"
  "tree (e\<lparr>orderHeap := H, levelHeap := LH\<rparr>) = tree e"
  by (simp_all add: applyExecs_def tree_def setOrders_def fun_eq_iff)

lemma orders_upd [simp]: "orders (e\<lparr>orderHeap := H\<rparr>) = orders e"
  by (simp add: orders_def fun_eq_iff)

lemma orders_setOrders_other: "pl_ref l' \<noteq> pl_ref l \<Longrightarrow> orders (setOrders l os e) l' = orders e l'"
  by (simp add: orders_def setOrders_def)

lemma loop_absorb:
  "setTree s t (applyExecs o' ex2 ((setTree s t' (setOrders l os (applyExecs o' ex1 (e\<lparr>orderHeap := H1\<rparr>))))
      \<lparr>orderHeap := H2, levelHeap := LH\<rparr>))
    = setTree s t (applyExecs o' (ex1 @ ex2) (e\<lparr>orderHeap := H2, levelHeap := LH\<rparr>))"
  by (rule Engine.equality) (simp_all add: setTree_def setOrders_def applyExecs_def Int_commute)

lemma allSame_ineligible:
  assumes "o_HasSMPID o'" "allSameSMP e os (o_SMPID o')" "a \<in> set os"
  shows "\<not> eligible o' (orderHeap e a)"
  using assms by (auto simp: allSameSMP_def list_all_iff eligible_def sameSMP_def)

text \<open>A level left with a maker that is not of the aggressor's id: the aggressor is filled.\<close>

lemma level_exhausted:
  assumes "sweepA o' (orderHeap e) r (orders e l) = (ex, r', ks, H')" "distinct (orders e l)"
    and "\<And>a. a \<in> set (orders e l) \<Longrightarrow> ro_price (orderHeap e a) = pl_price l"
    and "o_Kind o' = NewLimit \<longrightarrow> crosses (o_Side o') (o_Price o') (pl_price l)"
    and "ks \<noteq> []" "\<not> (o_HasSMPID o' \<and> allSameSMP e2 ks (o_SMPID o'))" "orderHeap e2 = H'"
  shows "r' = 0"
proof (rule ccontr)
  assume "r' \<noteq> 0"
  moreover have "sweep o' r (map (orderHeap e) (orders e l)) = (ex, r', map H' ks)"
    using assms(1,2) by (intro sweepA_sweep)
  ultimately have "\<not> eligible o' (H' a)" if "a \<in> set ks" for a
    using sweep_rest_ineligible [of o' r _ ex r' "map H' ks" "H' a"] that by simp
  moreover have "ro_price (H' a) = pl_price l" if "a \<in> set ks" for a
    using that sweepA_keeps(3) [OF assms(1)] assms(3) [of a] sweepA_frame [OF assms(1)]
    by (auto dest!: subseq_set)
  ultimately have "sameSMP o' (H' a)" if "a \<in> set ks" for a
    using that assms(4) by (auto simp: eligible_def)
  then show False using assms(5-7)
    by (cases ks) (auto simp: allSameSMP_def sameSMP_def list_all_iff)
qed

locale book_btree = btree_laws B wf less_of items
  for B :: "(priceLevel, 't) btree_ops" and wf and less_of and items
begin

text \<open>What the loop establishes of its result; \<open>ls\<close> are the levels of the opposite side at the start.\<close>

definition loopPost where
  "loopPost o' e ls sk ex r' ks H' res \<longleftrightarrow> (\<exists>LH t' sk'.
     res = Some (setTree (oppositeSide (o_Side o')) t'
       (applyExecs o' ex (e\<lparr>orderHeap := H', levelHeap := LH\<rparr>)), sk @ sk', r') \<and>
     wf t' \<and> less_of t' = side_less (oppositeSide (o_Side o')) \<and>
     sk' @ items t' = filter (\<lambda>l. LH (pl_ref l) \<noteq> []) ls \<and>
     concat (map (\<lambda>l. LH (pl_ref l)) ls) = ks \<and>
     (\<forall>x. x \<notin> pl_ref ` set ls \<longrightarrow> LH x = levelHeap e x) \<and>
     (\<forall>l\<in>set ls. subseq (LH (pl_ref l)) (orders e l)))"

lemma matchLoop_step:
  assumes "r \<noteq> 0" "Min_op B (tree e opp) = Some l" "opp = oppositeSide (o_Side o')"
    and "o_Kind o' = NewLimit \<longrightarrow> crosses (o_Side o') (o_Price o') (pl_price l)"
    and "restoreLevel l (matchLevel o' l e [] r) = (e2, r1)"
  shows "matchLoop B o' e sk r =
    (if orders e2 l = [] then matchLoop B o' (setTree opp (Delete_op B (tree e2 opp) l) e2) sk r1
     else if o_HasSMPID o' \<and> allSameSMP e2 (orders e2 l) (o_SMPID o')
     then matchLoop B o' (setTree opp (Delete_op B (tree e2 opp) l) e2) (sk @ [l]) r1
     else Some (e2, sk, r1))"
proof -
  obtain e1 sk1 where ml: "matchLevel o' l e [] r = (e1, sk1, r1)"
    using assms(5) by (cases "matchLevel o' l e [] r") (auto simp: restoreLevel_def)
  have e2: "(if sk1 \<noteq> [] then setOrders l (sk1 @ orders e1 l) e1 else e1) = e2"
    using assms(5) ml by (auto simp: restoreLevel_def setOrders_same)
  have nc: "(o_Kind o' = NewLimit \<and> \<not> crosses (o_Side o') (o_Price o') (pl_price l)) = False"
    "(r = 0) = False" using assms(1,4) by blast+
  show ?thesis
    unfolding matchLoop.simps [of B o' e sk r]
    by (simp only: Let_def assms(3) [symmetric] assms(2) ml e2 nc if_False option.case prod.case)
qed

lemma loopPost_stop:
  assumes "wf (tree e opp)" "less_of (tree e opp) = side_less opp" "items (tree e opp) = ls"
    and "\<And>l. l \<in> set ls \<Longrightarrow> orders e l \<noteq> []" "opp = oppositeSide (o_Side o')"
  shows "loopPost o' e ls sk [] r (concat (map (orders e) ls)) (orderHeap e) (Some (e, sk, r))"
  unfolding loopPost_def
  by (rule exI [of _ "levelHeap e"], rule exI [of _ "tree e opp"], rule exI [of _ "[]"])
    (use assms in \<open>auto simp: orders_def [abs_def] filter_id_conv\<close>)

lemma loopPost_step:
  assumes "loopPost o' (setTree opp t1 (setOrders l ks1 (applyExecs o' ex1 (e\<lparr>orderHeap := H1\<rparr>))))
      ls (sk @ parked) ex2 r' ks2 H' res"
    and "parked = (if ks1 = [] then [] else [l])" "subseq ks1 (orders e l)"
    and "pl_ref l \<notin> pl_ref ` set ls" "opp = oppositeSide (o_Side o')"
  shows "loopPost o' e (l # ls) sk (ex1 @ ex2) r' (ks1 @ ks2) H' res"
proof -
  let ?e3 = "setTree opp t1 (setOrders l ks1 (applyExecs o' ex1 (e\<lparr>orderHeap := H1\<rparr>)))"
  from assms(1) obtain LH t' sk' where res:
    "res = Some (setTree opp t' (applyExecs o' ex2 (?e3\<lparr>orderHeap := H', levelHeap := LH\<rparr>)), (sk @ parked) @ sk', r')"
    and t': "wf t'" "less_of t' = side_less opp" "sk' @ items t' = filter (\<lambda>l. LH (pl_ref l) \<noteq> []) ls"
    and ks: "concat (map (\<lambda>l. LH (pl_ref l)) ls) = ks2"
    and LH: "\<And>x. x \<notin> pl_ref ` set ls \<Longrightarrow> LH x = levelHeap ?e3 x"
    and sub: "\<And>l'. l' \<in> set ls \<Longrightarrow> subseq (LH (pl_ref l')) (orders ?e3 l')"
    unfolding loopPost_def assms(5) by blast
  have l: "LH (pl_ref l) = ks1" using LH [OF assms(4)] by (simp add: setOrders_def)
  have other: "LH x = levelHeap e x" if "x \<notin> pl_ref ` set (l # ls)" for x
    using LH [of x] that by (simp add: setOrders_def)
  have sub': "subseq (LH (pl_ref l')) (orders e l')" if "l' \<in> set ls" for l'
  proof -
    have "pl_ref l' \<noteq> pl_ref l" using that assms(4) by (metis image_eqI)
    then show ?thesis using sub [OF that] by (simp add: orders_setOrders_other)
  qed
  show ?thesis
    unfolding loopPost_def assms(5) [symmetric]
    by (rule exI [of _ LH], rule exI [of _ t'], rule exI [of _ "parked @ sk'"])
      (use res t' ks l other sub' assms(2,3) in \<open>auto simp: loop_absorb\<close>)
qed

lemma loopPost_break:
  assumes "wf (tree e opp)" "less_of (tree e opp) = side_less opp" "items (tree e opp) = l # ls"
    and "\<And>l'. l' \<in> set (l # ls) \<Longrightarrow> orders e l' \<noteq> [] \<and> distinct (orders e l')"
    and "pl_ref l \<notin> pl_ref ` set ls" "subseq ks1 (orders e l)" "ks1 \<noteq> []" "opp = oppositeSide (o_Side o')"
  shows "loopPost o' e (l # ls) sk ex1 r' (ks1 @ concat (map (orders e) ls)) H1
    (Some (setOrders l ks1 (applyExecs o' ex1 (e\<lparr>orderHeap := H1\<rparr>)), sk, r'))"
proof -
  let ?LH = "(levelHeap e)(pl_ref l := ks1)"
  have ord: "?LH (pl_ref l') = orders e l'" if "l' \<in> set ls" for l'
    using that assms(5) by (auto simp: orders_def image_iff)
  have e2: "setOrders l ks1 (applyExecs o' ex1 (e\<lparr>orderHeap := H1\<rparr>)) =
      setTree opp (tree e opp) (applyExecs o' ex1 (e\<lparr>orderHeap := H1, levelHeap := ?LH\<rparr>))"
    by (rule Engine.equality) (simp_all add: setOrders_def applyExecs_def setTree_def tree_def)
  show ?thesis
    unfolding loopPost_def assms(8) [symmetric]
    by (rule exI [of _ ?LH], rule exI [of _ "tree e opp"], rule exI [of _ "[]"])
      (use assms ord in \<open>auto simp: e2 filter_id_conv cong: map_cong\<close>)
qed

lemma matchLoop_sweepA:
  assumes "wf (tree e opp)" "less_of (tree e opp) = side_less opp" "items (tree e opp) = ls"
    and "distinct (map pl_ref ls)"
    and "\<And>l. l \<in> set ls \<Longrightarrow> orders e l \<noteq> [] \<and> distinct (orders e l)"
    and "\<And>l a. l \<in> set ls \<Longrightarrow> a \<in> set (orders e l) \<Longrightarrow> ro_price (orderHeap e a) = pl_price l"
    and "sweepA o' (orderHeap e) r (concat (map (orders e) ls)) = (ex, r', ks, H')"
    and opp: "opp = oppositeSide (o_Side o')"
  shows "loopPost o' e ls sk ex r' ks H' (matchLoop B o' e sk r)"
  using assms(1-7)
proof (induction ls arbitrary: e sk r ex ks)
  case Nil
  then have "matchLoop B o' e sk r = Some (e, sk, r)"
    by (subst matchLoop.simps) (simp add: Min_items flip: opp)
  then show ?case using Nil loopPost_stop [of e opp "[]" o' sk r] opp by simp
next
  case (Cons l ls)
  have min: "Min_op B (tree e opp) = Some l" using Cons.prems(1,3) by (simp add: Min_items)
  consider "r = 0" | "r \<noteq> 0" "o_Kind o' = NewLimit" "\<not> crosses (o_Side o') (o_Price o') (pl_price l)"
    | "r \<noteq> 0" "o_Kind o' = NewLimit \<longrightarrow> crosses (o_Side o') (o_Price o') (pl_price l)" by blast
  then show ?case
  proof cases
    case 1
    then have "matchLoop B o' e sk r = Some (e, sk, r)" by (subst matchLoop.simps) simp
    then show ?thesis using Cons.prems 1 loopPost_stop [of e opp "l # ls" o' sk r] opp by auto
  next
    case 2
    then have ml: "matchLoop B o' e sk r = Some (e, sk, r)"
      by (subst matchLoop.simps) (simp add: min flip: opp)
    have "\<not> crosses (o_Side o') (o_Price o') (pl_price l')" if "l' \<in> set (l # ls)" for l'
      using that items_sorted [OF Cons.prems(1)] Cons.prems(2,3) 2(3) not_crosses_mono [OF 2(3)] opp
      by (auto simp: side_less_better)
    then have "\<not> eligible o' (orderHeap e a)" if "l' \<in> set (l # ls)" "a \<in> set (orders e l')" for a l'
      using that Cons.prems(6) [OF that] 2(2) unfolding eligible_def by metis
    then have "\<not> eligible o' (orderHeap e a)" if "a \<in> set (concat (map (orders e) (l # ls)))" for a
      using that by auto
    then have "sweepA o' (orderHeap e) r (concat (map (orders e) (l # ls)))
        = ([], r, concat (map (orders e) (l # ls)), orderHeap e)" by (rule sweepA_none)
    then show ?thesis using Cons.prems ml loopPost_stop [of e opp "l # ls" o' sk r] opp by auto
  next
    case 3
    obtain ex1 r1 ks1 H1 where sw1: "sweepA o' (orderHeap e) r (orders e l) = (ex1, r1, ks1, H1)"
      by (metis prod_cases4)
    obtain ex2 ks2 where sw2: "sweepA o' H1 r1 (concat (map (orders e) ls)) = (ex2, r', ks2, H')"
      and app: "ex = ex1 @ ex2" "ks = ks1 @ ks2"
      using Cons.prems(7) sw1 by (auto simp: sweepA_append Let_def split: prod.splits)
    define e2 where "e2 = setOrders l ks1 (applyExecs o' ex1 (e\<lparr>orderHeap := H1\<rparr>))"
    define stay where "stay \<longleftrightarrow> ks1 = [] \<or> o_HasSMPID o' \<and> allSameSMP e2 ks1 (o_SMPID o')"
    define parked where "parked = (if ks1 = [] then [] else [l])"
    let ?e3 = "setTree opp (Delete_op B (tree e opp) l) e2"
    have res: "restoreLevel l (matchLevel o' l e [] r) = (e2, r1)"
      using matchLevel_sweepA [OF _ _ sw1, of "[]"] Cons.prems(6) 3(2) by (simp add: e2_def)
    have unfold: "matchLoop B o' e sk r =
        (if stay then matchLoop B o' ?e3 (sk @ parked) r1 else Some (e2, sk, r1))"
    proof -
      have "orders e2 l = ks1" "tree e2 opp = tree e opp" by (simp_all add: e2_def)
      then show ?thesis
        using matchLoop_step [OF 3(1) min opp 3(2) res, of sk] by (simp only: stay_def parked_def) auto
    qed
    note ref = Cons.prems(4) [simplified]
    have sub: "subseq ks1 (orders e l)" using sweepA_frame [OF sw1] by simp
    have price: "ro_price (H1 a) = ro_price (orderHeap e a)" for a
      using sweepA_keeps(3) [OF sw1] .
    show ?thesis
    proof (cases stay)
      case True
      have ord: "orders ?e3 l' = orders e l'" if "l' \<in> set ls" for l'
        using that ref by (simp add: e2_def orders_setOrders_other image_iff) (metis orders_setOrders_other orders_upd applyExecs_heaps(3))
      have map_ord: "map (orders ?e3) ls = map (orders e) ls" using ord by simp
      have sw3: "sweepA o' (orderHeap ?e3) r1 (concat (map (orders ?e3) ls)) = (ex2, r', ks2, H')"
        unfolding map_ord using sw2 by (simp add: e2_def)
      have "loopPost o' ?e3 ls (sk @ parked) ex2 r' ks2 H' (matchLoop B o' ?e3 (sk @ parked) r1)"
        using Cons.prems(1-6) ref ord
        by (intro Cons.IH [OF _ _ _ _ _ _ sw3]) (simp_all add: Delete_wf Delete_less Delete_min e2_def price)
      then show ?thesis
        unfolding app unfold using True ref sub opp
        by (simp add: loopPost_step [where parked = parked and l = l] e2_def parked_def)
    next
      case False
      have ne: "ks1 \<noteq> []" using False by (simp add: stay_def)
      have "r1 = 0"
        using Cons.prems(5,6) 3(2) False ne
        by (intro level_exhausted [OF sw1]) (auto simp: stay_def e2_def)
      then have "ex2 = []" "r' = 0" "ks2 = concat (map (orders e) ls)" "H' = H1" using sw2 by auto
      moreover have "loopPost o' e (l # ls) sk ex1 0 (ks1 @ concat (map (orders e) ls)) H1 (Some (e2, sk, 0))"
        unfolding e2_def by (rule loopPost_break [OF Cons.prems(1-3,5) _ sub ne opp]) (use ref in auto)
      ultimately show ?thesis unfolding app unfold using False \<open>r1 = 0\<close> by simp
    qed
  qed
qed

end

end
