(* ===== verification/Book_Store.thy ===== *)
theory Book_Store
  imports Book_Match
begin

text \<open>
  The invariant of the engine's store and its abstraction to the book of \<open>Book_Spec\<close>. It says
  that the levels of a side are strictly ordered by price and never empty, that a level
  holds orders of its own side and price in the order they arrived, and that the index maps
  exactly the ids of the resting orders to their addresses. Matching keeps it, and so does
  putting a new order at the end of the level of its price.
\<close>

section \<open>The invariant of the store\<close>

text \<open>
  \<open>L s\<close> are the levels of side \<open>s\<close>. An order's address is also its arrival rank, so the
  addresses of a level ascend: the front is the oldest.
\<close>

definition level_ok :: "'t Engine \<Rightarrow> Side \<Rightarrow> priceLevel \<Rightarrow> bool" where
  "level_ok e s l \<longleftrightarrow> pl_ref l < levelNext e \<and> orders e l \<noteq> [] \<and> sorted_wrt (<) (orders e l) \<and>
     (\<forall>a\<in>set (orders e l). a < orderNext e \<and> ro_side (orderHeap e a) = s \<and>
        ro_price (orderHeap e a) = pl_price l \<and> ro_seq (orderHeap e a) = of_nat a + 1)"

definition addrs :: "(Side \<Rightarrow> priceLevel list) \<Rightarrow> 't Engine \<Rightarrow> Side \<Rightarrow> addr list" where
  "addrs L e s = concat (map (orders e) (L s))"

definition index_ok :: "(Side \<Rightarrow> priceLevel list) \<Rightarrow> 't Engine \<Rightarrow> bool" where
  "index_ok L e \<longleftrightarrow> (\<forall>i a. index e i = Some a \<longleftrightarrow>
     (\<exists>s. a \<in> set (addrs L e s)) \<and> ro_orderID (orderHeap e a) = i)"

definition refs_ok :: "(Side \<Rightarrow> priceLevel list) \<Rightarrow> bool" where
  "refs_ok L \<longleftrightarrow> (\<forall>s. distinct (map pl_ref (L s))) \<and>
     pl_ref ` set (L Buy) \<inter> pl_ref ` set (L Sell) = {}"

definition store_inv :: "(Side \<Rightarrow> priceLevel list) \<Rightarrow> 't Engine \<Rightarrow> bool" where
  "store_inv L e \<longleftrightarrow> refs_ok L \<and> (\<forall>s. sorted_wrt (side_less s) (L s)) \<and>
     (\<forall>s. \<forall>l\<in>set (L s). level_ok e s l) \<and> index_ok L e \<and> seq e = of_nat (orderNext e)"

text \<open>The abstraction: a side of the book is the list of its orders in priority.\<close>

definition absE :: "(Side \<Rightarrow> priceLevel list) \<Rightarrow> 't Engine \<Rightarrow> ABook" where
  "absE L e = \<lparr>a_orders = (\<lambda>s. map (orderHeap e) (addrs L e s)), a_seq = seq e, a_fills = fills e,
     a_trades = trades e, a_evicted = evicted e\<rparr>"

lemma store_invD:
  assumes "store_inv L e"
  shows "refs_ok L" "sorted_wrt (side_less s) (L s)" "l \<in> set (L s) \<Longrightarrow> level_ok e s l"
    "index_ok L e" "seq e = of_nat (orderNext e)"
  using assms by (auto simp: store_inv_def)

lemma level_okD:
  assumes "level_ok e s l"
  shows "pl_ref l < levelNext e" "orders e l \<noteq> []" "sorted_wrt (<) (orders e l)" "distinct (orders e l)"
    "a \<in> set (orders e l) \<Longrightarrow> a < orderNext e" "a \<in> set (orders e l) \<Longrightarrow> ro_side (orderHeap e a) = s"
    "a \<in> set (orders e l) \<Longrightarrow> ro_price (orderHeap e a) = pl_price l"
    "a \<in> set (orders e l) \<Longrightarrow> ro_seq (orderHeap e a) = of_nat a + 1"
proof -
  show "distinct (orders e l)" using assms by (simp add: level_ok_def strict_sorted_iff)
qed (use assms in \<open>simp_all add: level_ok_def\<close>)

lemma side_less_irrefl [simp]: "\<not> side_less s l l"
  by (simp add: side_less_better better_def)

lemma better_irrefl [simp]: "\<not> better s p p"
  by (simp add: better_def)

lemma better_total: "p \<noteq> q \<Longrightarrow> better s p q \<or> better s q p"
  by (auto simp: better_def)

lemma better_asym: "better s p q \<Longrightarrow> \<not> better s q p"
  by (auto simp: better_def split: if_splits)

lemma better_trans: "better s p q \<Longrightarrow> better s q r \<Longrightarrow> better s p r"
  by (auto simp: better_def split: if_splits)

lemma mem_addrs: "a \<in> set (addrs L e s) \<longleftrightarrow> (\<exists>l\<in>set (L s). a \<in> set (orders e l))"
  by (auto simp: addrs_def)

lemma addrs_side:
  assumes "store_inv L e" "a \<in> set (addrs L e s)"
  shows "ro_side (orderHeap e a) = s" "a < orderNext e" "ro_seq (orderHeap e a) = of_nat a + 1"
proof -
  obtain l where l: "level_ok e s l" "a \<in> set (orders e l)"
    using assms(2) store_invD(3) [OF assms(1)] by (auto simp: mem_addrs)
  then show "ro_side (orderHeap e a) = s" "a < orderNext e" "ro_seq (orderHeap e a) = of_nat a + 1"
    by (simp_all add: level_okD)
qed

lemma distinct_concat_levels:
  assumes "sorted_wrt (side_less s) ls" "\<And>l. l \<in> set ls \<Longrightarrow> level_ok e s l"
  shows "distinct (concat (map (orders e) ls))"
  using assms
proof (induction ls)
  case (Cons l ls)
  have "a \<notin> set (concat (map (orders e) ls))" if "a \<in> set (orders e l)" for a
  proof
    assume "a \<in> set (concat (map (orders e) ls))"
    then obtain l' where l': "l' \<in> set ls" "a \<in> set (orders e l')" by auto
    then have "pl_price l' = pl_price l"
      using that Cons.prems(2) level_okD(7) by (metis list.set_intros)
    with l'(1) Cons.prems(1) show False by (auto simp: side_less_better)
  qed
  moreover have "distinct (orders e l)" using Cons.prems(2) level_okD(4) by auto
  moreover have "distinct (concat (map (orders e) ls))" using Cons by simp
  ultimately show ?case by auto
qed simp

lemma distinct_addrs: "store_inv L e \<Longrightarrow> distinct (addrs L e s)"
  unfolding addrs_def by (rule distinct_concat_levels [OF store_invD(2) store_invD(3)])

lemma index_mem: "store_inv L e \<Longrightarrow>
    index e i = Some a \<longleftrightarrow> (\<exists>s. a \<in> set (addrs L e s)) \<and> ro_orderID (orderHeap e a) = i"
  by (drule store_invD(4)) (simp add: index_ok_def)

lemma index_SomeD:
  assumes "store_inv L e" "index e i = Some a"
  shows "a \<in> set (addrs L e (ro_side (orderHeap e a)))" "ro_orderID (orderHeap e a) = i"
proof -
  obtain s where "a \<in> set (addrs L e s)" using assms by (auto simp: index_mem)
  with addrs_side(1) [OF assms(1) this] show "a \<in> set (addrs L e (ro_side (orderHeap e a)))" by simp
qed (use assms in \<open>simp add: index_mem\<close>)

lemma index_addrs: "store_inv L e \<Longrightarrow> a \<in> set (addrs L e s) \<Longrightarrow> index e (ro_orderID (orderHeap e a)) = Some a"
  by (auto simp: index_mem)

lemma id_inj:
  assumes "store_inv L e" "a \<in> set (addrs L e s)" "b \<in> set (addrs L e s')"
    and "ro_orderID (orderHeap e a) = ro_orderID (orderHeap e b)"
  shows "a = b"
proof -
  have "index e (ro_orderID (orderHeap e b)) = Some a"
    using index_addrs [OF assms(1,2)] unfolding assms(4) .
  then show ?thesis using index_addrs [OF assms(1,3)] by simp
qed

lemma find_unique:
  assumes "a \<in> set xs" "P a" "\<And>b. b \<in> set xs \<Longrightarrow> P b \<Longrightarrow> b = a"
  shows "find P xs = Some a"
proof (cases "find P xs")
  case None
  then show ?thesis using assms(1,2) by (auto simp: find_None_iff)
next
  case (Some b)
  then have "b \<in> set xs" "P b" by (auto simp: find_Some_iff)
  from assms(3) [OF this] Some show ?thesis by simp
qed

lemma find_map_list: "find P (map f xs) = map_option f (find (P \<circ> f) xs)"
  by (induction xs) auto

text \<open>The index finds what a scan of the two sides finds.\<close>

lemma a_find_absE:
  assumes "store_inv L e"
  shows "a_find i (absE L e) = map_option (orderHeap e) (index e i)"
proof (cases "index e i")
  case None
  then have "ro_orderID (orderHeap e a) \<noteq> i" if "a \<in> set (addrs L e s)" for a s
    using that index_addrs [OF assms that] by auto
  then show ?thesis using None by (auto simp: a_find_def absE_def find_None_iff)
next
  case (Some a)
  then have a: "a \<in> set (addrs L e (ro_side (orderHeap e a)))" "ro_orderID (orderHeap e a) = i"
    using index_SomeD [OF assms] by blast+
  let ?xs = "addrs L e Buy @ addrs L e Sell"
  have "a \<in> set ?xs" using a(1) by (cases "ro_side (orderHeap e a)") auto
  moreover have "b = a" if "b \<in> set ?xs" "ro_orderID (orderHeap e b) = i" for b
    using that id_inj [OF assms _ a(1)] a(2) by auto
  ultimately have "find (\<lambda>b. ro_orderID (orderHeap e b) = i) ?xs = Some a"
    using a(2) by (intro find_unique) blast+
  then have "find (\<lambda>ro. ro_orderID ro = i) (map (orderHeap e) ?xs) = Some (orderHeap e a)"
    by (simp only: find_map_list o_def option.map)
  then show ?thesis using Some by (simp add: a_find_def absE_def)
qed

section \<open>Matching on the store\<close>

lemma sweepA_consumed:
  "distinct as \<Longrightarrow> sweepA o' H r as = (ex, r', ks, H') \<Longrightarrow>
     consumedIDs ex = map (ro_orderID \<circ> H) (filter (\<lambda>a. a \<notin> set ks) as)"
proof (induction as arbitrary: H r ex ks)
  case (Cons a as)
  show ?case
  proof (cases "r = 0 \<or> \<not> eligible o' (H a)")
    case True
    then obtain ks1 where sw: "sweepA o' H r as = (ex, r', ks1, H')" and ks: "ks = a # ks1"
      using Cons.prems by (auto split: prod.splits)
    have "filter (\<lambda>b. b \<notin> set ks) (a # as) = filter (\<lambda>b. b \<notin> set ks1) as"
      using Cons.prems(1) ks by (auto intro: filter_cong)
    then show ?thesis using Cons.IH [OF _ sw] Cons.prems(1) by simp
  next
    case False
    define q where "q = min_u64 r (ro_remaining (H a))"
    define H1 where "H1 = H(a := (H a)\<lparr>ro_remaining := ro_remaining (H a) - q\<rparr>)"
    obtain ex1 ks1 where sw: "sweepA o' H1 (r - q) as = (ex1, r', ks1, H')"
      and ks: "ks = (if ro_remaining (H a) - q = 0 then ks1 else a # ks1)" "ex = (H a, q) # ex1"
      using Cons.prems False by (auto simp: Let_def q_def H1_def split: prod.splits)
    have IH: "consumedIDs ex1 = map (ro_orderID \<circ> H) (filter (\<lambda>b. b \<notin> set ks1) as)"
    proof -
      have "ro_orderID (H1 b) = ro_orderID (H b)" for b by (simp add: H1_def)
      then show ?thesis using Cons.IH [OF _ sw] Cons.prems(1) by simp
    qed
    have "a \<notin> set ks1" using sweepA_frame [OF sw] Cons.prems(1) by (auto dest!: subseq_set)
    moreover have "filter (\<lambda>b. b \<notin> set (a # ks1)) as = filter (\<lambda>b. b \<notin> set ks1) as"
      using Cons.prems(1) by (auto intro: filter_cong)
    ultimately show ?thesis using ks IH by simp
  qed
qed simp

lemma sorted_wrt_subseq: "subseq xs ys \<Longrightarrow> sorted_wrt P ys \<Longrightarrow> sorted_wrt P xs"
  by (induction rule: list_emb.induct) (auto dest!: subseq_set)

lemma store_inv_setTree [simp]: "store_inv L (setTree s t e) = store_inv L e"
  by (simp add: store_inv_def level_ok_def index_ok_def addrs_def setTree_def orders_def)

lemma addrs_setTree [simp]: "addrs L (setTree s t e) = addrs L e"
  by (simp add: addrs_def fun_eq_iff)

lemma absE_setTree [simp]: "absE L (setTree s t e) = absE L e"
  by (simp add: absE_def) (simp add: setTree_def)

text \<open>\<open>matched\<close>: the heaps and the levels of the opposite side are those the walk leaves.\<close>

definition matched :: "(Side \<Rightarrow> priceLevel list) \<Rightarrow> 't Engine \<Rightarrow> Order \<Rightarrow> Side \<Rightarrow> (restingOrder \<times> u64) list \<Rightarrow>
    u64 \<Rightarrow> addr list \<Rightarrow> (addr \<Rightarrow> restingOrder) \<Rightarrow> (addr \<Rightarrow> addr list) \<Rightarrow> bool" where
  "matched L e o' opp ex r' ks H' LH \<longleftrightarrow>
     sweepA o' (orderHeap e) (o_Qty o') (addrs L e opp) = (ex, r', ks, H') \<and>
     concat (map (\<lambda>l. LH (pl_ref l)) (L opp)) = ks \<and>
     (\<forall>x. x \<notin> pl_ref ` set (L opp) \<longrightarrow> LH x = levelHeap e x) \<and>
     (\<forall>l\<in>set (L opp). subseq (LH (pl_ref l)) (orders e l))"

definition liveLevels :: "(addr \<Rightarrow> addr list) \<Rightarrow> Side \<Rightarrow> (Side \<Rightarrow> priceLevel list) \<Rightarrow> Side \<Rightarrow> priceLevel list" where
  "liveLevels LH opp L = L(opp := filter (\<lambda>l. LH (pl_ref l) \<noteq> []) (L opp))"

lemma concat_filter_nonempty: "concat (map f (filter (\<lambda>x. f x \<noteq> []) xs)) = concat (map f xs)"
  by (induction xs) auto

lemma orders_matched [simp]: "orders (e\<lparr>orderHeap := H', levelHeap := LH\<rparr>) = (\<lambda>l. LH (pl_ref l))"
  by (simp add: orders_def fun_eq_iff)

lemma refs_ok_disjoint:
  "refs_ok L \<Longrightarrow> s \<noteq> s' \<Longrightarrow> l \<in> set (L s) \<Longrightarrow> pl_ref l \<notin> pl_ref ` set (L s')"
  unfolding refs_ok_def by (cases s; cases s') auto

lemma addrs_matched:
  assumes "matched L e o' opp ex r' ks H' LH" "refs_ok L"
  shows "addrs (liveLevels LH opp L) (applyExecs o' ex (e\<lparr>orderHeap := H', levelHeap := LH\<rparr>)) s
    = (if s = opp then ks else addrs L e s)"
proof (cases "s = opp")
  case True
  then show ?thesis
    using assms(1) by (simp add: addrs_def liveLevels_def concat_filter_nonempty matched_def)
next
  case False
  have "LH (pl_ref l) = orders e l" if "l \<in> set (L s)" for l
    using assms(1) refs_ok_disjoint [OF assms(2) False that] by (simp add: matched_def orders_def)
  then show ?thesis using False by (simp add: addrs_def liveLevels_def cong: map_cong)
qed

lemma level_ok_matched:
  assumes "matched L e o' opp ex r' ks H' LH" "store_inv L e" "l \<in> set (liveLevels LH opp L s)"
  shows "level_ok (applyExecs o' ex (e\<lparr>orderHeap := H', levelHeap := LH\<rparr>)) s l"
proof -
  have l: "l \<in> set (L s)" using assms(3) by (auto simp: liveLevels_def split: if_splits)
  have sw: "sweepA o' (orderHeap e) (o_Qty o') (addrs L e opp) = (ex, r', ks, H')"
    using assms(1) by (simp add: matched_def)
  note ok = store_invD(3) [OF assms(2) l]
  have "subseq (LH (pl_ref l)) (orders e l) \<and> LH (pl_ref l) \<noteq> []"
  proof (cases "s = opp")
    case True
    then show ?thesis using assms(1,3) l by (auto simp: matched_def liveLevels_def)
  next
    case False
    then show ?thesis
      using assms(1) refs_ok_disjoint [OF store_invD(1) [OF assms(2)] False l] level_okD(2) [OF ok]
      by (simp add: matched_def orders_def)
  qed
  then have "sorted_wrt (<) (LH (pl_ref l))" "set (LH (pl_ref l)) \<subseteq> set (orders e l)" "LH (pl_ref l) \<noteq> []"
    using sorted_wrt_subseq [OF _ level_okD(3) [OF ok]] subseq_set by blast+
  then show ?thesis
    using ok by (auto simp: level_ok_def sweepA_keeps [OF sw]) (auto simp: applyExecs_def)
qed

lemma index_matched:
  assumes "matched L e o' opp ex r' ks H' LH" "store_inv L e"
  shows "index_ok (liveLevels LH opp L) (applyExecs o' ex (e\<lparr>orderHeap := H', levelHeap := LH\<rparr>))"
proof -
  have sw: "sweepA o' (orderHeap e) (o_Qty o') (addrs L e opp) = (ex, r', ks, H')"
    using assms(1) by (simp add: matched_def)
  note cons = sweepA_consumed [OF distinct_addrs [OF assms(2)] sw]
  have ks: "set ks \<subseteq> set (addrs L e opp)" using sweepA_frame [OF sw] by (auto dest!: subseq_set)
  define K where "K s = (if s = opp then ks else addrs L e s)" for s
  have keep: "ro_orderID (orderHeap e a) \<notin> set (consumedIDs ex) \<longleftrightarrow> a \<in> set (K s)"
    if a: "a \<in> set (addrs L e s)" for a s
  proof (cases "s = opp")
    case True
    have "a = b" if "b \<in> set (addrs L e opp)" "ro_orderID (orderHeap e a) = ro_orderID (orderHeap e b)" for b
      using id_inj [OF assms(2) a that(1)] that(2) by simp
    with a True show ?thesis unfolding cons K_def by auto
  next
    case False
    have "ro_orderID (orderHeap e a) \<noteq> ro_orderID (orderHeap e b)" if "b \<in> set (addrs L e opp)" for b
      using id_inj [OF assms(2) a that] addrs_side(1) [OF assms(2) a] addrs_side(1) [OF assms(2) that] False
      by auto
    with a False show ?thesis unfolding cons K_def by auto
  qed
  have sub: "a \<in> set (addrs L e s)" if "a \<in> set (K s)" for a s
    using that ks by (auto simp: K_def split: if_splits)
  show ?thesis
    unfolding index_ok_def addrs_matched [OF assms(1) store_invD(1) [OF assms(2)]] K_def [symmetric]
  proof (intro allI)
    fix i a
    have ix: "index (applyExecs o' ex (e\<lparr>orderHeap := H', levelHeap := LH\<rparr>)) i = Some a
        \<longleftrightarrow> i \<notin> set (consumedIDs ex) \<and> index e i = Some a"
      by (simp add: applyExecs_def restrict_map_def)
    show "index (applyExecs o' ex (e\<lparr>orderHeap := H', levelHeap := LH\<rparr>)) i = Some a \<longleftrightarrow>
        (\<exists>s. a \<in> set (K s)) \<and>
        ro_orderID (orderHeap (applyExecs o' ex (e\<lparr>orderHeap := H', levelHeap := LH\<rparr>)) a) = i"
      unfolding ix index_mem [OF assms(2)] applyExecs_heaps Engine.select_convs Engine.update_convs
      using keep sub sweepA_keeps(1) [OF sw] by simp blast
  qed
qed

lemma store_inv_matched:
  assumes "matched L e o' opp ex r' ks H' LH" "store_inv L e"
  shows "store_inv (liveLevels LH opp L) (applyExecs o' ex (e\<lparr>orderHeap := H', levelHeap := LH\<rparr>))"
proof -
  have "refs_ok (liveLevels LH opp L)"
    using store_invD(1) [OF assms(2)] unfolding refs_ok_def liveLevels_def
    by (cases opp) (auto simp: distinct_map_filter)
  moreover have "sorted_wrt (side_less s) (liveLevels LH opp L s)" for s
    using store_invD(2) [OF assms(2)] by (simp add: liveLevels_def sorted_wrt_filter)
  ultimately show ?thesis
    using level_ok_matched [OF assms] index_matched [OF assms] store_invD(5) [OF assms(2)]
    unfolding store_inv_def by (simp add: applyExecs_def)
qed

definition a_sweep :: "Order \<Rightarrow> ABook \<Rightarrow> ABook" where
  "a_sweep o' b = (let opp = oppositeSide (o_Side o'); (ex, r, ks) = sweep o' (o_Qty o') (a_orders b opp)
     in b\<lparr>a_orders := (a_orders b)(opp := ks), a_fills := a_fills b @ execFills o' ex,
          a_trades := a_trades b @ execTrades o' ex, a_evicted := a_evicted b @ consumedIDs ex\<rparr>)"

lemma absE_matched:
  assumes "matched L e o' opp ex r' ks H' LH" "store_inv L e" "opp = oppositeSide (o_Side o')"
  shows "absE (liveLevels LH opp L) (applyExecs o' ex (e\<lparr>orderHeap := H', levelHeap := LH\<rparr>))
    = a_sweep o' (absE L e)" "sweep o' (o_Qty o') (a_orders (absE L e) opp) = (ex, r', map H' ks)"
proof -
  have sw: "sweepA o' (orderHeap e) (o_Qty o') (addrs L e opp) = (ex, r', ks, H')"
    using assms(1) by (simp add: matched_def)
  show sweep: "sweep o' (o_Qty o') (a_orders (absE L e) opp) = (ex, r', map H' ks)"
    using sweepA_sweep [OF distinct_addrs [OF assms(2)] sw] by (simp add: absE_def)
  have own: "map H' (addrs L e s) = map (orderHeap e) (addrs L e s)" if "s \<noteq> opp" for s
  proof (rule map_cong [OF refl])
    fix a assume "a \<in> set (addrs L e s)"
    then have "a \<notin> set (addrs L e opp)" using that addrs_side(1) [OF assms(2)] by metis
    then show "H' a = orderHeap e a" using sweepA_frame [OF sw] by blast
  qed
  have "(\<lambda>s. map H' (if s = opp then ks else addrs L e s)) =
      (\<lambda>s. map (orderHeap e) (addrs L e s))(opp := map H' ks)"
    using own by (auto simp: fun_eq_iff)
  then show "absE (liveLevels LH opp L) (applyExecs o' ex (e\<lparr>orderHeap := H', levelHeap := LH\<rparr>))
    = a_sweep o' (absE L e)"
    using sweep unfolding a_sweep_def assms(3) [symmetric] Let_def
    by (simp add: absE_def addrs_matched [OF assms(1) store_invD(1) [OF assms(2)]])
      (simp add: applyExecs_def)
qed

section \<open>Resting an order\<close>

lemma side_filter:
  assumes "\<And>l. l \<in> set ls \<Longrightarrow> level_ok e s l"
  shows "filter (\<lambda>x. P (ro_price x)) (map (orderHeap e) (concat (map (orders e) ls)))
    = map (orderHeap e) (concat (map (orders e) (filter (\<lambda>l. P (pl_price l)) ls)))"
  using assms
proof (induction ls)
  case (Cons l ls)
  have "filter (\<lambda>x. P (ro_price x)) (map (orderHeap e) (orders e l))
      = (if P (pl_price l) then map (orderHeap e) (orders e l) else [])"
    using level_okD(7) [OF Cons.prems [of l]] by (auto simp: filter_id_conv filter_empty_conv)
  then show ?case using Cons by simp
qed simp

definition newResting :: "Order \<Rightarrow> u64 \<Rightarrow> u64 \<Rightarrow> restingOrder" where
  "newResting o' q s = \<lparr>ro_orderID = o_OrderID o', ro_side = o_Side o', ro_price = o_Price o',
     ro_remaining = q, ro_seq = s, ro_smpID = o_SMPID o', ro_hasSMP = o_HasSMPID o'\<rparr>"

text \<open>The engine once the order is allocated and indexed, before it joins a level.\<close>

definition allocOrder :: "'t Engine \<Rightarrow> Order \<Rightarrow> u64 \<Rightarrow> 't Engine" where
  "allocOrder e o' q = e\<lparr>seq := seq e + 1,
     orderHeap := (orderHeap e)(orderNext e := newResting o' q (seq e + 1)),
     orderNext := orderNext e + 1, index := (index e)(o_OrderID o' \<mapsto> orderNext e),
     seqByOrder := (seqByOrder e)(o_OrderID o' \<mapsto> seq e + 1)\<rparr>"

lemma insert_order_alloc: "insert_order B e o' q =
    (let e1 = allocOrder e o' q; key = keyLevel e (o_Price o') in
     case Get_op B (tree e (o_Side o')) key of
       Some level \<Rightarrow> setOrders level (orders e level @ [orderNext e]) e1
     | None \<Rightarrow> setTree (o_Side o') (ReplaceOrInsert_op B (tree e (o_Side o')) key)
         (setOrders key [orderNext e] (e1\<lparr>levelNext := levelNext e + 1\<rparr>)))"
  by (simp add: insert_order_def allocOrder_def newResting_def Let_def keyLevel_def tree_def orders_def
      cong: option.case_cong)

text \<open>
  \<open>placed\<close>: the new order is allocated and its address stands at the end of the level of its
  price, which may be new; everything else is as before.
\<close>

definition placed :: "(Side \<Rightarrow> priceLevel list) \<Rightarrow> 't Engine \<Rightarrow> Order \<Rightarrow> u64 \<Rightarrow>
    (Side \<Rightarrow> priceLevel list) \<Rightarrow> 't Engine \<Rightarrow> bool" where
  "placed L e o' q L' e' \<longleftrightarrow>
     refs_ok L' \<and> (\<forall>s. sorted_wrt (side_less s) (L' s)) \<and>
     (\<forall>s. \<forall>l\<in>set (L' s). l \<in> set (L s) \<and> orders e' l = orders e l \<or>
        s = o_Side o' \<and> pl_price l = o_Price o' \<and> pl_ref l < levelNext e' \<and>
        orders e' l = (if l \<in> set (L s) then orders e l else []) @ [orderNext e]) \<and>
     (\<forall>s. set (addrs L' e' s) = set (addrs L e s) \<union> (if s = o_Side o' then {orderNext e} else {})) \<and>
     orderHeap e' = orderHeap (allocOrder e o' q) \<and> orderNext e' = Suc (orderNext e) \<and>
     index e' = index (allocOrder e o' q) \<and> levelNext e \<le> levelNext e' \<and> seq e' = seq e + 1"

lemma placed_heap:
  "placed L e o' q L' e' \<Longrightarrow> orderHeap e' b =
     (if b = orderNext e then newResting o' q (seq e + 1) else orderHeap e b)"
  by (simp add: placed_def allocOrder_def)

lemma level_ok_placed:
  assumes "placed L e o' q L' e'" "store_inv L e" "l \<in> set (L' s)"
  shows "level_ok e' s l"
proof -
  have nx: "orderNext e' = Suc (orderNext e)" "levelNext e \<le> levelNext e'" using assms(1) by (auto simp: placed_def)
  consider (old) "l \<in> set (L s)" "orders e' l = orders e l"
    | (new) "s = o_Side o'" "pl_price l = o_Price o'" "pl_ref l < levelNext e'"
        "orders e' l = (if l \<in> set (L s) then orders e l else []) @ [orderNext e]"
    using assms(1,3) unfolding placed_def by blast
  then show ?thesis
  proof cases
    case old
    note ok = store_invD(3) [OF assms(2) old(1)]
    have "orderHeap e' a = orderHeap e a" if "a \<in> set (orders e l)" for a
      using level_okD(5) [OF ok that] placed_heap [OF assms(1)] by simp
    then show ?thesis using ok old nx unfolding level_ok_def by auto
  next
    case new
    let ?xs = "if l \<in> set (L s) then orders e l else []"
    have ok: "sorted_wrt (<) ?xs" "\<And>a. a \<in> set ?xs \<Longrightarrow> a < orderNext e \<and> ro_side (orderHeap e a) = s \<and>
        ro_price (orderHeap e a) = pl_price l \<and> ro_seq (orderHeap e a) = of_nat a + 1"
      using store_invD(3) [OF assms(2), of l s] unfolding level_ok_def by (auto split: if_splits)
    have "sorted_wrt (<) (orders e' l)" using ok by (auto simp: new(4) sorted_wrt_append)
    moreover have "ro_side (orderHeap e' a) = s \<and> ro_price (orderHeap e' a) = pl_price l \<and>
        ro_seq (orderHeap e' a) = of_nat a + 1 \<and> a < orderNext e'" if "a \<in> set (orders e' l)" for a
      using that ok(2) [of a] new nx store_invD(5) [OF assms(2)]
      by (auto simp: placed_heap [OF assms(1)] newResting_def simp del: of_nat_Suc split: if_splits)
    ultimately show ?thesis unfolding level_ok_def using new by simp
  qed
qed

lemma store_inv_placed:
  assumes "placed L e o' q L' e'" "store_inv L e" "index e (o_OrderID o') = None"
  shows "store_inv L' e'"
proof -
  have ix: "index e' i = Some b \<longleftrightarrow> (b = orderNext e \<and> i = o_OrderID o') \<or> (i \<noteq> o_OrderID o' \<and> index e i = Some b)" for i b
    using assms(1) by (auto simp: placed_def allocOrder_def)
  have ad: "b \<in> set (addrs L' e' s) \<longleftrightarrow> b \<in> set (addrs L e s) \<or> s = o_Side o' \<and> b = orderNext e" for b s
    using assms(1) by (auto simp: placed_def)
  have fresh: "orderNext e \<notin> set (addrs L e s)" for s using addrs_side(2) [OF assms(2)] by blast
  have idf: "ro_orderID (orderHeap e b) \<noteq> o_OrderID o'" if "b \<in> set (addrs L e s)" for b s
    using index_addrs [OF assms(2) that] assms(3) by auto
  have "index_ok L' e'"
    unfolding index_ok_def ix index_mem [OF assms(2)] ad placed_heap [OF assms(1)]
    using fresh idf by (auto simp: newResting_def)
  moreover have "seq e' = of_nat (orderNext e')"
    using assms(1) store_invD(5) [OF assms(2)] by (simp add: placed_def)
  ultimately show ?thesis
    using assms(1) level_ok_placed [OF assms(1,2)] unfolding store_inv_def by (simp add: placed_def)
qed

end
