(* ===== verification/Book_Insert.thy ===== *)
theory Book_Insert
  imports Book_Store
begin

text \<open>
  Matching and resting refine the abstract book. \<open>book_inv\<close> joins the invariant of the store
  with that of the two price trees, and \<open>absB\<close> reads the abstract book off the engine. The
  lemmas of the locale \<open>book_btree\<close> hold for every implementation of the trees that obeys the
  laws of \<open>btree_laws\<close>.
\<close>

section \<open>Inserting\<close>

lemma placed_existing:
  assumes "store_inv L e" "L (o_Side o') = xs @ l # ys" "pl_price l = o_Price o'"
    and e'_def: "e' = setOrders l (orders e l @ [orderNext e]) (allocOrder e o' q)"
  shows "placed L e o' q L e'"
    "addrs L e' (o_Side o') = concat (map (orders e) (xs @ [l])) @ [orderNext e] @ concat (map (orders e) ys)"
    "s \<noteq> o_Side o' \<Longrightarrow> addrs L e' s = addrs L e s"
proof -
  note refs = store_invD(1) [OF assms(1)]
  have l: "l \<in> set (L (o_Side o'))" using assms(2) by simp
  have same: "orders e' l' = orders e l'" if "pl_ref l' \<noteq> pl_ref l" for l'
    using that by (simp add: e'_def orders_def setOrders_def allocOrder_def)
  have at: "orders e' l = orders e l @ [orderNext e]" by (simp add: e'_def)
  have other: "orders e' l' = orders e l'" if "l' \<in> set (L s)" "s \<noteq> o_Side o' \<or> l' \<noteq> l" for l' s
  proof (rule same)
    show "pl_ref l' \<noteq> pl_ref l"
    proof (cases "s = o_Side o'")
      case True
      then show ?thesis using that l refs unfolding refs_ok_def by (metis distinct_map inj_on_def)
    next
      case False
      then show ?thesis using refs_ok_disjoint [OF refs False that(1)] l by (metis image_eqI)
    qed
  qed
  have ne: "l' \<noteq> l" if "l' \<in> set xs \<or> l' \<in> set ys" for l'
  proof -
    have "distinct (L (o_Side o'))" using refs unfolding refs_ok_def distinct_map by blast
    with that show ?thesis by (auto simp: assms(2))
  qed
  have "map (orders e') xs = map (orders e) xs" "map (orders e') ys = map (orders e) ys"
    using other [of _ "o_Side o'"] assms(2) ne by auto
  then show ad: "addrs L e' (o_Side o') = concat (map (orders e) (xs @ [l])) @ [orderNext e] @ concat (map (orders e) ys)"
    by (simp add: addrs_def assms(2) at cong: map_cong)
  show ad': "addrs L e' s = addrs L e s" if "s \<noteq> o_Side o'" for s
    using other that by (auto simp: addrs_def intro!: arg_cong [of _ _ concat] map_cong)
  show "placed L e o' q L e'"
    unfolding placed_def
  proof (intro conjI allI ballI)
    show "refs_ok L" by (rule refs)
    show "sorted_wrt (side_less s) (L s)" for s by (rule store_invD(2) [OF assms(1)])
    show "set (addrs L e' s) = set (addrs L e s) \<union> (if s = o_Side o' then {orderNext e} else {})" for s
    proof (cases "s = o_Side o'")
      case True
      then show ?thesis unfolding ad [folded True] by (auto simp: addrs_def assms(2))
    qed (simp add: ad')
    show "l' \<in> set (L s) \<and> orders e' l' = orders e l' \<or> s = o_Side o' \<and> pl_price l' = o_Price o' \<and>
        pl_ref l' < levelNext e' \<and> orders e' l' = (if l' \<in> set (L s) then orders e l' else []) @ [orderNext e]"
      if "l' \<in> set (L s)" for l' s
      using that other [OF that] at assms(3) level_okD(1) [OF store_invD(3) [OF assms(1) l]]
      by (cases "s = o_Side o' \<and> l' = l") (auto simp: e'_def setOrders_def allocOrder_def)
  qed (simp_all add: e'_def setOrders_def allocOrder_def)
qed

lemma placed_new:
  assumes "store_inv L e" "\<And>l. l \<in> set (L (o_Side o')) \<Longrightarrow> pl_price l \<noteq> o_Price o'"
    and key: "key = keyLevel e (o_Price o')"
    and L'_def: "L' = L(o_Side o' := filter (\<lambda>x. side_less (o_Side o') x key) (L (o_Side o')) @ [key]
      @ filter (side_less (o_Side o') key) (L (o_Side o')))"
    and e'_def: "e' = setOrders key [orderNext e] ((allocOrder e o' q)\<lparr>levelNext := levelNext e + 1\<rparr>)"
  shows "placed L e o' q L' e'"
    "addrs L' e' (o_Side o') = concat (map (orders e) (filter (\<lambda>x. side_less (o_Side o') x key) (L (o_Side o'))))
       @ [orderNext e] @ concat (map (orders e) (filter (side_less (o_Side o') key) (L (o_Side o'))))"
    "s \<noteq> o_Side o' \<Longrightarrow> addrs L' e' s = addrs L e s"
proof -
  let ?s = "o_Side o'"
  note refs = store_invD(1) [OF assms(1)]
  have kp: "pl_price key = o_Price o'" "pl_ref key = levelNext e" by (simp_all add: key keyLevel_def)
  have lt: "pl_ref l < levelNext e" if "l \<in> set (L s)" for l s
    using level_okD(1) [OF store_invD(3) [OF assms(1) that]] .
  have other: "orders e' l = orders e l" if "l \<in> set (L s)" for l s
    using lt [OF that] by (simp add: e'_def orders_def setOrders_def allocOrder_def kp)
  have same: "map (orders e') xs = map (orders e) xs" if "set xs \<subseteq> set (L s)" for xs s
    using that other by auto
  have at: "orders e' key = [orderNext e]" by (simp add: e'_def)
  have mem: "set (L' s) = set (L s) \<union> (if s = ?s then {key} else {})" for s
    using assms(2) better_total [of _ "o_Price o'"] by (auto simp: L'_def side_less_better kp)
  show ad: "addrs L' e' ?s = concat (map (orders e) (filter (\<lambda>x. side_less ?s x key) (L ?s)))
      @ [orderNext e] @ concat (map (orders e) (filter (side_less ?s key) (L ?s)))"
    by (simp add: addrs_def L'_def at same [of _ ?s] cong del: map_cong)
  show ad': "addrs L' e' s = addrs L e s" if "s \<noteq> ?s" for s
    using that by (simp add: addrs_def L'_def same [of _ s])
  have kn: "key \<notin> set (L s)" "pl_ref key \<notin> pl_ref ` set (L s)" for s
    using lt kp by (metis less_irrefl, metis imageE less_irrefl)
  have inj: "x = y" if "x \<in> set (L s)" "y \<in> set (L s)" "pl_ref x = pl_ref y" for x y s
    using refs that unfolding refs_ok_def distinct_map by (metis inj_onD)
  have "refs_ok L'"
    using refs kn unfolding refs_ok_def L'_def
    by (cases ?s) (auto simp: distinct_map_filter side_less_better, (metis inj better_asym)+)
  moreover have "sorted_wrt (side_less s) (L' s)" for s
    using store_invD(2) [OF assms(1), of s] better_trans
    by (auto simp: L'_def sorted_wrt_append sorted_wrt_filter side_less_better)
  moreover have "set (addrs L' e' s) = set (addrs L e s) \<union> (if s = ?s then {orderNext e} else {})" for s
    using mem [of s] other [of _ s] at by (auto simp: mem_addrs)
  ultimately show "placed L e o' q L' e'"
    unfolding placed_def using mem other at kn kp lt
    by (auto simp: e'_def setOrders_def allocOrder_def)
qed

lemma absE_placed:
  assumes "placed L e o' q L' e'" "store_inv L e"
    and "addrs L' e' (o_Side o') = xs @ [orderNext e] @ ys"
    and "\<And>s. s \<noteq> o_Side o' \<Longrightarrow> addrs L' e' s = addrs L e s"
    and "map (orderHeap e) xs = filter (\<lambda>x. \<not> better (o_Side o') (o_Price o') (ro_price x)) (a_orders (absE L e) (o_Side o'))"
    and "map (orderHeap e) ys = filter (\<lambda>x. better (o_Side o') (o_Price o') (ro_price x)) (a_orders (absE L e) (o_Side o'))"
    and "fills e' = fills e" "trades e' = trades e" "evicted e' = evicted e"
  shows "absE L' e' = a_insert o' q (absE L e)"
proof -
  have old: "map (orderHeap e') zs = map (orderHeap e) zs" if "set zs \<subseteq> set (addrs L e s)" for zs s
    using that addrs_side(2) [OF assms(2)] by (auto simp: placed_heap [OF assms(1)])
  have sub: "set (xs @ ys) \<subseteq> set (addrs L e (o_Side o'))"
  proof
    fix b assume b: "b \<in> set (xs @ ys)"
    then have "b \<in> set (addrs L' e' (o_Side o'))" using assms(3) by auto
    moreover have "b \<noteq> orderNext e"
    proof
      assume "b = orderNext e"
      moreover have "distinct (addrs L' e' (o_Side o'))"
        unfolding addrs_def using assms(1) level_ok_placed [OF assms(1,2)]
        by (intro distinct_concat_levels) (auto simp: placed_def)
      ultimately show False using b assms(3) by auto
    qed
    ultimately show "b \<in> set (addrs L e (o_Side o'))" using assms(1) by (auto simp: placed_def)
  qed
  have own: "map (orderHeap e') (addrs L' e' (o_Side o')) =
      rest_in (newResting o' q (seq e + 1)) (a_orders (absE L e) (o_Side o'))"
    using old [of xs "o_Side o'"] old [of ys "o_Side o'"] sub
    by (simp add: assms(3,5,6) rest_in_def placed_heap [OF assms(1)] newResting_def)
  have oth: "map (orderHeap e') (addrs L' e' s) = map (orderHeap e) (addrs L e s)" if "s \<noteq> o_Side o'" for s
    using old [of "addrs L e s" s] assms(4) [OF that] by simp
  have "(\<lambda>s. map (orderHeap e') (addrs L' e' s)) = (\<lambda>s. map (orderHeap e) (addrs L e s))
      (o_Side o' := rest_in (newResting o' q (seq e + 1)) (a_orders (absE L e) (o_Side o')))"
    using own oth by (auto simp: fun_eq_iff)
  then show ?thesis
    using assms(1,7-9) by (simp add: a_insert_def Let_def absE_def newResting_def placed_def)
qed

section \<open>The invariant of the engine\<close>

definition levels :: "('t \<Rightarrow> priceLevel list) \<Rightarrow> 't Engine \<Rightarrow> Side \<Rightarrow> priceLevel list" where
  "levels items e = (\<lambda>s. items (tree e s))"

definition trees_ok :: "('t \<Rightarrow> bool) \<Rightarrow> ('t \<Rightarrow> priceLevel \<Rightarrow> priceLevel \<Rightarrow> bool) \<Rightarrow> 't Engine \<Rightarrow> bool" where
  "trees_ok ok less_of e \<longleftrightarrow> (\<forall>s. ok (tree e s) \<and> less_of (tree e s) = side_less s)"

definition book_inv :: "('t \<Rightarrow> bool) \<Rightarrow> ('t \<Rightarrow> priceLevel \<Rightarrow> priceLevel \<Rightarrow> bool) \<Rightarrow>
    ('t \<Rightarrow> priceLevel list) \<Rightarrow> 't Engine \<Rightarrow> bool" where
  "book_inv ok less_of items e \<longleftrightarrow> trees_ok ok less_of e \<and> store_inv (levels items e) e"

definition absB :: "('t \<Rightarrow> priceLevel list) \<Rightarrow> 't Engine \<Rightarrow> ABook" where
  "absB items e = absE (levels items e) e"

lemma tree_setTree_iff: "tree (setTree s t e) s' = (if s' = s then t else tree e s')"
  by (cases s; cases s') (simp_all add: tree_def setTree_def)

lemma levels_setTree: "levels items (setTree s t e) = (levels items e)(s := items t)"
  by (simp add: levels_def fun_eq_iff tree_setTree_iff)

lemma trees_ok_setTree:
  "trees_ok ok less_of e \<Longrightarrow> ok t \<Longrightarrow> less_of t = side_less s \<Longrightarrow> trees_ok ok less_of (setTree s t e)"
  by (simp add: trees_ok_def tree_setTree_iff)

lemma tree_frames [simp]:
  "tree (allocOrder e o' q) = tree e" "tree (e\<lparr>levelNext := n\<rparr>) = tree e"
  "tree (e\<lparr>index := ix, evicted := ev\<rparr>) = tree e" "tree (e\<lparr>repriced := rp\<rparr>) = tree e"
  by (simp_all add: tree_def fun_eq_iff allocOrder_def)

lemma levels_frames [simp]:
  "levels items (setOrders l os e) = levels items e" "levels items (allocOrder e o' q) = levels items e"
  "levels items (e\<lparr>levelNext := n\<rparr>) = levels items e" "levels items (applyExecs o' ex e) = levels items e"
  "levels items (e\<lparr>orderHeap := H, levelHeap := LH\<rparr>) = levels items e"
  by (simp_all add: levels_def)

lemma trees_ok_frames [simp]:
  "trees_ok ok less_of (setOrders l os e) = trees_ok ok less_of e"
  "trees_ok ok less_of (allocOrder e o' q) = trees_ok ok less_of e"
  "trees_ok ok less_of (e\<lparr>levelNext := n\<rparr>) = trees_ok ok less_of e"
  "trees_ok ok less_of (applyExecs o' ex e) = trees_ok ok less_of e"
  "trees_ok ok less_of (e\<lparr>orderHeap := H, levelHeap := LH\<rparr>) = trees_ok ok less_of e"
  by (simp_all add: trees_ok_def)

lemma not_better_equal: "\<not> side_less s k l \<and> \<not> side_less s l k \<longleftrightarrow> pl_price l = pl_price k"
  by (auto simp: side_less_better dest: better_total [of "pl_price l" "pl_price k" s])

lemma dom_insert_order: "dom (index (insert_order B e o' q)) = insert (o_OrderID o') (dom (index e))"
  by (auto simp: insert_order_alloc Let_def setOrders_def setTree_def allocOrder_def split: option.splits)

context book_btree
begin

lemma Get_level:
  assumes "book_inv wf less_of items e"
  shows "Get_op B (tree e s) (keyLevel e p) = find (\<lambda>l. pl_price l = p) (levels items e s)"
proof -
  have t: "wf (tree e s)" "less_of (tree e s) = side_less s"
    using assms by (auto simp: book_inv_def trees_ok_def)
  show ?thesis unfolding Get_items [OF t(1)] t(2) not_better_equal by (simp add: keyLevel_def levels_def)
qed

lemma insert_refines:
  assumes inv: "book_inv wf less_of items e" and fresh: "index e (o_OrderID o') = None"
  shows "book_inv wf less_of items (insert_order B e o' q)"
    "absB items (insert_order B e o' q) = a_insert o' q (absB items e)"
proof -
  let ?s = "o_Side o'" and ?L = "levels items e" and ?key = "keyLevel e (o_Price o')"
  have st: "store_inv ?L e" and tr: "trees_ok wf less_of e" using inv by (auto simp: book_inv_def)
  note sorted = store_invD(2) [OF st, of ?s]
  have filt: "filter (\<lambda>x. P (ro_price x)) (a_orders (absE ?L e) ?s) =
      map (orderHeap e) (concat (map (orders e) (filter (\<lambda>l. P (pl_price l)) (?L ?s))))" for P
    unfolding absE_def addrs_def ABook.select_convs by (rule side_filter [OF store_invD(3) [OF st]])
  note filts = filt [of "\<lambda>p. \<not> better ?s (o_Price o') p"] filt [of "better ?s (o_Price o')"]
  have "book_inv wf less_of items (insert_order B e o' q) \<and>
    absB items (insert_order B e o' q) = a_insert o' q (absB items e)"
  proof (cases "find (\<lambda>l. pl_price l = o_Price o') (?L ?s)")
    case (Some l)
    then have "l \<in> set (?L ?s)" and p: "pl_price l = o_Price o'" by (auto simp: find_Some_iff)
    then obtain xs ys where L: "?L ?s = xs @ l # ys" by (meson split_list)
    let ?e = "setOrders l (orders e l @ [orderNext e]) (allocOrder e o' q)"
    have e': "insert_order B e o' q = ?e"
      using Some by (simp add: insert_order_alloc Get_level [OF inv] Let_def)
    note pl = placed_existing [OF st L p refl, where q = q]
    have bet: "\<And>x. x \<in> set xs \<Longrightarrow> better ?s (pl_price x) (o_Price o')"
        "\<And>y. y \<in> set ys \<Longrightarrow> better ?s (o_Price o') (pl_price y)"
      using sorted p by (auto simp: L sorted_wrt_append side_less_better)
    have f: "filter (\<lambda>l. \<not> better ?s (o_Price o') (pl_price l)) (?L ?s) = xs @ [l]"
        "filter (\<lambda>l. better ?s (o_Price o') (pl_price l)) (?L ?s) = ys"
      using bet better_asym p by (auto simp: L filter_id_conv filter_empty_conv)
    have "absE ?L ?e = a_insert o' q (absE ?L e)"
      by (rule absE_placed [OF pl(1) st pl(2,3)]) (simp_all add: filts f setOrders_def allocOrder_def)
    then show ?thesis
      using store_inv_placed [OF pl(1) st fresh] tr by (simp add: e' book_inv_def absB_def)
  next
    case None
    then have np: "pl_price l \<noteq> o_Price o'" if "l \<in> set (?L ?s)" for l
      using that by (auto simp: find_None_iff)
    let ?t = "ReplaceOrInsert_op B (tree e ?s) ?key"
    let ?e = "setOrders ?key [orderNext e] ((allocOrder e o' q)\<lparr>levelNext := levelNext e + 1\<rparr>)"
    let ?L' = "?L(?s := filter (\<lambda>x. side_less ?s x ?key) (?L ?s) @ [?key] @ filter (side_less ?s ?key) (?L ?s))"
    have e': "insert_order B e o' q = setTree ?s ?t ?e"
      using None by (simp add: insert_order_alloc Get_level [OF inv] Let_def)
    note pl = placed_new [OF st np refl refl refl, where q = q]
    have lv: "levels items (setTree ?s ?t ?e) = ?L'"
      using tr by (simp add: levels_setTree trees_ok_def Insert_items) (simp add: levels_def)
    have f: "filter (\<lambda>l. \<not> better ?s (o_Price o') (pl_price l)) (?L ?s) = filter (\<lambda>x. side_less ?s x ?key) (?L ?s)"
        "filter (\<lambda>l. better ?s (o_Price o') (pl_price l)) (?L ?s) = filter (side_less ?s ?key) (?L ?s)"
      using np better_total better_asym
      by (auto simp: side_less_better keyLevel_def intro!: filter_cong)
    have "absE ?L' ?e = a_insert o' q (absE ?L e)"
      by (rule absE_placed [OF pl(1) st pl(2,3)]) (simp_all add: filts f setOrders_def allocOrder_def)
    moreover have "trees_ok wf less_of (setTree ?s ?t ?e)"
      using tr by (intro trees_ok_setTree) (auto simp: trees_ok_def Insert_wf Insert_less)
    ultimately show ?thesis
      using store_inv_placed [OF pl(1) st fresh]
      unfolding e' book_inv_def absB_def lv store_inv_setTree absE_setTree by blast
  qed
  then show "book_inv wf less_of items (insert_order B e o' q)"
    "absB items (insert_order B e o' q) = a_insert o' q (absB items e)" by auto
qed

lemma match_refines:
  assumes inv: "book_inv wf less_of items e" and opp: "opp = oppositeSide (o_Side o')"
  obtains e1 sk ex r ks e2 where "matchLoop B o' e [] (o_Qty o') = Some (e1, sk, r)"
    "e2 = setTree opp (foldl (ReplaceOrInsert_op B) (tree e1 opp) sk) e1"
    "sweep o' (o_Qty o') (a_orders (absB items e) opp) = (ex, r, ks)"
    "book_inv wf less_of items e2" "absB items e2 = a_sweep o' (absB items e)"
    "dom (index e2) \<subseteq> dom (index e)"
proof -
  let ?L = "levels items e"
  have st: "store_inv ?L e" and tr: "trees_ok wf less_of e" using inv by (auto simp: book_inv_def)
  obtain ex r ks H' where sw: "sweepA o' (orderHeap e) (o_Qty o') (addrs ?L e opp) = (ex, r, ks, H')"
    by (metis prod_cases4)
  have "loopPost o' e (?L opp) [] ex r ks H' (matchLoop B o' e [] (o_Qty o'))"
    using tr store_invD(1) [OF st] level_okD(2,4) [OF store_invD(3) [OF st]]
      level_okD(7) [OF store_invD(3) [OF st]] sw
    by (intro matchLoop_sweepA [OF _ _ _ _ _ _ _ opp]) (auto simp: trees_ok_def refs_ok_def levels_def addrs_def)
  then obtain LH t' sk where res: "matchLoop B o' e [] (o_Qty o') =
      Some (setTree opp t' (applyExecs o' ex (e\<lparr>orderHeap := H', levelHeap := LH\<rparr>)), sk, r)"
    and t': "wf t'" "less_of t' = side_less opp" "sk @ items t' = filter (\<lambda>l. LH (pl_ref l) \<noteq> []) (?L opp)"
    and m: "matched ?L e o' opp ex r ks H' LH"
    unfolding loopPost_def opp [symmetric] matched_def using sw by auto
  let ?e1 = "applyExecs o' ex (e\<lparr>orderHeap := H', levelHeap := LH\<rparr>)"
  let ?t = "foldl (ReplaceOrInsert_op B) t' sk"
  have "sorted_wrt (less_of t') (sk @ items t')"
    unfolding t'(2,3) using store_invD(2) [OF st] by (rule sorted_wrt_filter)
  from foldl_Insert_front [OF t'(1) this] have t: "items ?t = filter (\<lambda>l. LH (pl_ref l) \<noteq> []) (?L opp)"
    "wf ?t" "less_of ?t = side_less opp" using t'(2,3) by auto
  have lv: "levels items (setTree opp ?t ?e1) = liveLevels LH opp ?L"
    by (simp add: levels_setTree liveLevels_def t(1))
  have "book_inv wf less_of items (setTree opp ?t ?e1)"
    unfolding book_inv_def lv store_inv_setTree using store_inv_matched [OF m st] tr t(2,3)
    by (auto intro: trees_ok_setTree)
  moreover have "absB items (setTree opp ?t ?e1) = a_sweep o' (absB items e)"
    unfolding absB_def lv absE_setTree by (rule absE_matched(1) [OF m st opp])
  moreover have "dom (index (setTree opp ?t ?e1)) \<subseteq> dom (index e)"
    by (auto simp: setTree_def applyExecs_def restrict_map_def split: if_splits)
  ultimately show ?thesis
    using that [OF res refl] absE_matched(2) [OF m st opp] by (simp add: absB_def)
qed

lemma matchAndRest_refines:
  assumes inv: "book_inv wf less_of items e"
    and fresh: "rest \<Longrightarrow> o_Kind o' = NewLimit \<Longrightarrow> index e (o_OrderID o') = None"
  shows "\<exists>e'. matchAndRest B e o' rest = Some e' \<and> book_inv wf less_of items e' \<and>
    absB items e' = a_match o' rest (absB items e) \<and>
    dom (index e') \<subseteq> insert (o_OrderID o') (dom (index e))"
proof -
  let ?opp = "oppositeSide (o_Side o')"
  obtain e1 sk ex r ks e2 where m: "matchLoop B o' e [] (o_Qty o') = Some (e1, sk, r)"
    and e2: "e2 = setTree ?opp (foldl (ReplaceOrInsert_op B) (tree e1 ?opp) sk) e1"
    and sw: "sweep o' (o_Qty o') (a_orders (absB items e) ?opp) = (ex, r, ks)"
    and inv2: "book_inv wf less_of items e2" and abs2: "absB items e2 = a_sweep o' (absB items e)"
    and dom2: "dom (index e2) \<subseteq> dom (index e)"
    by (rule match_refines [OF inv refl])
  let ?c = "rest \<and> r > 0 \<and> o_Kind o' = NewLimit"
  have run: "matchAndRest B e o' rest = Some (if ?c then insert_order B e2 o' r else e2)"
    by (auto simp: matchAndRest_def m e2 Let_def)
  have spec: "a_match o' rest b = (if ?c then a_insert o' r (a_sweep o' b) else a_sweep o' b)"
    if "b = absB items e" for b
    using sw that by (simp add: a_match_def a_sweep_def Let_def)
  show ?thesis
  proof (cases ?c)
    case True
    then have fr: "index e2 (o_OrderID o') = None" using fresh dom2 by (auto simp: domIff)
    have "dom (index (insert_order B e2 o' r)) = insert (o_OrderID o') (dom (index e2))"
      by (rule dom_insert_order)
    then show ?thesis
      using True insert_refines [OF inv2 fr, of r] run spec [OF refl] abs2 dom2 by auto
  next
    case False
    then show ?thesis using inv2 run spec [OF refl] abs2 dom2 by auto
  qed
qed

end

end
