(* ===== verification/Book_Refine.thy ===== *)
theory Book_Refine
  imports Book_Insert
begin

text \<open>
  The whole engine refines the abstract book: cancelling and replacing on the store, then
  every operation of \<open>Process\<close>, then runs of it from the empty engine. The locale \<open>book_btree\<close>
  carries the result for every lawful implementation of the price trees; it is interpreted
  on the reference implementation \<open>LB\<close>.
\<close>

section \<open>Removing\<close>

lemma id_eq_iff:
  assumes "store_inv L e" "index e i = Some a" "b \<in> set (addrs L e s)"
  shows "ro_orderID (orderHeap e b) = i \<longleftrightarrow> b = a"
proof
  assume "ro_orderID (orderHeap e b) = i"
  then have "index e i = Some b" using index_addrs [OF assms(1,3)] by simp
  then show "b = a" using assms(2) by simp
next
  assume "b = a"
  then show "ro_orderID (orderHeap e b) = i" using index_SomeD(2) [OF assms(1,2)] by simp
qed

text \<open>\<open>removed\<close>: the address \<open>a\<close> is gone from its level, a level left empty is gone from its side.\<close>

definition removed :: "(Side \<Rightarrow> priceLevel list) \<Rightarrow> 't Engine \<Rightarrow> string \<Rightarrow> addr \<Rightarrow>
    (Side \<Rightarrow> priceLevel list) \<Rightarrow> 't Engine \<Rightarrow> bool" where
  "removed L e i a L' e' \<longleftrightarrow>
     (\<forall>s. L' s = filter (\<lambda>l. orders e' l \<noteq> []) (L s)) \<and>
     (\<forall>s. \<forall>l\<in>set (L s). orders e' l = filter (\<lambda>b. b \<noteq> a) (orders e l)) \<and>
     orderHeap e' = orderHeap e \<and> index e' = (index e)(i := None) \<and>
     orderNext e' = orderNext e \<and> levelNext e' = levelNext e \<and> seq e' = seq e"

lemma addrs_removed:
  assumes "removed L e i a L' e'"
  shows "addrs L' e' s = filter (\<lambda>b. b \<noteq> a) (addrs L e s)"
proof -
  have "map (orders e') (L s) = map (\<lambda>l. filter (\<lambda>b. b \<noteq> a) (orders e l)) (L s)"
    using assms by (auto simp: removed_def)
  then have "addrs L' e' s = concat (map (\<lambda>l. filter (\<lambda>b. b \<noteq> a) (orders e l)) (L s))"
    using assms unfolding addrs_def removed_def by (simp only: concat_filter_nonempty)
  then show ?thesis by (simp add: addrs_def filter_concat o_def)
qed

lemma store_inv_removed:
  assumes "removed L e i a L' e'" "store_inv L e" "index e i = Some a"
  shows "store_inv L' e'"
proof -
  have L': "set (L' s) \<subseteq> set (L s)" for s using assms(1) by (auto simp: removed_def)
  have "refs_ok L'"
    using store_invD(1) [OF assms(2)] L' [of Buy] L' [of Sell] assms(1)
    unfolding refs_ok_def removed_def by (auto simp: distinct_map_filter)
  moreover have "sorted_wrt (side_less s) (L' s)" for s
    using assms(1) store_invD(2) [OF assms(2)] by (simp add: removed_def sorted_wrt_filter)
  moreover have "level_ok e' s l" if "l \<in> set (L' s)" for s l
  proof -
    have "l \<in> set (L s)" "orders e' l \<noteq> []" using that assms(1) by (auto simp: removed_def)
    then show ?thesis using store_invD(3) [OF assms(2)] assms(1)
      unfolding level_ok_def removed_def by (auto simp: sorted_wrt_filter)
  qed
  moreover have "index_ok L' e'"
  proof -
    have "index e' j = Some b \<longleftrightarrow> j \<noteq> i \<and> index e j = Some b" for j b
      using assms(1) by (simp add: removed_def)
    moreover have "orderHeap e' = orderHeap e" using assms(1) by (simp add: removed_def)
    moreover have "b = a" if "index e (ro_orderID (orderHeap e b)) = Some b" "ro_orderID (orderHeap e b) = i" for b
      using that assms(3) by simp
    ultimately show ?thesis
      unfolding index_ok_def addrs_removed [OF assms(1)]
      using index_mem [OF assms(2)] index_SomeD(2) [OF assms(2,3)] by auto
  qed
  ultimately show ?thesis
    using assms(1) store_invD(5) [OF assms(2)] unfolding store_inv_def by (simp add: removed_def)
qed

lemma absE_removed:
  assumes "removed L e i a L' e'" "store_inv L e" "index e i = Some a"
    and "fills e' = fills e" "trades e' = trades e" "evicted e' = evicted e @ [i]"
  shows "absE L' e' = a_remove i (absE L e)"
proof -
  have "filter (\<lambda>ro. ro_orderID ro \<noteq> i) (map (orderHeap e) (addrs L e s)) =
      map (orderHeap e) (filter (\<lambda>b. b \<noteq> a) (addrs L e s))" for s
    unfolding filter_map o_def using id_eq_iff [OF assms(2,3)]
    by (intro arg_cong [of _ _ "map (orderHeap e)"] filter_cong) simp_all
  moreover have "a_find i (absE L e) \<noteq> None"
    using a_find_absE [OF assms(2), of i] assms(3) by simp
  ultimately show ?thesis
    using assms(1,4-6) by (simp add: a_remove_def absE_def addrs_removed [OF assms(1)] removed_def)
qed

lemma sorted_wrt_unique_price:
  "sorted_wrt (side_less s) xs \<Longrightarrow> x \<in> set xs \<Longrightarrow> y \<in> set xs \<Longrightarrow> pl_price x = pl_price y \<Longrightarrow> x = y"
  by (induction xs) (auto simp: side_less_better)

lemma removeFirst_filter:
  assumes "\<And>b. b \<in> set xs \<Longrightarrow> P b \<longleftrightarrow> b = a" "distinct xs"
  shows "removeFirst P xs = filter (\<lambda>b. b \<noteq> a) xs"
  using assms
proof (induction xs)
  case (Cons x xs)
  have "P x \<longleftrightarrow> x = a" using Cons.prems(1) [of x] by simp
  moreover have "removeFirst P xs = filter (\<lambda>b. b \<noteq> a) xs"
    using Cons.prems by (intro Cons.IH) simp_all
  moreover have "x = a \<Longrightarrow> filter (\<lambda>b. b \<noteq> a) xs = xs"
    using Cons.prems(2) by (auto simp: filter_id_conv)
  ultimately show ?case by simp
qed simp

lemma refs_ok_inj:
  assumes "refs_ok L" "l \<in> set (L s)" "l' \<in> set (L s')" "pl_ref l = pl_ref l'"
  shows "s = s' \<and> l = l'"
proof -
  have "s = s'" using refs_ok_disjoint [OF assms(1) _ assms(2)] assms(3,4) by (metis image_eqI)
  moreover from this have "l = l'"
    using assms unfolding refs_ok_def distinct_map by (metis inj_onD)
  ultimately show ?thesis by simp
qed

context book_btree
begin

lemma remove_None: "index e i = None \<Longrightarrow> remove B e i = e"
  by (simp add: remove_def)

lemma remove_removed:
  assumes inv: "book_inv wf less_of items e" and a: "index e i = Some a"
  defines "e' \<equiv> remove B e i"
  shows "removed (levels items e) e i a (levels items e') e'" "trees_ok wf less_of e'"
    "fills e' = fills e" "trades e' = trades e" "evicted e' = evicted e @ [i]"
proof -
  let ?L = "levels items e" and ?s = "ro_side (orderHeap e a)" and ?p = "ro_price (orderHeap e a)"
  have st: "store_inv ?L e" and tr: "trees_ok wf less_of e" using inv by (auto simp: book_inv_def)
  obtain l where l: "l \<in> set (?L ?s)" "a \<in> set (orders e l)"
    using index_SomeD(1) [OF st a] by (auto simp: mem_addrs)
  note ok = store_invD(3) [OF st l(1)]
  have p: "pl_price l = ?p" using level_okD(7) [OF ok l(2)] by simp
  have uniq: "l' = l" if "l' \<in> set (?L ?s)" "pl_price l' = ?p" for l'
    using sorted_wrt_unique_price [OF store_invD(2) [OF st] l(1) that(1)] that(2) p by simp
  have get: "Get_op B (tree e ?s) (keyLevel e ?p) = Some l"
    unfolding Get_level [OF inv] using l(1) p uniq by (intro find_unique)
  note ids = id_eq_iff [OF st a]
  have rf: "removeFirst (\<lambda>x. ro_orderID (orderHeap e x) = i) (orders e l) = filter (\<lambda>b. b \<noteq> a) (orders e l)"
    using ids [of _ ?s] l(1) level_okD(4) [OF ok] by (intro removeFirst_filter) (auto simp: mem_addrs)
  let ?os = "filter (\<lambda>b. b \<noteq> a) (orders e l)"
  let ?e1 = "if ?os = [] then setTree ?s (Delete_op B (tree e ?s) l) (setOrders l ?os e) else setOrders l ?os e"
  have e': "e' = ?e1\<lparr>index := (index e)(i := None), evicted := evicted e @ [i]\<rparr>"
    by (simp add: e'_def remove_def a get rf Let_def) (simp add: setOrders_def setTree_def)
  show "fills e' = fills e" "trades e' = trades e" "evicted e' = evicted e @ [i]"
    by (simp_all add: e' setTree_def setOrders_def)
  show "trees_ok wf less_of e'"
    using tr by (auto simp: e' trees_ok_def tree_setTree_iff Delete_wf Delete_less)
  have at: "orders e' l = ?os" by (simp add: e' orders_def setOrders_def setTree_def)
  have oth: "orders e' l' = orders e l'" if "l' \<in> set (?L s)" "\<not> (s = ?s \<and> l' = l)" for s l'
    using refs_ok_inj [OF store_invD(1) [OF st] that(1) l(1)] that(2)
    by (auto simp: e' orders_def setOrders_def setTree_def)
  have ord: "orders e' l' = filter (\<lambda>b. b \<noteq> a) (orders e l')" if l': "l' \<in> set (?L s)" for s l'
  proof (cases "s = ?s \<and> l' = l")
    case False
    have "a \<notin> set (orders e l')"
    proof
      assume "a \<in> set (orders e l')"
      note k = level_okD(6,7) [OF store_invD(3) [OF st l'] this]
      with l' uniq False show False by simp
    qed
    then have "filter (\<lambda>b. b \<noteq> a) (orders e l') = orders e l'" by (auto simp: filter_id_conv)
    with oth [OF l' False] show ?thesis by simp
  qed (use at in simp)
  have "levels items e' s = filter (\<lambda>l'. orders e' l' \<noteq> []) (?L s)" for s
  proof (cases "s = ?s \<and> ?os = []")
    case True
    have "side_less ?s l x \<or> side_less ?s x l \<longleftrightarrow> orders e' x \<noteq> []" if "x \<in> set (?L ?s)" for x
    proof (cases "x = l")
      case eq: True
      then show ?thesis using True at by simp
    next
      case False
      then have "pl_price x \<noteq> pl_price l" using uniq [OF that] p by auto
      moreover have "orders e' x \<noteq> []"
        using oth [OF that] False level_okD(2) [OF store_invD(3) [OF st that]] by simp
      ultimately show ?thesis using not_better_equal [of ?s l x] by blast
    qed
    then show ?thesis
      using True tr by (simp add: e' levels_def trees_ok_def Delete_items cong: filter_cong)
  next
    case False
    have "levels items e' s = ?L s" using False by (auto simp: e' levels_def tree_setTree_iff)
    moreover have "orders e' x \<noteq> []" if "x \<in> set (?L s)" for x
    proof (cases "s = ?s \<and> x = l")
      case True
      then show ?thesis using False at by simp
    next
      case False
      then show ?thesis using oth [OF that False] level_okD(2) [OF store_invD(3) [OF st that]] by simp
    qed
    ultimately show ?thesis by simp
  qed
  with ord show "removed ?L e i a (levels items e') e'"
    unfolding removed_def by (simp add: e' setTree_def setOrders_def)
qed

lemma remove_refines:
  assumes inv: "book_inv wf less_of items e"
  shows "book_inv wf less_of items (remove B e i)"
    "absB items (remove B e i) = a_remove i (absB items e)"
    "index (remove B e i) = (index e)(i := None)"
proof -
  have st: "store_inv (levels items e) e" using inv by (simp add: book_inv_def)
  have "book_inv wf less_of items (remove B e i) \<and> absB items (remove B e i) = a_remove i (absB items e)
    \<and> index (remove B e i) = (index e)(i := None)"
  proof (cases "index e i")
    case None
    then have "a_find i (absB items e) = None" using a_find_absE [OF st, of i] by (simp add: absB_def)
    then show ?thesis
      using None inv by (auto simp: remove_None a_remove_def)
  next
    case (Some a)
    note r = remove_removed [OF inv Some]
    have "index (remove B e i) = (index e)(i := None)" using r(1) by (simp add: removed_def)
    then show ?thesis
      using store_inv_removed [OF r(1) st Some] absE_removed [OF r(1) st Some r(3-5)] r(2)
      by (simp add: book_inv_def absB_def)
  qed
  then show "book_inv wf less_of items (remove B e i)"
    "absB items (remove B e i) = a_remove i (absB items e)"
    "index (remove B e i) = (index e)(i := None)" by auto
qed

end

section \<open>Replacing in place\<close>

lemma replaceInPlace_fields:
  assumes "o_OrigOrderID o' = ro_orderID (orderHeap e a)" "index e (o_OrigOrderID o') = Some a"
  defines "e' \<equiv> replaceInPlace e o' a"
  shows "orderHeap e' = (orderHeap e)(a := (orderHeap e a)\<lparr>ro_remaining := o_Qty o', ro_orderID := orReplaceID o'\<rparr>)"
    "index e' = (index e)(o_OrigOrderID o' := None, orReplaceID o' \<mapsto> a)"
    "orders e' = orders e" "tree e' = tree e" "orderNext e' = orderNext e" "levelNext e' = levelNext e"
    "seq e' = seq e" "fills e' = fills e" "trades e' = trades e" "evicted e' = evicted e"
  using assms(1,2)
  by (auto simp: e'_def replaceInPlace_def Let_def orReplaceID_def orders_def tree_def fun_eq_iff split: option.split)

lemma replaceInPlace_store:
  assumes st: "store_inv L e" and a: "index e (o_OrigOrderID o') = Some a"
    and fresh: "orReplaceID o' = o_OrigOrderID o' \<or> index e (orReplaceID o') = None"
  defines "e' \<equiv> replaceInPlace e o' a"
  shows "store_inv L e'"
    "a_orders (absE L e') = (\<lambda>s. map (\<lambda>x. if ro_orderID x = o_OrigOrderID o'
       then x\<lparr>ro_remaining := o_Qty o', ro_orderID := orReplaceID o'\<rparr> else x) (a_orders (absE L e) s))"
proof -
  note f = replaceInPlace_fields [OF index_SomeD(2) [OF st a, symmetric] a, folded e'_def]
  note ids = id_eq_iff [OF st a]
  have ad: "addrs L e' s = addrs L e s" for s by (simp add: addrs_def f(3))
  have "level_ok e' s l" if "l \<in> set (L s)" for s l
    using store_invD(3) [OF st that] unfolding level_ok_def by (auto simp: f)
  moreover have "index_ok L e'"
    unfolding index_ok_def ad
  proof (intro allI)
    fix i b
    have mem: "\<exists>s. a \<in> set (addrs L e s)" using index_SomeD(1) [OF st a] by blast
    have fr: "ro_orderID (orderHeap e b) \<noteq> orReplaceID o'" if "b \<in> set (addrs L e s)" "b \<noteq> a" for b s
      using index_addrs [OF st that(1)] fresh that ids [OF that(1)] by auto
    show "index e' i = Some b \<longleftrightarrow> (\<exists>s. b \<in> set (addrs L e s)) \<and> ro_orderID (orderHeap e' b) = i"
    proof (cases "b = a")
      case True
      have "index e i \<noteq> Some a" if "i \<noteq> o_OrigOrderID o'" using that index_SomeD(2) [OF st] index_SomeD(2) [OF st a] by metis
      then show ?thesis using True mem by (auto simp: f)
    next
      case False
      then show ?thesis
        using index_mem [OF st, of i b] fr [of b] ids [of b] by (auto simp: f)
    qed
  qed
  ultimately show "store_inv L e'"
    using store_invD [OF st] unfolding store_inv_def by (simp add: f)
  have "orderHeap e' b = (if ro_orderID (orderHeap e b) = o_OrigOrderID o'
      then (orderHeap e b)\<lparr>ro_remaining := o_Qty o', ro_orderID := orReplaceID o'\<rparr> else orderHeap e b)"
    if "b \<in> set (addrs L e s)" for b s
    using ids [OF that] by (simp add: f)
  then show "a_orders (absE L e') = (\<lambda>s. map (\<lambda>x. if ro_orderID x = o_OrigOrderID o'
       then x\<lparr>ro_remaining := o_Qty o', ro_orderID := orReplaceID o'\<rparr> else x) (a_orders (absE L e) s))"
    by (auto simp: absE_def ad fun_eq_iff)
qed

section \<open>The engine refines the abstract book\<close>

text \<open>
  The ids under which an order may come to rest are not in the book yet. A replace may keep
  the id of the order it replaces.
\<close>

definition fresh_id :: "'t Engine \<Rightarrow> Order \<Rightarrow> bool" where
  "fresh_id e o' = (case o_Kind o' of
     NewLimit \<Rightarrow> index e (o_OrderID o') = None
   | Replace \<Rightarrow> orReplaceID o' = o_OrigOrderID o' \<or> index e (orReplaceID o') = None
   | _ \<Rightarrow> True)"

fun processAll :: "'t level_ops \<Rightarrow> 't Engine \<Rightarrow> Order list \<Rightarrow> 't Engine option" where
  "processAll B e [] = Some e"
| "processAll B e (o' # os) = Option.bind (Process B e o') (\<lambda>e'. processAll B e' os)"

definition emptyBook :: ABook where
  "emptyBook = \<lparr>a_orders = (\<lambda>s. []), a_seq = 0, a_fills = [], a_trades = [], a_evicted = []\<rparr>"

lemma orders_repriced [simp]: "orders (e\<lparr>repriced := rp\<rparr>) = orders e"
  by (simp add: orders_def fun_eq_iff)

lemma absE_repriced [simp]:
  "absE L (e\<lparr>repriced := rp\<rparr>) = absE L e" "store_inv L (e\<lparr>repriced := rp\<rparr>) = store_inv L e"
  "levels items (e\<lparr>repriced := rp\<rparr>) = levels items e" "trees_ok ok less_of (e\<lparr>repriced := rp\<rparr>) = trees_ok ok less_of e"
  by (simp_all add: absE_def addrs_def store_inv_def level_ok_def index_ok_def levels_def trees_ok_def)

context book_btree
begin

lemma replace_refines:
  assumes inv: "book_inv wf less_of items e"
    and fresh: "orReplaceID o' = o_OrigOrderID o' \<or> index e (orReplaceID o') = None"
  shows "book_inv wf less_of items (replace B e o') \<and>
    absB items (replace B e o') = a_replace o' (absB items e) \<and>
    dom (index (replace B e o')) \<subseteq> insert (o_OrderID o') (dom (index e))"
proof (cases "index e (o_OrigOrderID o')")
  case None
  have "a_find (o_OrigOrderID o') (absB items e) = None"
    using a_find_absE [of "levels items e" e "o_OrigOrderID o'"] inv None by (simp add: book_inv_def absB_def)
  then show ?thesis using None inv by (auto simp: replace_def a_replace_def)
next
  case (Some a)
  let ?ro = "orderHeap e a" and ?L = "levels items e"
  have st: "store_inv ?L e" and tr: "trees_ok wf less_of e" using inv by (auto simp: book_inv_def)
  have find: "a_find (o_OrigOrderID o') (absB items e) = Some ?ro"
    using a_find_absE [OF st, of "o_OrigOrderID o'"] Some by (simp add: absB_def)
  have idd: "orReplaceID o' \<in> insert (o_OrderID o') (dom (index e))"
    using Some by (auto simp: orReplaceID_def)
  show ?thesis
  proof (cases "o_Price o' = ro_price ?ro \<and> o_Qty o' \<le> ro_remaining ?ro")
    case True
    let ?e = "replaceInPlace e o' a"
    have e': "replace B e o' = ?e" using True Some by (simp add: replace_def)
    note f = replaceInPlace_fields [OF index_SomeD(2) [OF st Some, symmetric] Some]
    note s = replaceInPlace_store [OF st Some fresh]
    have "absE ?L ?e = a_replace o' (absE ?L e)"
      using s(2) True find by (simp add: a_replace_def absB_def) (simp add: absE_def f)
    moreover have "levels items ?e = ?L" "trees_ok wf less_of ?e"
      using tr by (simp_all add: levels_def trees_ok_def f)
    ultimately show ?thesis
      using s(1) idd by (auto simp: e' book_inv_def absB_def f(2))
  next
    case False
    define e1 where "e1 = (if o_Price o' \<noteq> ro_price ?ro then e\<lparr>repriced := (repriced e)(orReplaceID o' \<mapsto> True)\<rparr> else e)"
    define repl where "repl = zeroOrder\<lparr>o_OrderID := orReplaceID o', o_Side := o_Side o', o_Price := o_Price o',
        o_SMPID := ro_smpID ?ro, o_HasSMPID := ro_hasSMP ?ro\<rparr>"
    have e': "replace B e o' = insert_order B (remove B e1 (o_OrigOrderID o')) repl (o_Qty o')"
      using False Some by (auto simp: replace_def e1_def repl_def Let_def)
    have inv1: "book_inv wf less_of items e1" "absB items e1 = absB items e" "index e1 = index e"
      using inv by (auto simp: e1_def book_inv_def absB_def)
    note r = remove_refines [OF inv1(1), of "o_OrigOrderID o'"]
    have fr: "index (remove B e1 (o_OrigOrderID o')) (o_OrderID repl) = None"
      using fresh by (auto simp: r(3) inv1(3) repl_def)
    have spec: "a_replace o' (absB items e) = a_insert repl (o_Qty o') (a_remove (o_OrigOrderID o') (absB items e))"
      using False find by (auto simp: a_replace_def repl_def)
    have "dom (index (replace B e o')) \<subseteq> insert (o_OrderID o') (dom (index e))"
      using idd unfolding e' dom_insert_order r(3) inv1(3) by (auto simp: repl_def)
    then show ?thesis
      unfolding e' spec using insert_refines [OF r(1) fr, of "o_Qty o'"] r(2) inv1(2) by simp
  qed
qed

lemma Process_refines:
  assumes inv: "book_inv wf less_of items e" and fresh: "fresh_id e o'"
  shows "\<exists>e'. Process B e o' = Some e' \<and> book_inv wf less_of items e' \<and>
    absB items e' = a_process o' (absB items e) \<and> dom (index e') \<subseteq> insert (o_OrderID o') (dom (index e))"
proof (cases "o_Kind o'")
  case NewLimit
  then show ?thesis
    using matchAndRest_refines [OF inv, of True o'] fresh by (simp add: Process_def a_process_def fresh_id_def)
next
  case NewMarket
  then show ?thesis
    using matchAndRest_refines [OF inv, of False o'] by (simp add: Process_def a_process_def)
next
  case Cancel
  then show ?thesis
    using remove_refines [OF inv, of "o_OrigOrderID o'"] by (auto simp: Process_def a_process_def)
next
  case Replace
  then show ?thesis
    using replace_refines [OF inv, of o'] fresh by (simp add: Process_def a_process_def fresh_id_def)
qed

lemma NewEngine_inv:
  "book_inv wf less_of items (NewEngine B)" "absB items (NewEngine B) = emptyBook" "index (NewEngine B) = Map.empty"
proof -
  have lv: "levels items (NewEngine B) s = []" for s
    by (cases s) (simp_all add: levels_def NewEngine_def tree_def NewG_items)
  have "trees_ok wf less_of (NewEngine B)"
    by (simp add: trees_ok_def NewEngine_def tree_def side_less_def NewG_wf NewG_less)
  then show "book_inv wf less_of items (NewEngine B)"
    using lv by (simp add: book_inv_def store_inv_def refs_ok_def index_ok_def mem_addrs NewEngine_def)
  show "absB items (NewEngine B) = emptyBook"
    by (simp add: absB_def absE_def addrs_def lv emptyBook_def) (simp add: NewEngine_def)
qed (simp add: NewEngine_def)

lemma processAll_refines:
  assumes "book_inv wf less_of items e" "distinct (map o_OrderID os)"
    and "\<And>o'. o' \<in> set os \<Longrightarrow> o_OrderID o' \<noteq> [] \<and> index e (o_OrderID o') = None"
  shows "\<exists>e'. processAll B e os = Some e' \<and> book_inv wf less_of items e' \<and>
    absB items e' = fold a_process os (absB items e)"
  using assms
proof (induction os arbitrary: e)
  case (Cons o' os)
  have "fresh_id e o'" using Cons.prems(3) by (simp add: fresh_id_def orReplaceID_def split: Kind.split)
  from Process_refines [OF Cons.prems(1) this] obtain e1 where e1: "Process B e o' = Some e1"
    "book_inv wf less_of items e1" "absB items e1 = a_process o' (absB items e)"
    "dom (index e1) \<subseteq> insert (o_OrderID o') (dom (index e))" by blast
  have "o_OrderID x \<noteq> [] \<and> index e1 (o_OrderID x) = None" if "x \<in> set os" for x
  proof -
    have "o_OrderID x \<notin> insert (o_OrderID o') (dom (index e))" "o_OrderID x \<noteq> []"
      using that Cons.prems(2) Cons.prems(3) [of x] by (auto simp: image_iff)
    with e1(4) show ?thesis by (meson domIff subsetD)
  qed
  from Cons.IH [OF e1(2) _ this] Cons.prems(2) show ?case using e1(1,3) by simp
qed simp

end

interpretation lbk: book_btree LB LB_wf fst snd
  by unfold_locales

end
