(* ===== verification/Book_Props.thy ===== *)
theory Book_Props
  imports Book_Refine
begin

text \<open>
  The properties of the reference matching engine: it refines the abstract book, on single
  orders and on whole sessions; quantities are conserved; no match is missed; every trade is
  legal and follows price-time priority; cancels, replaces and the self-match query do what
  the validator relies on. Each property is instantiated on a concrete book.
\<close>

section \<open>Helpers\<close>

lemma book_btreeI: "btree_laws B ok less_of items \<Longrightarrow> book_btree B ok less_of items"
  by (simp add: book_btree_def)

text \<open>What a limit or market order leaves behind, in terms of the walk.\<close>

lemma Process_new:
  assumes "btree_laws B ok less_of items" "book_inv ok less_of items e" "fresh_id e o'"
    and "o_Kind o' = NewLimit \<or> o_Kind o' = NewMarket" "Process B e o' = Some e'"
  obtains ex r ks where "sweep o' (o_Qty o') (a_orders (absB items e) (oppositeSide (o_Side o'))) = (ex, r, ks)"
    "trades e' = trades e @ execTrades o' ex" "fills e' = fills e @ execFills o' ex"
    "a_orders (absB items e') (oppositeSide (o_Side o')) = ks"
    "a_orders (absB items e') (o_Side o') =
       (if r > 0 \<and> o_Kind o' = NewLimit then rest_in (newResting o' r (seq e + 1)) (a_orders (absB items e) (o_Side o'))
        else a_orders (absB items e) (o_Side o'))"
    "book_inv ok less_of items e'"
proof -
  let ?opp = "oppositeSide (o_Side o')" and ?b = "absB items e"
  obtain ex r ks where sw: "sweep o' (o_Qty o') (a_orders ?b ?opp) = (ex, r, ks)" by (metis prod_cases3)
  have pr: "book_inv ok less_of items e'" "absB items e' = a_match o' (o_Kind o' = NewLimit) ?b"
    using book_btree.Process_refines [OF book_btreeI [OF assms(1)] assms(2,3)] assms(4,5)
    by (auto simp: a_process_def)
  have ne: "?opp \<noteq> o_Side o'" by (cases "o_Side o'") (simp_all add: oppositeSide_def)
  have flds: "trades e' = a_trades (absB items e')" "fills e' = a_fills (absB items e')"
    "trades e = a_trades ?b" "fills e = a_fills ?b" "seq e = a_seq ?b"
    by (simp_all add: absB_def absE_def)
  show ?thesis
    by (rule that [OF sw])
      (use pr ne sw assms(4) in \<open>auto simp: flds a_match_def Let_def a_insert_def newResting_def\<close>)
qed

lemma Resting_find:
  assumes "book_inv ok less_of items e"
  shows "Resting e i = map_option (\<lambda>ro. \<lparr>rs_OrderID = i, rs_Side = ro_side ro, rs_Price = ro_price ro,
      rs_Seq = ro_seq ro, rs_Remaining = ro_remaining ro, rs_SMPID = ro_smpID ro, rs_HasSMPID = ro_hasSMP ro\<rparr>)
    (a_find i (absB items e))"
  using a_find_absE [of "levels items e" e i] assms
  by (auto simp: book_inv_def absB_def Resting_def Let_def split: option.split)

lemma book_inv_ids:
  assumes "book_inv ok less_of items e"
  shows "distinct (map ro_orderID (a_orders (absB items e) Buy @ a_orders (absB items e) Sell))"
    "m \<in> set (a_orders (absB items e) s) \<Longrightarrow> index e (ro_orderID m) \<noteq> None"
    "m \<in> set (a_orders (absB items e) s) \<Longrightarrow> ro_side m = s"
proof -
  let ?L = "levels items e"
  have st: "store_inv ?L e" using assms by (simp add: book_inv_def)
  have "set (addrs ?L e Buy) \<inter> set (addrs ?L e Sell) = {}"
    using addrs_side(1) [OF st] by (metis Side.distinct(1) disjoint_iff)
  then have "distinct (addrs ?L e Buy @ addrs ?L e Sell)" using distinct_addrs [OF st] by simp
  moreover have "inj_on (ro_orderID \<circ> orderHeap e) (set (addrs ?L e Buy @ addrs ?L e Sell))"
    by (rule inj_onI) (use id_inj [OF st] in auto)
  ultimately have "distinct (map (ro_orderID \<circ> orderHeap e) (addrs ?L e Buy @ addrs ?L e Sell))"
    by (simp only: distinct_map)
  then show "distinct (map ro_orderID (a_orders (absB items e) Buy @ a_orders (absB items e) Sell))"
    by (simp add: absB_def absE_def)
  show "index e (ro_orderID m) \<noteq> None" if "m \<in> set (a_orders (absB items e) s)"
    using that index_addrs [OF st] by (auto simp: absB_def absE_def)
  show "ro_side m = s" if "m \<in> set (a_orders (absB items e) s)"
    using that addrs_side(1) [OF st] by (auto simp: absB_def absE_def)
qed

text \<open>Each side is in price-time priority.\<close>

definition priority :: "Side \<Rightarrow> restingOrder \<Rightarrow> restingOrder \<Rightarrow> bool" where
  "priority s x y \<longleftrightarrow> better s (ro_price x) (ro_price y) \<or>
     ro_price x = ro_price y \<and> unat (ro_seq x) < unat (ro_seq y)"

lemma unat_rank:
  assumes "n < 2 ^ 64 - 1"
  shows "unat (of_nat n + 1 :: u64) = n + 1"
proof -
  have "unat (of_nat (n + 1) :: u64) = (n + 1) mod 2 ^ LENGTH(64)" by (rule unat_of_nat)
  also have "\<dots> = n + 1" using assms by (intro mod_less) simp
  finally show ?thesis by (simp only: of_nat_add of_nat_1)
qed

lemma seq_less:
  assumes "a < b" "b < 2 ^ 64 - 1"
  shows "unat (of_nat a + 1 :: u64) < unat (of_nat b + 1 :: u64)"
  unfolding unat_rank [OF assms(2)] unat_rank [OF less_trans [OF assms]] using assms(1) by simp

lemma sorted_concat_levels:
  assumes "sorted_wrt (side_less s) ls" "\<And>l. l \<in> set ls \<Longrightarrow> level_ok e s l" "orderNext e < 2 ^ 64"
  shows "sorted_wrt (priority s) (map (orderHeap e) (concat (map (orders e) ls)))"
  using assms(1,2)
proof (induction ls)
  case (Cons l ls)
  have ok: "level_ok e s l" using Cons.prems(2) by simp
  have "sorted_wrt (\<lambda>a b. priority s (orderHeap e a) (orderHeap e b)) (orders e l)"
  proof (rule sorted_wrt_mono_rel [OF _ level_okD(3) [OF ok]])
    fix a b assume ab: "a \<in> set (orders e l)" "b \<in> set (orders e l)" "a < b"
    have "b < 2 ^ 64 - 1" using level_okD(5) [OF ok ab(2)] assms(3) by simp
    then show "priority s (orderHeap e a) (orderHeap e b)"
      using ab level_okD(7,8) [OF ok] seq_less [of a b] by (simp add: priority_def)
  qed
  moreover have "priority s (orderHeap e a) (orderHeap e b)"
    if "a \<in> set (orders e l)" "l' \<in> set ls" "b \<in> set (orders e l')" for a b l'
    using that Cons.prems level_okD(7) [OF ok] level_okD(7) [OF Cons.prems(2) [of l']]
    by (auto simp: priority_def side_less_better)
  ultimately show ?case
    using Cons by (auto simp: sorted_wrt_append sorted_wrt_map)
qed simp

section \<open>A concrete book\<close>

text \<open>Three sells, two of them at the best price, and orders that meet them.\<close>

definition demo :: "string \<Rightarrow> Side \<Rightarrow> i64 \<Rightarrow> u64 \<Rightarrow> Kind \<Rightarrow> string \<Rightarrow> u32 option \<Rightarrow> Order" where
  "demo i sd p q k orig smp = zeroOrder\<lparr>o_OrderID := i, o_Side := sd, o_Price := p, o_Qty := q, o_Kind := k,
     o_OrigOrderID := orig, o_SMPID := (case smp of None \<Rightarrow> 0 | Some x \<Rightarrow> x), o_HasSMPID := (smp \<noteq> None)\<rparr>"

definition demoBook :: "Order list" where
  "demoBook = [demo ''a'' Sell 101 5 NewLimit [] None, demo ''b'' Sell 100 3 NewLimit [] (Some 7),
     demo ''c'' Sell 100 4 NewLimit [] None]"

definition demoEngine :: "priceLevel ltree Engine" where
  "demoEngine = the (processAll LB (NewEngine LB) demoBook)"

definition demoTaker :: Order where
  "demoTaker = demo ''d'' Buy 101 12 NewLimit [] (Some 7)"

lemma demoBook_ids: "distinct (map o_OrderID demoBook)" "\<forall>o'\<in>set demoBook. o_OrderID o' \<noteq> []"
  by (simp_all add: demoBook_def demo_def)

lemma demoEngine_run:
  "processAll LB (NewEngine LB) demoBook = Some demoEngine" "book_inv LB_wf fst snd demoEngine"
  using lbk.processAll_refines [OF lbk.NewEngine_inv(1) demoBook_ids(1)] demoBook_ids(2)
  by (auto simp: demoEngine_def lbk.NewEngine_inv(3))

lemma demoEngine_Process:
  "fresh_id demoEngine o' \<Longrightarrow> Process LB demoEngine o' = Some (the (Process LB demoEngine o'))"
  using lbk.Process_refines [OF demoEngine_run(2)] by fastforce

lemma demoTaker_fresh: "fresh_id demoEngine demoTaker" "\<not> IsResting demoEngine ''d''" "o_OrderID demoTaker = ''d''"
  "o_Kind demoTaker = NewLimit"
  by code_simp+

section \<open>Properties\<close>

text \<open>
  C1. The engine implements the abstract book. For every implementation of the price trees
  that obeys its documented laws, every engine state that satisfies the invariant and every
  order that would rest under an id not in the book, \<open>Process\<close> returns, keeps the invariant, and
  acts on the priority lists of the two sides exactly as the abstract book does: limit and
  market orders by the price-time walk with self-match prevention, cancels, and replaces in
  place or by re-entry.
\<close>

theorem Process_refines_abstract_book:
  assumes "btree_laws B ok less_of items" "book_inv ok less_of items e" "fresh_id e o'"
  shows "\<exists>e'. Process B e o' = Some e' \<and> book_inv ok less_of items e' \<and>
    absB items e' = a_process o' (absB items e)"
  using book_btree.Process_refines [OF book_btreeI [OF assms(1)] assms(2,3)] by blast

theorem Process_refines_abstract_book_witness:
  "\<exists>e'. Process LB demoEngine demoTaker = Some e' \<and> book_inv LB_wf fst snd e' \<and>
    absB snd e' = a_process demoTaker (absB snd demoEngine)"
  by (rule Process_refines_abstract_book [OF lb.btree_laws_axioms demoEngine_run(2) demoTaker_fresh(1)])

text \<open>
  C2. A whole session. Started from the empty engine, a sequence of orders with distinct
  non-empty ids is processed to the end, whatever the orders are, and the fills, the trades
  and the two sides are those of the abstract book; so they do not depend on the tree
  implementation.
\<close>

theorem session_refines_abstract_book:
  assumes "btree_laws B ok less_of items"
    and "distinct (map o_OrderID os)" "\<forall>o'\<in>set os. o_OrderID o' \<noteq> []"
  shows "\<exists>e. processAll B (NewEngine B) os = Some e \<and> book_inv ok less_of items e \<and>
    absB items e = fold a_process os emptyBook"
proof -
  note bb = book_btreeI [OF assms(1)]
  note new = book_btree.NewEngine_inv [OF bb]
  show ?thesis
    using book_btree.processAll_refines [OF bb new(1) assms(2)] assms(3) unfolding new(2,3) by auto
qed

theorem session_refines_abstract_book_witness:
  "\<exists>e. processAll LB (NewEngine LB) demoBook = Some e \<and> book_inv LB_wf fst snd e \<and>
    absB snd e = fold a_process demoBook emptyBook"
  by (rule session_refines_abstract_book [OF lb.btree_laws_axioms demoBook_ids])

lemma sweep_ids: "sweep o' r ms = (ex, r', ks) \<Longrightarrow> ro_orderID ` set ks \<subseteq> ro_orderID ` set ms"
proof (induction ms arbitrary: r ex ks)
  case (Cons m ms)
  then show ?case by (auto simp: Let_def split: prod.splits if_splits) (metis imageI image_subset_iff)+
qed simp

lemma execTrades_qty: "map (unat \<circ> t_Qty) (execTrades o' ex) = map (unat \<circ> snd) ex"
  by (auto simp: execTrades_def mkTrade_def)

lemma a_find_rested:
  assumes "book_inv ok less_of items e'" "a_orders (absB items e') s = rest_in ro xs" "ro_side ro = s"
  shows "a_find (ro_orderID ro) (absB items e') = Some ro"
  unfolding a_find_def
proof (rule find_unique)
  let ?all = "a_orders (absB items e') Buy @ a_orders (absB items e') Sell"
  show "ro \<in> set ?all" using assms(2) by (cases s) (auto simp: rest_in_def)
  then show "b = ro" if "b \<in> set ?all" "ro_orderID b = ro_orderID ro" for b
    using that book_inv_ids(1) [OF assms(1)] unfolding distinct_map by (meson inj_onD)
qed simp

lemma not_rested:
  assumes "book_inv ok less_of items e" "index e i = None"
    and sw: "sweep o' q (a_orders (absB items e) (oppositeSide sd)) = (ex, r, ks)"
    and opp: "a_orders (absB items e') (oppositeSide sd) = ks"
    and own: "a_orders (absB items e') sd = a_orders (absB items e) sd"
  shows "a_find i (absB items e') = None"
proof -
  have old: "i \<notin> ro_orderID ` set (a_orders (absB items e) s)" for s
    using book_inv_ids(2) [OF assms(1)] assms(2) by (metis imageE)
  have "ro_orderID m \<noteq> i" if m: "m \<in> set (a_orders (absB items e') s)" for m s
  proof (cases "s = sd")
    case True
    then show ?thesis using m own old [of s] by (auto simp: image_iff)
  next
    case False
    then have "s = oppositeSide sd" by (cases s; cases sd) (auto simp: oppositeSide_def)
    then show ?thesis using m opp sweep_ids [OF sw] old [of s] by (metis image_eqI subsetD)
  qed
  then show ?thesis by (auto simp: a_find_def find_None_iff)
qed

text \<open>
  Quantity is conserved. A limit order's quantity is split exactly between the trades it
  makes as a taker and what rests under its id; nothing is lost or invented.
\<close>

lemma limit_order_conserves_quantity:
  assumes "btree_laws B ok less_of items" "book_inv ok less_of items e"
    and "o_Kind o' = NewLimit" "\<not> IsResting e (o_OrderID o')" "Process B e o' = Some e'"
  shows "\<exists>ts. trades e' = trades e @ ts \<and> (\<forall>t\<in>set ts. t_TakerOrderID t = o_OrderID o') \<and>
    sum_list (map (unat \<circ> t_Qty) ts) +
      (case Resting e' (o_OrderID o') of None \<Rightarrow> 0 | Some rs \<Rightarrow> unat (rs_Remaining rs)) = unat (o_Qty o')"
proof -
  let ?opp = "oppositeSide (o_Side o')"
  have fresh: "fresh_id e o'" "index e (o_OrderID o') = None" using assms(3,4) by (simp_all add: fresh_id_def IsResting_def)
  obtain ex r ks where sw: "sweep o' (o_Qty o') (a_orders (absB items e) ?opp) = (ex, r, ks)"
    and tr: "trades e' = trades e @ execTrades o' ex"
    and opp: "a_orders (absB items e') ?opp = ks"
    and own: "a_orders (absB items e') (o_Side o') = (if r > 0 \<and> o_Kind o' = NewLimit
      then rest_in (newResting o' r (seq e + 1)) (a_orders (absB items e) (o_Side o')) else a_orders (absB items e) (o_Side o'))"
    and inv: "book_inv ok less_of items e'"
    by (rule Process_new [OF assms(1,2) fresh(1) _ assms(5)]) (use assms(3) in blast)+
  have "(case Resting e' (o_OrderID o') of None \<Rightarrow> 0 | Some rs \<Rightarrow> unat (rs_Remaining rs)) = unat r"
  proof (cases "r = 0")
    case True
    then show ?thesis
      using not_rested [OF assms(2) fresh(2) sw opp] own by (simp add: Resting_find [OF inv])
  next
    case False
    then have "a_orders (absB items e') (o_Side o') =
        rest_in (newResting o' r (seq e + 1)) (a_orders (absB items e) (o_Side o'))"
      using own assms(3) by (simp add: word_neq_0_conv)
    from a_find_rested [OF inv this] show ?thesis by (simp add: Resting_find [OF inv] newResting_def)
  qed
  moreover have "t_TakerOrderID t = o_OrderID o'" if "t \<in> set (execTrades o' ex)" for t
    using that by (auto simp: execTrades_def mkTrade_def)
  ultimately show ?thesis
    using sweep_conserve [OF sw] tr by (intro exI [of _ "execTrades o' ex"]) (simp add: execTrades_qty)
qed

text \<open>
  C3. No match is missed. When part of a limit order rests, the opposite side holds no order
  it could still trade with: every order left there is outside its limit or carries its own
  self-match-prevention id.
\<close>

theorem resting_order_missed_nothing:
  assumes "btree_laws B ok less_of items" "book_inv ok less_of items e"
    and "o_Kind o' = NewLimit" "\<not> IsResting e (o_OrderID o')" "Process B e o' = Some e'"
    and "IsResting e' (o_OrderID o')" "m \<in> set (a_orders (absB items e') (oppositeSide (o_Side o')))"
  shows "\<not> crosses (o_Side o') (o_Price o') (ro_price m) \<or> sameSMP o' m"
proof -
  let ?opp = "oppositeSide (o_Side o')"
  have fresh: "fresh_id e o'" using assms(3,4) by (simp add: fresh_id_def IsResting_def)
  obtain ex r ks where sw: "sweep o' (o_Qty o') (a_orders (absB items e) ?opp) = (ex, r, ks)"
    and opp: "a_orders (absB items e') ?opp = ks"
    and own: "a_orders (absB items e') (o_Side o') = (if r > 0 \<and> o_Kind o' = NewLimit
      then rest_in (newResting o' r (seq e + 1)) (a_orders (absB items e) (o_Side o')) else a_orders (absB items e) (o_Side o'))"
    and inv: "book_inv ok less_of items e'"
    by (rule Process_new [OF assms(1,2) fresh _ assms(5)]) (use assms(3) in blast)+
  have "r \<noteq> 0"
  proof
    assume "r = 0"
    then have "a_find (o_OrderID o') (absB items e') = None"
      using not_rested [OF assms(2) _ sw opp] own assms(4) by (simp add: IsResting_def)
    then show False using assms(6) Resting_find [OF inv, of "o_OrderID o'"]
      by (auto simp: IsResting_def Resting_def Let_def split: option.splits)
  qed
  from sweep_rest_ineligible [OF sw this] assms(7) opp show ?thesis
    by (auto simp: eligible_def)
qed

theorem resting_order_missed_nothing_witness:
  "let e' = the (Process LB demoEngine demoTaker); m = orderHeap e' 1 in
   IsResting e' ''d'' \<and> ro_orderID m = ''b'' \<and>
   (\<not> crosses Buy 101 (ro_price m) \<or> sameSMP demoTaker m)"
proof -
  let ?e' = "the (Process LB demoEngine demoTaker)"
  have ev: "IsResting ?e' ''d''" "ro_orderID (orderHeap ?e' 1) = ''b''" "o_Side demoTaker = Buy" "o_Price demoTaker = 101"
    "addrs (levels snd ?e') ?e' Sell = [1]"
    by code_simp+
  have "orderHeap ?e' 1 \<in> set (a_orders (absB snd ?e') (oppositeSide (o_Side demoTaker)))"
    by (simp add: absB_def absE_def ev oppositeSide_def)
  then show ?thesis
    using resting_order_missed_nothing [OF lb.btree_laws_axioms demoEngine_run(2), of demoTaker ?e' "orderHeap ?e' 1"]
      demoEngine_Process [OF demoTaker_fresh(1)] demoTaker_fresh ev by (simp add: Let_def)
qed

text \<open>
  C4. Every trade is legal. Each trade an order makes is with an order that rested on the
  opposite side, at that order's price and for no more than it had left, within the limit of
  a limit order, and never between two orders of the same self-match-prevention id.
\<close>

theorem trades_are_legal:
  assumes "btree_laws B ok less_of items" "book_inv ok less_of items e" "fresh_id e o'"
    and "o_Kind o' = NewLimit \<or> o_Kind o' = NewMarket" "Process B e o' = Some e'"
    and "t \<in> set (drop (length (trades e)) (trades e'))"
  shows "(\<exists>m \<in> set (a_orders (absB items e) (oppositeSide (o_Side o'))).
      t_MakerOrderID t = ro_orderID m \<and> t_Price t = ro_price m \<and> t_MakerSeq t = ro_seq m \<and>
      t_Qty t \<le> ro_remaining m) \<and>
    t_TakerOrderID t = o_OrderID o' \<and>
    (o_Kind o' = NewLimit \<longrightarrow> crosses (o_Side o') (o_Price o') (t_Price t)) \<and>
    \<not> (t_MakerHasSMPID t \<and> t_TakerHasSMPID t \<and> t_MakerSMPID t = t_TakerSMPID t)"
proof -
  obtain ex r ks where sw: "sweep o' (o_Qty o') (a_orders (absB items e) (oppositeSide (o_Side o'))) = (ex, r, ks)"
    and tr: "trades e' = trades e @ execTrades o' ex"
    by (rule Process_new [OF assms(1-5)])
  then obtain m q where t: "t = mkTrade o' (ro_price m) m q" "(m, q) \<in> set ex"
    using assms(6) by (auto simp: execTrades_def)
  from sweep_execs [OF sw t(2)] show ?thesis
    by (auto simp: t(1) mkTrade_def eligible_def sameSMP_def)
qed

theorem trades_are_legal_witness:
  "let e' = the (Process LB demoEngine demoTaker); t = trades e' ! 1 in
   (\<exists>m \<in> set (a_orders (absB snd demoEngine) Sell).
      t_MakerOrderID t = ro_orderID m \<and> t_Price t = ro_price m \<and> t_MakerSeq t = ro_seq m \<and>
      t_Qty t \<le> ro_remaining m) \<and>
    t_TakerOrderID t = ''d'' \<and> crosses Buy 101 (t_Price t) \<and>
    \<not> (t_MakerHasSMPID t \<and> t_TakerHasSMPID t \<and> t_MakerSMPID t = t_TakerSMPID t)"
proof -
  let ?e' = "the (Process LB demoEngine demoTaker)"
  have ev: "length (trades demoEngine) = 0" "length (trades ?e') = 2" "o_Side demoTaker = Buy" "o_Price demoTaker = 101"
    by code_simp+
  then have "trades ?e' ! 1 \<in> set (drop (length (trades demoEngine)) (trades ?e'))" by simp
  then show ?thesis
    using trades_are_legal [OF lb.btree_laws_axioms demoEngine_run(2) demoTaker_fresh(1) _
        demoEngine_Process [OF demoTaker_fresh(1)], of "trades ?e' ! 1"] demoTaker_fresh ev
    by (simp add: Let_def oppositeSide_def)
qed

text \<open>
  C5. Price-time priority. Each side of the book is ordered by price and, within a price, by
  arrival; the makers an order trades with are the first ones it may trade with in that
  order, and each of them but the last is filled completely. The arrival ranks are 64-bit
  numbers, so the book must have seen fewer than 2^64 resting orders.
\<close>

theorem price_time_priority:
  assumes "btree_laws B ok less_of items" "book_inv ok less_of items e" "fresh_id e o'"
    and "o_Kind o' = NewLimit \<or> o_Kind o' = NewMarket" "Process B e o' = Some e'"
    and "orderNext e < 2 ^ 64"
  shows "\<exists>ts. let side = a_orders (absB items e) (oppositeSide (o_Side o'));
      ms = take (length ts) (filter (eligible o') side) in
    sorted_wrt (priority (oppositeSide (o_Side o'))) side \<and> trades e' = trades e @ ts \<and>
    map t_MakerOrderID ts = map ro_orderID ms \<and>
    map t_Qty (butlast ts) = map ro_remaining (butlast ms)"
proof -
  let ?opp = "oppositeSide (o_Side o')"
  let ?side = "a_orders (absB items e) ?opp"
  obtain ex r ks where sw: "sweep o' (o_Qty o') ?side = (ex, r, ks)"
    and tr: "trades e' = trades e @ execTrades o' ex"
    by (rule Process_new [OF assms(1-5)])
  have st: "store_inv (levels items e) e" using assms(2) by (simp add: book_inv_def)
  have "sorted_wrt (priority ?opp) ?side"
    using sorted_concat_levels [OF store_invD(2) [OF st] store_invD(3) [OF st] assms(6)]
    by (simp add: absB_def absE_def addrs_def)
  moreover obtain zs where "filter (eligible o') ?side = map fst ex @ zs"
    using sweep_prefix [OF sw] by (auto simp: prefix_def)
  then have ms: "take (length (execTrades o' ex)) (filter (eligible o') ?side) = map fst ex"
    by (simp add: execTrades_def)
  moreover have "map t_MakerOrderID (execTrades o' ex) = map ro_orderID (map fst ex)"
    by (auto simp: execTrades_def mkTrade_def)
  moreover have "map t_Qty (butlast (execTrades o' ex)) = map ro_remaining (butlast (map fst ex))"
    using sweep_butlast [OF sw] by (auto simp: execTrades_def mkTrade_def map_butlast [symmetric])
  ultimately show ?thesis
    using tr by (intro exI [of _ "execTrades o' ex"]) (simp only: Let_def ms simp_thms)
qed

theorem price_time_priority_witness:
  "\<exists>ts. let e' = the (Process LB demoEngine demoTaker); side = a_orders (absB snd demoEngine) Sell;
      ms = take (length ts) (filter (eligible demoTaker) side) in
    sorted_wrt (priority Sell) side \<and> trades e' = trades demoEngine @ ts \<and>
    map t_MakerOrderID ts = map ro_orderID ms \<and>
    map t_Qty (butlast ts) = map ro_remaining (butlast ms)"
proof -
  have "oppositeSide (o_Side demoTaker) = Sell" "orderNext demoEngine = 3" by code_simp+
  then show ?thesis
    using price_time_priority [OF lb.btree_laws_axioms demoEngine_run(2) demoTaker_fresh(1) _
        demoEngine_Process [OF demoTaker_fresh(1)]] demoTaker_fresh(4) by simp
qed

text \<open>
  A cancel removes exactly its target. Afterwards the target does not rest, every other
  id rests as before, nothing traded; and the target is reported as evicted exactly when it
  was resting, so cancelling an unknown order changes nothing.
\<close>

lemma cancel_removes_target:
  assumes "btree_laws B ok less_of items" "book_inv ok less_of items e" "o_Kind o' = Cancel"
  shows "\<exists>e'. Process B e o' = Some e' \<and>
    Resting e' = (Resting e)(o_OrigOrderID o' := None) \<and> trades e' = trades e \<and> fills e' = fills e \<and>
    evicted e' = evicted e @ (if IsResting e (o_OrigOrderID o') then [o_OrigOrderID o'] else []) \<and>
    (\<not> IsResting e (o_OrigOrderID o') \<longrightarrow> e' = e)"
proof -
  let ?i = "o_OrigOrderID o'" and ?e' = "remove B e (o_OrigOrderID o')"
  note bb = book_btreeI [OF assms(1)]
  note r = book_btree.remove_refines [OF bb assms(2), of ?i]
  have find: "a_find ?i (absB items e) = None \<longleftrightarrow> index e ?i = None"
    using a_find_absE [of "levels items e" e ?i] assms(2) by (simp add: book_inv_def absB_def)
  have heap: "orderHeap ?e' = orderHeap e"
    by (simp add: remove_def Let_def setTree_def setOrders_def split: option.split)
  have "Resting ?e' = (Resting e)(?i := None)"
    by (auto simp: Resting_def r(3) heap fun_eq_iff split: option.split)
  moreover have "trades ?e' = trades e" "fills ?e' = fills e"
    by (simp_all add: remove_def Let_def setTree_def setOrders_def split: option.split)
  moreover have "evicted ?e' = evicted e @ (if IsResting e ?i then [?i] else [])"
    using r(2) find by (auto simp: a_remove_def absB_def absE_def IsResting_def dest: arg_cong [of _ _ a_evicted] split: if_splits)
  moreover have "\<not> IsResting e ?i \<longrightarrow> ?e' = e"
    by (simp add: IsResting_def remove_def)
  ultimately show ?thesis using assms(3) by (simp add: Process_def)
qed

text \<open>
  C6. Replaces. A replace of a resting order never trades. When it keeps the price and does
  not raise the quantity, the order keeps its place in the queue of its side; otherwise it
  leaves, and enters again under the new price and quantity behind every order of that
  price, with the self-match-prevention identity of the order it replaces.
\<close>

theorem replace_priority:
  assumes "btree_laws B ok less_of items" "book_inv ok less_of items e" "fresh_id e o'"
    and "o_Kind o' = Replace" "index e (o_OrigOrderID o') = Some a" "ro = orderHeap e a"
  shows "\<exists>e'. Process B e o' = Some e' \<and> trades e' = trades e \<and> fills e' = fills e \<and>
    (if o_Price o' = ro_price ro \<and> o_Qty o' \<le> ro_remaining ro
     then \<forall>s. a_orders (absB items e') s = map (\<lambda>x. if ro_orderID x = o_OrigOrderID o'
            then x\<lparr>ro_remaining := o_Qty o', ro_orderID := orReplaceID o'\<rparr> else x) (a_orders (absB items e) s)
     else \<exists>xs n ys. a_orders (absB items e') (o_Side o') = xs @ n # ys \<and>
            ro_orderID n = orReplaceID o' \<and> ro_price n = o_Price o' \<and> ro_remaining n = o_Qty o' \<and>
            ro_smpID n = ro_smpID ro \<and> ro_hasSMP n = ro_hasSMP ro \<and> (\<forall>y\<in>set ys. ro_price y \<noteq> o_Price o'))"
proof -
  note bb = book_btreeI [OF assms(1)]
  obtain e' where e': "Process B e o' = Some e'" "absB items e' = a_replace o' (absB items e)"
    using book_btree.Process_refines [OF bb assms(2,3)] assms(4) by (auto simp: a_process_def)
  have find: "a_find (o_OrigOrderID o') (absB items e) = Some ro"
    using a_find_absE [of "levels items e" e "o_OrigOrderID o'"] assms(2,5,6) by (simp add: book_inv_def absB_def)
  have tr: "trades e' = trades e" "fills e' = fills e"
    using e'(2) find unfolding absB_def a_replace_def a_insert_def a_remove_def Let_def
    by (auto simp: absE_def dest: arg_cong [of _ _ a_trades] arg_cong [of _ _ a_fills] split: if_splits)
  show ?thesis
  proof (cases "o_Price o' = ro_price ro \<and> o_Qty o' \<le> ro_remaining ro")
    case True
    then show ?thesis using e' tr find by (auto simp: a_replace_def)
  next
    case False
    then have "\<exists>xs n ys. a_orders (absB items e') (o_Side o') = xs @ n # ys \<and>
        ro_orderID n = orReplaceID o' \<and> ro_price n = o_Price o' \<and> ro_remaining n = o_Qty o' \<and>
        ro_smpID n = ro_smpID ro \<and> ro_hasSMP n = ro_hasSMP ro \<and> (\<forall>y\<in>set ys. ro_price y \<noteq> o_Price o')"
      unfolding e'(2) using find
      by (auto simp: a_replace_def a_insert_def Let_def rest_in_def better_def intro!: exI split: if_splits)
    then show ?thesis using e'(1) tr False by auto
  qed
qed

definition demoReplace :: Order where
  "demoReplace = demo ''r'' Sell 101 9 Replace ''b'' None"

theorem replace_priority_witness:
  "\<exists>e'. Process LB demoEngine demoReplace = Some e' \<and> trades e' = trades demoEngine \<and>
    (\<exists>xs n ys. a_orders (absB snd e') Sell = xs @ n # ys \<and>
       ro_orderID n = ''r'' \<and> ro_price n = 101 \<and> ro_remaining n = 9 \<and> ro_smpID n = 7 \<and> ro_hasSMP n \<and>
       (\<forall>y\<in>set ys. ro_price y \<noteq> 101))"
proof -
  have "fresh_id demoEngine demoReplace" "o_Kind demoReplace = Replace" "index demoEngine (o_OrigOrderID demoReplace) = Some 1"
    "o_Price demoReplace = 101" "o_Side demoReplace = Sell" "orReplaceID demoReplace = ''r''" "o_Qty demoReplace = 9"
    "ro_price (orderHeap demoEngine 1) = 100" "ro_smpID (orderHeap demoEngine 1) = 7" "ro_hasSMP (orderHeap demoEngine 1)"
    by code_simp+
  then show ?thesis
    using replace_priority [OF lb.btree_laws_axioms demoEngine_run(2), of demoReplace 1 "orderHeap demoEngine 1"] by auto
qed

lemma ran_Resting: "ran (Resting e) = {\<lparr>rs_OrderID = i, rs_Side = ro_side ro, rs_Price = ro_price ro,
    rs_Seq = ro_seq ro, rs_Remaining = ro_remaining ro, rs_SMPID = ro_smpID ro, rs_HasSMPID = ro_hasSMP ro\<rparr>
    | i a ro. index e i = Some a \<and> ro = orderHeap e a}"
  by (auto simp: ran_def Resting_def Let_def split: option.splits)

text \<open>
  The self-match query. \<open>RestingSMPMatch\<close> answers whether an order with the given id rests
  at the given price of the given side, and it looks at nothing else.
\<close>

lemma RestingSMPMatch_correct:
  assumes "btree_laws B ok less_of items" "book_inv ok less_of items e"
  shows "RestingSMPMatch B e side price smpID \<longleftrightarrow>
    (\<exists>rs \<in> ran (Resting e). rs_Side rs = side \<and> rs_Price rs = price \<and> rs_HasSMPID rs \<and> rs_SMPID rs = smpID)"
proof -
  let ?L = "levels items e"
  let ?Q = "\<lambda>ro. ro_hasSMP ro \<and> ro_smpID ro = smpID"
  have st: "store_inv ?L e" using assms(2) by (simp add: book_inv_def)
  have lvl: "l = l'" if "l \<in> set (?L side)" "l' \<in> set (?L side)" "pl_price l = pl_price l'" for l l'
    using sorted_wrt_unique_price [OF store_invD(2) [OF st] that] .
  have "RestingSMPMatch B e side price smpID \<longleftrightarrow>
      (\<exists>l\<in>set (?L side). pl_price l = price \<and> (\<exists>a\<in>set (orders e l). ?Q (orderHeap e a)))"
  proof (cases "find (\<lambda>l. pl_price l = price) (?L side)")
    case None
    moreover have "\<forall>l\<in>set (?L side). pl_price l \<noteq> price" using None by (auto simp: find_None_iff)
    ultimately show ?thesis
      using book_btree.Get_level [OF book_btreeI [OF assms(1)] assms(2)]
      by (simp add: RestingSMPMatch_def)
  next
    case (Some l)
    then have l: "l \<in> set (?L side)" "pl_price l = price" by (auto simp: find_Some_iff)
    have "(\<exists>l\<in>set (?L side). pl_price l = price \<and> (\<exists>a\<in>set (orders e l). ?Q (orderHeap e a))) \<longleftrightarrow>
        (\<exists>a\<in>set (orders e l). ?Q (orderHeap e a))" using l lvl by metis
    then show ?thesis
      using book_btree.Get_level [OF book_btreeI [OF assms(1)] assms(2)] Some
      by (simp add: RestingSMPMatch_def list_ex_iff)
  qed
  also have "\<dots> \<longleftrightarrow> (\<exists>a\<in>set (addrs ?L e side). ro_price (orderHeap e a) = price \<and> ?Q (orderHeap e a))"
    using level_okD(7) [OF store_invD(3) [OF st]] unfolding mem_addrs Bex_def by metis
  also have "\<dots> \<longleftrightarrow> (\<exists>i a. index e i = Some a \<and> ro_side (orderHeap e a) = side \<and>
      ro_price (orderHeap e a) = price \<and> ?Q (orderHeap e a))"
    using index_addrs [OF st] index_SomeD(1) [OF st] addrs_side(1) [OF st] by metis
  also have "\<dots> \<longleftrightarrow> (\<exists>rs \<in> ran (Resting e). rs_Side rs = side \<and> rs_Price rs = price \<and> rs_HasSMPID rs \<and> rs_SMPID rs = smpID)"
    unfolding ran_Resting by fastforce
  finally show ?thesis .
qed

lemma RestingSMPMatch_correct_witness:
  "RestingSMPMatch LB demoEngine Sell 100 7 \<and>
    (\<exists>rs \<in> ran (Resting demoEngine). rs_Side rs = Sell \<and> rs_Price rs = 100 \<and> rs_HasSMPID rs \<and> rs_SMPID rs = 7)"
proof -
  have "RestingSMPMatch LB demoEngine Sell 100 7" by code_simp
  then show ?thesis
    using RestingSMPMatch_correct [OF lb.btree_laws_axioms demoEngine_run(2), of Sell 100 7] by simp
qed

end
