(* ===== verification/Replay.thy ===== *)
theory Replay
  imports Model "HOL-Library.Product_Lexorder"
begin

text \<open>
  The replay order of a session (\<open>correctness-validator/internal/replay/order.go\<close>): within a TCP
  connection the requests are put in sequence order and a request is promoted to the
  delivery time of the latest of its predecessors (head-of-line blocking); across
  connections they are ordered by that time.

  The code works on pointers: it groups them by flow, sorts every group and writes
  \<open>EffectiveT3\<close> through them. The model keeps the list of orders and sorts the positions of a
  group, so that the write is an update of the list at a position. The groups are disjoint,
  so the order in which the map is traversed does not matter, and the model takes the
  flows in the order of their first occurrence. \<open>Order\<close> sorts a group with \<open>sort.Slice\<close>, which
  need not be stable; the properties are about flows whose sequence numbers differ, where
  every sort gives the same result.
\<close>

section \<open>Definitions\<close>

definition TieToleranceNs :: u64 where
  "TieToleranceNs = 100"

definition seqLess :: "u32 \<Rightarrow> u32 \<Rightarrow> bool" where
  "seqLess a b = (int32 (a - b) < 0)"

definition absDiff :: "u64 \<Rightarrow> u64 \<Rightarrow> u64" where
  "absDiff a b = (if a > b then a - b else b - a)"

definition Less :: "Order \<Rightarrow> Order \<Rightarrow> bool" where
  "Less a b = (if o_EffectiveT3 a \<noteq> o_EffectiveT3 b then o_EffectiveT3 a < o_EffectiveT3 b
     else if o_Flow a \<noteq> o_Flow b then Flow_Less (o_Flow a) (o_Flow b)
     else seqLess (o_TCPSeq a) (o_TCPSeq b))"

definition CrossFlowTie :: "Order \<Rightarrow> Order \<Rightarrow> bool" where
  "CrossFlowTie a b = (if o_Flow a = o_Flow b then False
     else absDiff (o_EffectiveT3 a) (o_EffectiveT3 b) < TieToleranceNs)"

text \<open>The running maximum along one flow; \<open>prev\<close> is \<open>None\<close> while the loop has not started.\<close>

fun promoteRun :: "u64 option \<Rightarrow> u64 list \<Rightarrow> u64 list" where
  "promoteRun prev [] = []"
| "promoteRun prev (t # ts) = (let
     eff = (case prev of None \<Rightarrow> t | Some p \<Rightarrow> if t > p then t else p)
   in eff # promoteRun (Some eff) ts)"

definition setEffective :: "Order list \<Rightarrow> nat \<times> u64 \<Rightarrow> Order list" where
  "setEffective os ie = os[fst ie := (os ! fst ie)\<lparr>o_EffectiveT3 := snd ie\<rparr>]"

text \<open>One pass of the loop over the groups, with the value the flow starts from.\<close>

definition promoteFlow :: "u64 option \<Rightarrow> Flow \<Rightarrow> Order list \<Rightarrow> Order list" where
  "promoteFlow prev f os = (let
     group = filter (\<lambda>i. o_Flow (os ! i) = f) [0..<length os];
     group' = sort_stable (\<lambda>i j. seqLess (o_TCPSeq (os ! i)) (o_TCPSeq (os ! j))) group;
     effs = promoteRun prev (map (\<lambda>i. o_T3Ns (os ! i)) group')
   in foldl setEffective os (zip group' effs))"

definition promoteWith :: "(Flow \<rightharpoonup> u64) \<Rightarrow> Order list \<Rightarrow> Order list" where
  "promoteWith carry os = fold (\<lambda>f. promoteFlow (carry f) f) (remdups (map o_Flow os)) os"

definition replayOrder :: "Order list \<Rightarrow> Order list" where
  "replayOrder orders = sort_stable Less (promoteWith Map.empty orders)"

section \<open>Sequence numbers in a window\<close>

text \<open>
  Sequence numbers are compared by the sign of their 32-bit difference. On numbers that lie
  within half of the number circle after some base this is the order of their distances to
  the base, however the numbers wrap.
\<close>

definition rank :: "(Flow \<Rightarrow> u32) \<Rightarrow> Order \<Rightarrow> nat" where
  "rank base x = unat (o_TCPSeq x - base (o_Flow x))"

definition seq_window :: "(Flow \<Rightarrow> u32) \<Rightarrow> Order list \<Rightarrow> bool" where
  "seq_window base os \<longleftrightarrow> (\<forall>x\<in>set os. rank base x < 2 ^ 31) \<and>
     distinct (map (\<lambda>x. (o_Flow x, o_TCPSeq x)) os)"

lemma sint_diff_neg:
  fixes x y :: u32
  assumes "unat x < 2 ^ 31" "unat y < 2 ^ 31"
  shows "sint (x - y) < 0 \<longleftrightarrow> unat x < unat y"
proof -
  have small: "sint z = uint z" "uint z < 2 ^ 31" if "unat z < 2 ^ 31" for z :: u32
  proof -
    have "int (unat z) < int (2 ^ 31)" using that by (simp only: of_nat_less_iff)
    then show "uint z < 2 ^ 31" by simp
    then have "signed_take_bit 31 (uint z) = uint z"
      by (intro signed_take_bit_int_eq_self) (simp_all add: order_trans [OF _ uint_ge_0])
    then show "sint z = uint z" by (simp add: sint_uint)
  qed
  note s = small [OF assms(1)] small [OF assms(2)]
  have "- (2 ^ 31) \<le> uint x - uint y" "uint x - uint y < 2 ^ 31"
    using s(2,4) uint_ge_0 [of x] uint_ge_0 [of y] by linarith+
  then have "sint (x - y) = uint x - uint y"
    unfolding sint_word_diff s(1,3) by (intro signed_take_bit_int_eq_self) simp_all
  then show ?thesis unfolding word_less_nat_alt [symmetric] word_less_def by simp
qed

lemma seqLess_rank:
  assumes "o_Flow x = o_Flow y" "rank base x < 2 ^ 31" "rank base y < 2 ^ 31"
  shows "seqLess (o_TCPSeq x) (o_TCPSeq y) \<longleftrightarrow> rank base x < rank base y"
proof -
  have "o_TCPSeq x - o_TCPSeq y = (o_TCPSeq x - base (o_Flow x)) - (o_TCPSeq y - base (o_Flow y))"
    using assms(1) by simp
  then show ?thesis
    unfolding seqLess_def int32_def rank_def
    using sint_diff_neg [OF assms(2,3) [unfolded rank_def]] by (simp only:)
qed

lemma rank_inj:
  "o_Flow x = o_Flow y \<Longrightarrow> rank base x = rank base y \<Longrightarrow> o_TCPSeq x = o_TCPSeq y"
  unfolding rank_def word_unat_eq_iff [symmetric] by simp

section \<open>The running maximum\<close>

lemma length_promoteRun [simp]: "length (promoteRun prev ts) = length ts"
  by (induction ts arbitrary: prev) (simp_all add: Let_def)

lemma promoteRun_nth:
  "k < length ts \<Longrightarrow> promoteRun prev ts ! k = Max (set_option prev \<union> set (take (Suc k) ts))"
proof (induction ts arbitrary: prev k)
  case (Cons t ts)
  define e where "e = (case prev of None \<Rightarrow> t | Some p \<Rightarrow> if t > p then t else p)"
  have e: "e = Max (set_option prev \<union> {t})"
    by (cases prev) (auto simp: e_def max_def)
  show ?case
  proof (cases k)
    case 0
    then show ?thesis by (simp add: Let_def e flip: e_def)
  next
    case (Suc j)
    then have "promoteRun prev (t # ts) ! k = Max (insert e (set (take (Suc j) ts)))"
      using Cons by (simp add: Let_def flip: e_def)
    also have "\<dots> = Max ((set_option prev \<union> {t}) \<union> set (take (Suc j) ts))"
    proof (cases "set (take (Suc j) ts) = {}")
      case True
      then show ?thesis unfolding e by simp
    next
      case False
      then show ?thesis
        unfolding e by (subst Max_insert, simp, simp, subst Max_Un) auto
    qed
    finally show ?thesis using Suc by (simp add: Un_assoc)
  qed
qed simp

section \<open>What promotion computes\<close>

text \<open>The promoted time of \<open>x\<close>: the latest \<open>T3Ns\<close> among its own and its predecessors' in the flow.\<close>

definition effOf :: "(Flow \<Rightarrow> u32) \<Rightarrow> u64 option \<Rightarrow> Order list \<Rightarrow> Order \<Rightarrow> u64" where
  "effOf base prev os x = Max (set_option prev \<union>
     {o_T3Ns y | y. y \<in> set os \<and> o_Flow y = o_Flow x \<and> rank base y \<le> rank base x})"

lemma setEffective_length [simp]: "length (setEffective os ie) = length os"
  by (simp add: setEffective_def)

lemma setEffective_nth: "i < length os \<Longrightarrow> setEffective os ie ! i =
    (if fst ie = i then (os ! i)\<lparr>o_EffectiveT3 := snd ie\<rparr> else os ! i)"
  by (simp add: setEffective_def)

lemma foldl_setEffective_length [simp]: "length (foldl setEffective os ies) = length os"
  by (induction ies arbitrary: os) simp_all

lemma foldl_setEffective_other:
  "i < length os \<Longrightarrow> i \<notin> fst ` set ies \<Longrightarrow> foldl setEffective os ies ! i = os ! i"
proof (induction ies arbitrary: os)
  case (Cons ie ies)
  have "foldl setEffective (setEffective os ie) ies ! i = setEffective os ie ! i"
    using Cons.prems by (intro Cons.IH) auto
  also have "\<dots> = os ! i" using Cons.prems by (auto simp: setEffective_nth)
  finally show ?case by simp
qed simp

lemma foldl_setEffective_nth:
  assumes "distinct (map fst ies)" "(i, e) \<in> set ies" "i < length os"
  shows "foldl setEffective os ies ! i = (os ! i)\<lparr>o_EffectiveT3 := e\<rparr>"
  using assms
proof (induction ies arbitrary: os)
  case (Cons ie ies)
  let ?os = "setEffective os ie"
  show ?case
  proof (cases "ie = (i, e)")
    case True
    then have "i \<notin> fst ` set ies" using Cons.prems(1) by auto
    then have "foldl setEffective ?os ies ! i = ?os ! i" using Cons.prems(3) by (intro foldl_setEffective_other) simp_all
    then show ?thesis using True Cons.prems(3) by (simp add: setEffective_nth)
  next
    case False
    then have mem: "(i, e) \<in> set ies" using Cons.prems(2) by auto
    then have "fst ie \<noteq> i" using Cons.prems(1) by (auto simp: rev_image_eqI)
    then have "?os ! i = os ! i" using Cons.prems(3) by (simp add: setEffective_nth)
    moreover have "foldl setEffective ?os ies ! i = (?os ! i)\<lparr>o_EffectiveT3 := e\<rparr>"
      using Cons.prems mem by (intro Cons.IH) simp_all
    ultimately show ?thesis by simp
  qed
qed simp

lemma set_take_sorted:
  fixes r :: "'a \<Rightarrow> 'b::linorder"
  assumes "sorted_wrt (\<lambda>a b. r a \<le> r b) xs" "inj_on r (set xs)" "distinct xs" "k < length xs"
  shows "set (take (Suc k) xs) = {x \<in> set xs. r x \<le> r (xs ! k)}"
proof (intro set_eqI iffI)
  fix x assume "x \<in> set (take (Suc k) xs)"
  then obtain j where j: "j \<le> k" "x = xs ! j" using assms(4) by (auto simp: in_set_conv_nth less_Suc_eq_le)
  have "r (xs ! j) \<le> r (xs ! k)"
    using sorted_wrt_nth_less [OF assms(1), of j k] j(1) assms(4) by (cases "j = k") auto
  then show "x \<in> {x \<in> set xs. r x \<le> r (xs ! k)}" using j assms(4) by auto
next
  fix x assume "x \<in> {x \<in> set xs. r x \<le> r (xs ! k)}"
  then obtain j where j: "j < length xs" "x = xs ! j" "r (xs ! j) \<le> r (xs ! k)" by (auto simp: in_set_conv_nth)
  have "j \<le> k"
  proof (rule ccontr)
    assume "\<not> j \<le> k"
    then have "r (xs ! k) \<le> r (xs ! j)" using sorted_wrt_nth_less [OF assms(1), of k j] j(1) by simp
    then have "xs ! k = xs ! j" using j assms(2,4) by (metis antisym inj_onD nth_mem)
    then show False using \<open>\<not> j \<le> k\<close> assms(3,4) j(1) by (simp add: nth_eq_iff_index_eq)
  qed
  then show "x \<in> set (take (Suc k) xs)"
    using j by (auto simp: in_set_conv_nth intro!: exI [of _ j])
qed

lemma seq_window_rank_inj:
  assumes "seq_window base os" "i < length os" "j < length os" "o_Flow (os ! i) = o_Flow (os ! j)"
    and "rank base (os ! i) = rank base (os ! j)"
  shows "i = j"
proof -
  have "distinct (map (\<lambda>x. (o_Flow x, o_TCPSeq x)) os)" using assms(1) by (simp add: seq_window_def)
  moreover have "o_TCPSeq (os ! i) = o_TCPSeq (os ! j)" using assms(4,5) by (rule rank_inj)
  ultimately show ?thesis using assms(2-4) by (metis (no_types, lifting) distinct_conv_nth length_map nth_map)
qed

lemma promoteFlow_group:
  fixes os :: "Order list" and f :: Flow
  defines "grp \<equiv> sort_stable (\<lambda>i j. seqLess (o_TCPSeq (os ! i)) (o_TCPSeq (os ! j)))
    (filter (\<lambda>i. o_Flow (os ! i) = f) [0..<length os])"
  assumes "seq_window base os"
  shows "set grp = {i. i < length os \<and> o_Flow (os ! i) = f}" "distinct grp"
    "sorted_wrt (\<lambda>i j. rank base (os ! i) \<le> rank base (os ! j)) grp"
    "inj_on (\<lambda>i. rank base (os ! i)) (set grp)"
proof -
  show set: "set grp = {i. i < length os \<and> o_Flow (os ! i) = f}" by (auto simp: grp_def)
  show "distinct grp" by (simp add: grp_def)
  have w: "rank base (os ! i) < 2 ^ 31" if "i < length os" for i
    using assms(2) that by (auto simp: seq_window_def)
  have lt: "seqLess (o_TCPSeq (os ! i)) (o_TCPSeq (os ! j)) \<longleftrightarrow> rank base (os ! i) < rank base (os ! j)"
    if "i \<in> set grp" "j \<in> set grp" for i j
    using that w by (intro seqLess_rank) (auto simp: set)
  have "strict_weak_on (set grp) (\<lambda>i j. seqLess (o_TCPSeq (os ! i)) (o_TCPSeq (os ! j)))"
    using lt by (auto simp: strict_weak_on_def)
  then have "sorted_wrt (\<lambda>i j. \<not> seqLess (o_TCPSeq (os ! j)) (o_TCPSeq (os ! i))) grp"
    unfolding grp_def by (intro sorted_sort_stable) simp
  then show "sorted_wrt (\<lambda>i j. rank base (os ! i) \<le> rank base (os ! j)) grp"
    by (rule sorted_wrt_mono_rel [rotated]) (use lt in auto)
  show "inj_on (\<lambda>i. rank base (os ! i)) (set grp)"
    by (rule inj_onI) (use seq_window_rank_inj [OF assms(2)] set in auto)
qed

lemma promoteFlow_spec:
  assumes "seq_window base os"
  shows "promoteFlow prev f os =
    map (\<lambda>x. if o_Flow x = f then x\<lparr>o_EffectiveT3 := effOf base prev os x\<rparr> else x) os"
proof (rule nth_equalityI)
  define grp where "grp = sort_stable (\<lambda>i j. seqLess (o_TCPSeq (os ! i)) (o_TCPSeq (os ! j)))
    (filter (\<lambda>i. o_Flow (os ! i) = f) [0..<length os])"
  define effs where "effs = promoteRun prev (map (\<lambda>i. o_T3Ns (os ! i)) grp)"
  note g = promoteFlow_group [OF assms, of f, folded grp_def]
  have pf: "promoteFlow prev f os = foldl setEffective os (zip grp effs)"
    by (simp add: promoteFlow_def Let_def grp_def effs_def)
  have len: "length effs = length grp" by (simp add: effs_def)
  have fst_zip: "fst ` set (zip grp effs) = set grp" using len by (metis list.set_map map_fst_zip)
  show "length (promoteFlow prev f os) = length (map (\<lambda>x. if o_Flow x = f then x\<lparr>o_EffectiveT3 := effOf base prev os x\<rparr> else x) os)"
    by (simp add: pf)
  fix i assume "i < length (promoteFlow prev f os)"
  then have i: "i < length os" by (simp add: pf)
  show "promoteFlow prev f os ! i = map (\<lambda>x. if o_Flow x = f then x\<lparr>o_EffectiveT3 := effOf base prev os x\<rparr> else x) os ! i"
  proof (cases "o_Flow (os ! i) = f")
    case False
    then have "i \<notin> fst ` set (zip grp effs)" unfolding fst_zip g(1) by simp
    then show ?thesis using False i by (simp add: pf foldl_setEffective_other)
  next
    case True
    then obtain k where k: "k < length grp" "grp ! k = i" using g(1) i by (metis (mono_tags, lifting) in_set_conv_nth mem_Collect_eq)
    have "(i, effs ! k) \<in> set (zip grp effs)" using k len by (metis (no_types, lifting) in_set_conv_nth length_zip min.idem nth_zip)
    then have "promoteFlow prev f os ! i = (os ! i)\<lparr>o_EffectiveT3 := effs ! k\<rparr>"
      unfolding pf using g(2) len i by (intro foldl_setEffective_nth) simp_all
    moreover have "effs ! k = effOf base prev os (os ! i)"
    proof -
      have "set (take (Suc k) grp) = {j \<in> set grp. rank base (os ! j) \<le> rank base (os ! i)}"
        using set_take_sorted [OF g(3,4,2) k(1)] k(2) by simp
      then have "set (take (Suc k) (map (\<lambda>i. o_T3Ns (os ! i)) grp)) =
          {o_T3Ns y | y. y \<in> set os \<and> o_Flow y = f \<and> rank base y \<le> rank base (os ! i)}"
        unfolding take_map set_map g(1) by (auto simp: in_set_conv_nth image_iff)
      then show ?thesis
        using k(1) True by (simp add: effs_def promoteRun_nth effOf_def)
    qed
    ultimately show ?thesis using True i by simp
  qed
qed

text \<open>The orders with the flows of \<open>D\<close> promoted.\<close>

definition promotedIn :: "(Flow \<Rightarrow> u32) \<Rightarrow> (Flow \<rightharpoonup> u64) \<Rightarrow> Order list \<Rightarrow> Flow set \<Rightarrow> Order list" where
  "promotedIn base carry os D = map (\<lambda>x. if o_Flow x \<in> D
     then x\<lparr>o_EffectiveT3 := effOf base (carry (o_Flow x)) os x\<rparr> else x) os"

lemma rank_upd [simp]: "rank base (x\<lparr>o_EffectiveT3 := e\<rparr>) = rank base x"
  by (simp add: rank_def)

lemma seq_window_keys:
  assumes "map o_Flow os' = map o_Flow os" "map o_TCPSeq os' = map o_TCPSeq os"
  shows "seq_window base os' = seq_window base os"
proof -
  have len: "length os' = length os" using assms(1) by (metis length_map)
  have nth: "o_Flow (os' ! i) = o_Flow (os ! i) \<and> o_TCPSeq (os' ! i) = o_TCPSeq (os ! i)" if "i < length os" for i
    using assms len that by (metis nth_map)
  have "map (\<lambda>x. (o_Flow x, o_TCPSeq x)) os' = map (\<lambda>x. (o_Flow x, o_TCPSeq x)) os"
    using len nth by (auto intro: nth_equalityI)
  moreover have "(\<forall>x\<in>set os'. rank base x < 2 ^ 31) = (\<forall>x\<in>set os. rank base x < 2 ^ 31)"
    unfolding all_set_conv_all_nth len rank_def using nth by simp
  ultimately show ?thesis unfolding seq_window_def by simp
qed

lemma effOf_promotedIn: "effOf base prev (promotedIn base carry os D) x = effOf base prev os x"
proof -
  have "{o_T3Ns y | y. y \<in> set (promotedIn base carry os D) \<and> o_Flow y = o_Flow x \<and> rank base y \<le> rank base x}
      = {o_T3Ns y | y. y \<in> set os \<and> o_Flow y = o_Flow x \<and> rank base y \<le> rank base x}"
    (is "?A = ?B")
  proof
    show "?A \<subseteq> ?B" by (force simp: promotedIn_def split: if_splits)
    show "?B \<subseteq> ?A"
    proof
      fix t assume "t \<in> ?B"
      then obtain y where y: "t = o_T3Ns y" "y \<in> set os" "o_Flow y = o_Flow x" "rank base y \<le> rank base x" by blast
      let ?y = "if o_Flow y \<in> D then y\<lparr>o_EffectiveT3 := effOf base (carry (o_Flow y)) os y\<rparr> else y"
      have "?y \<in> set (promotedIn base carry os D)" using y(2) by (auto simp: promotedIn_def)
      moreover have "o_T3Ns ?y = t" "o_Flow ?y = o_Flow x" "rank base ?y \<le> rank base x" using y by auto
      ultimately show "t \<in> ?A" by blast
    qed
  qed
  then show ?thesis by (simp add: effOf_def)
qed

lemma effOf_upd [simp]: "effOf base prev os (x\<lparr>o_EffectiveT3 := e\<rparr>) = effOf base prev os x"
  by (simp add: effOf_def)

lemma promoteFlow_promotedIn:
  assumes "seq_window base os" "f \<notin> D"
  shows "promoteFlow (carry f) f (promotedIn base carry os D) = promotedIn base carry os (insert f D)"
proof -
  have sw: "seq_window base (promotedIn base carry os D)"
    using assms(1) by (subst seq_window_keys [of _ os]) (auto simp: promotedIn_def)
  show ?thesis
    unfolding promoteFlow_spec [OF sw] effOf_promotedIn using assms(2) by (auto simp: promotedIn_def)
qed

lemma promoteWith_spec:
  assumes "seq_window base os"
  shows "promoteWith carry os = map (\<lambda>x. x\<lparr>o_EffectiveT3 := effOf base (carry (o_Flow x)) os x\<rparr>) os"
proof -
  have "fold (\<lambda>f. promoteFlow (carry f) f) fs (promotedIn base carry os D) = promotedIn base carry os (set fs \<union> D)"
    if "distinct fs" "set fs \<inter> D = {}" for fs D
    using that
  proof (induction fs arbitrary: D)
    case (Cons f fs)
    then show ?case using Cons.IH [of "insert f D"] promoteFlow_promotedIn [OF assms, of f D carry] by simp
  qed simp
  from this [of "remdups (map o_Flow os)" "{}"]
  show ?thesis by (simp add: promoteWith_def promotedIn_def)
qed

section \<open>The order of the session\<close>

text \<open>On a window, \<open>Less\<close> compares a tuple lexicographically, so it is a linear order of the orders.\<close>

definition key :: "(Flow \<Rightarrow> u32) \<Rightarrow> Order \<Rightarrow> u64 \<times> u32 \<times> u16 \<times> nat" where
  "key base x = (o_EffectiveT3 x, SrcIP (o_Flow x), SrcPort (o_Flow x), rank base x)"

lemma Less_key:
  assumes "rank base x < 2 ^ 31" "rank base y < 2 ^ 31"
  shows "Less x y \<longleftrightarrow> key base x < key base y"
proof (cases "o_Flow x = o_Flow y")
  case True
  then show ?thesis using seqLess_rank [OF True assms] by (auto simp: Less_def key_def)
next
  case False
  then have "SrcIP (o_Flow x) \<noteq> SrcIP (o_Flow y) \<or> SrcPort (o_Flow x) \<noteq> SrcPort (o_Flow y)"
    using Flow_eqI by blast
  then show ?thesis using False by (auto simp: Less_def key_def Flow_Less_def)
qed

lemma strict_weak_key:
  fixes k :: "'a \<Rightarrow> 'b::linorder"
  assumes "\<And>x y. x \<in> A \<Longrightarrow> y \<in> A \<Longrightarrow> lt x y \<longleftrightarrow> k x < k y"
  shows "strict_weak_on A lt"
  using assms unfolding strict_weak_on_def by auto

definition promoted :: "(Flow \<Rightarrow> u32) \<Rightarrow> Order list \<Rightarrow> Order list" where
  "promoted base os = map (\<lambda>x. x\<lparr>o_EffectiveT3 := effOf base None os x\<rparr>) os"

lemma promoteWith_promoted: "seq_window base os \<Longrightarrow> promoteWith Map.empty os = promoted base os"
  by (simp add: promoteWith_spec promoted_def)

lemma seq_window_promoted [simp]: "seq_window base (promoted base os) = seq_window base os"
  by (rule seq_window_keys) (simp_all add: promoted_def)

lemma key_inj:
  assumes "seq_window base os" "x \<in> set os" "y \<in> set os" "key base x = key base y"
  shows "x = y"
proof -
  obtain i j where ij: "i < length os" "x = os ! i" "j < length os" "y = os ! j"
    using assms(2,3) by (auto simp: in_set_conv_nth)
  have "o_Flow x = o_Flow y" using assms(4) by (intro Flow_eqI) (simp_all add: key_def)
  moreover have "rank base x = rank base y" using assms(4) by (simp add: key_def)
  ultimately have "i = j" using seq_window_rank_inj [OF assms(1) ij(1,3)] ij(2,4) by blast
  then show ?thesis using ij by simp
qed

lemma Less_window:
  assumes "seq_window base os" "x \<in> set os" "y \<in> set os"
  shows "Less x y \<longleftrightarrow> key base x < key base y"
  using assms by (intro Less_key) (auto simp: seq_window_def)

lemma strict_weak_Less: "seq_window base os \<Longrightarrow> strict_weak_on (set os) Less"
  by (rule strict_weak_key [where k = "key base"]) (rule Less_window)

lemma sorted_by_key:
  assumes "seq_window base os"
  shows "sorted_wrt (\<lambda>x y. key base x < key base y) (sort_stable Less os)"
proof -
  have d: "distinct os" using assms by (auto simp: seq_window_def distinct_map)
  have "sorted_wrt (\<lambda>x y. \<not> Less y x) (sort_stable Less os)"
    by (rule sorted_sort_stable [OF strict_weak_Less [OF assms]])
  then have le: "sorted_wrt (\<lambda>x y. key base x \<le> key base y) (sort_stable Less os)"
    by (rule sorted_wrt_mono_rel [rotated]) (use Less_window [OF assms] in \<open>auto simp: not_less\<close>)
  moreover have "distinct (map (key base) (sort_stable Less os))"
    using d key_inj [OF assms] by (auto simp: distinct_map inj_on_def)
  ultimately show ?thesis
    by (auto simp: sorted_wrt_iff_nth_less distinct_conv_nth less_le)
qed

lemma finite_preds: "finite {o_T3Ns y | y. y \<in> set os \<and> P y}"
  using finite_imageI [of "{y \<in> set os. P y}" o_T3Ns] by (simp add: image_def Bex_def conj_commute)

lemma effOf_mono:
  assumes "x \<in> set os" "y \<in> set os" "o_Flow y = o_Flow x" "rank base y \<le> rank base x"
  shows "effOf base prev os y \<le> effOf base prev os x"
  unfolding effOf_def
proof (rule Max_mono)
  show "set_option prev \<union> {o_T3Ns z | z. z \<in> set os \<and> o_Flow z = o_Flow y \<and> rank base z \<le> rank base y}
      \<subseteq> set_option prev \<union> {o_T3Ns z | z. z \<in> set os \<and> o_Flow z = o_Flow x \<and> rank base z \<le> rank base x}"
    using assms(3,4) by auto
  show "finite (set_option prev \<union> {o_T3Ns z | z. z \<in> set os \<and> o_Flow z = o_Flow x \<and> rank base z \<le> rank base x})"
    using finite_preds [of os "\<lambda>z. o_Flow z = o_Flow x \<and> rank base z \<le> rank base x"] by (cases prev) auto
  show "set_option prev \<union> {o_T3Ns z | z. z \<in> set os \<and> o_Flow z = o_Flow y \<and> rank base z \<le> rank base y} \<noteq> {}"
    using assms(2) by auto
qed

lemma set_promoted: "x \<in> set (promoted base os) \<Longrightarrow>
    \<exists>y\<in>set os. x = y\<lparr>o_EffectiveT3 := effOf base None os y\<rparr>"
  by (auto simp: promoted_def)

lemma promoted_key_order:
  assumes "seq_window base os" "x \<in> set (promoted base os)" "y \<in> set (promoted base os)"
    and "o_Flow x = o_Flow y" "key base x < key base y"
  shows "rank base x < rank base y"
proof (rule ccontr)
  assume "\<not> rank base x < rank base y"
  then have le: "rank base y \<le> rank base x" by simp
  obtain u v where uv: "u \<in> set os" "x = u\<lparr>o_EffectiveT3 := effOf base None os u\<rparr>"
    "v \<in> set os" "y = v\<lparr>o_EffectiveT3 := effOf base None os v\<rparr>"
    using set_promoted [OF assms(2)] set_promoted [OF assms(3)] by blast
  then have "o_EffectiveT3 y \<le> o_EffectiveT3 x"
    using effOf_mono [of u os v base None] assms(4) le by simp
  with le assms(4,5) show False by (auto simp: key_def)
qed

section \<open>Properties\<close>

text \<open>Requests of two connections; the sequence numbers of the first wrap around.\<close>

definition demoReq :: "string \<Rightarrow> u16 \<Rightarrow> u32 \<Rightarrow> u64 \<Rightarrow> Order" where
  "demoReq i port sq t3 = zeroOrder\<lparr>o_OrderID := i, o_Flow := \<lparr>SrcIP = 1, SrcPort = port\<rparr>, o_TCPSeq := sq, o_T3Ns := t3\<rparr>"

definition demoSession :: "Order list" where
  "demoSession = [demoReq ''b'' 1 0 10, demoReq ''c'' 2 7 30, demoReq ''a'' 1 4294967295 20]"

lemma demoSession_window: "seq_window (\<lambda>f. if SrcPort f = 1 then 4294967200 else 0) demoSession"
  by (simp add: seq_window_def demoSession_def demoReq_def rank_def)

text \<open>
  C7. The replay order. When the sequence numbers of every connection lie within half of the
  32-bit circle, \<open>Order\<close> returns exactly the given requests, each promoted to the latest
  ingress time among its own and those of its predecessors on the connection, strictly
  ordered by that time, then by connection, then by sequence number.
\<close>

theorem replayOrder_correct:
  assumes "seq_window base os"
  shows "mset (replayOrder os) = mset (map (\<lambda>x. x\<lparr>o_EffectiveT3 := Max {o_T3Ns y | y. y \<in> set os \<and>
      o_Flow y = o_Flow x \<and> rank base y \<le> rank base x}\<rparr>) os) \<and>
    sorted_wrt (\<lambda>x y. key base x < key base y) (replayOrder os)"
proof -
  have "seq_window base (promoted base os)" using assms by simp
  from sorted_by_key [OF this] show ?thesis
    by (simp add: replayOrder_def promoteWith_promoted [OF assms]) (simp add: promoted_def effOf_def)
qed

theorem replayOrder_correct_witness:
  "let base = (\<lambda>f. if SrcPort f = 1 then 4294967200 else 0); os = demoSession in
   map (\<lambda>x. (o_OrderID x, o_EffectiveT3 x)) (replayOrder os) = [(''a'', 20), (''b'', 20), (''c'', 30)] \<and>
   mset (replayOrder os) = mset (map (\<lambda>x. x\<lparr>o_EffectiveT3 := Max {o_T3Ns y | y. y \<in> set os \<and>
      o_Flow y = o_Flow x \<and> rank base y \<le> rank base x}\<rparr>) os) \<and>
   sorted_wrt (\<lambda>x y. key base x < key base y) (replayOrder os)"
proof -
  have "map (\<lambda>x. (o_OrderID x, o_EffectiveT3 x)) (replayOrder demoSession) = [(''a'', 20), (''b'', 20), (''c'', 30)]"
    by code_simp
  then show ?thesis using replayOrder_correct [OF demoSession_window] by (simp add: Let_def)
qed

text \<open>
  Replay keeps the order of every connection: of two requests of one connection, the one
  with the earlier sequence number is replayed first, whatever their ingress times.
\<close>

lemma replay_keeps_connection_order:
  assumes "seq_window base os"
  shows "sorted_wrt (\<lambda>x y. o_Flow x = o_Flow y \<longrightarrow> seqLess (o_TCPSeq x) (o_TCPSeq y)) (replayOrder os)"
proof -
  let ?P = "promoted base os"
  have w: "seq_window base ?P" using assms by simp
  have "sorted_wrt (\<lambda>x y. key base x < key base y) (sort_stable Less ?P)" by (rule sorted_by_key [OF w])
  then have "sorted_wrt (\<lambda>x y. o_Flow x = o_Flow y \<longrightarrow> seqLess (o_TCPSeq x) (o_TCPSeq y)) (sort_stable Less ?P)"
  proof (rule sorted_wrt_mono_rel [rotated], intro impI)
    fix x y assume xy: "x \<in> set (sort_stable Less ?P)" "y \<in> set (sort_stable Less ?P)"
      "key base x < key base y" "o_Flow x = o_Flow y"
    then have "rank base x < rank base y" using promoted_key_order [OF assms] by simp
    then show "seqLess (o_TCPSeq x) (o_TCPSeq y)"
      using seqLess_rank [OF xy(4), of base] xy(1,2) w by (simp add: seq_window_def)
  qed
  then show ?thesis by (simp add: replayOrder_def promoteWith_promoted [OF assms])
qed

text \<open>
  The replay order does not depend on the order of arrival: any two sequences of the same
  requests are replayed alike.
\<close>

lemma replay_arrival_independent:
  assumes "seq_window base os" "mset os' = mset os"
  shows "replayOrder os' = replayOrder os"
proof -
  have eq: "set os' = set os" using assms(2) by (metis set_mset_mset)
  have "mset (map (\<lambda>x. (o_Flow x, o_TCPSeq x)) os') = mset (map (\<lambda>x. (o_Flow x, o_TCPSeq x)) os)"
    using assms(2) by simp
  from mset_eq_imp_distinct_iff [OF this] have w': "seq_window base os'"
    using assms(1) eq by (simp add: seq_window_def)
  have m: "mset (promoted base os') = mset (promoted base os)"
    using assms(2) eq by (simp add: promoted_def effOf_def)
  have w: "seq_window base (promoted base os')" using w' by simp
  have "sort_stable Less (promoted base os') = sort_stable Less (promoted base os)"
  proof (rule sort_stable_perm [OF m strict_weak_Less [OF w]])
    fix a b assume ab: "a \<in> set (promoted base os')" "b \<in> set (promoted base os')" "a \<noteq> b"
    then have "key base a \<noteq> key base b" using key_inj [OF w] by blast
    then show "Less a b \<or> Less b a" using Less_window [OF w] ab by (auto simp: neq_iff)
  qed
  then show ?thesis by (simp add: replayOrder_def promoteWith_promoted [OF assms(1)] promoteWith_promoted [OF w'])
qed

end
