(* ===== verification/Topics.thy ===== *)
theory Topics
  imports Prelude
begin

text \<open>
  The shared schema package (\<open>schemas/go/topics/topics.go\<close>): the protocol declaration of a
  submission, the placement of an order on a Kafka partition of its session's band, and the
  events the correctness validator, the score computer and the controller exchange.

  Timestamps of type \<open>time.Time\<close> in the events are not used by the modelled code and are left
  out of the records. \<open>strings.ToUpper\<close> and \<open>strings.TrimSpace\<close> are given on ASCII strings, the
  only ones a protocol declaration can consist of and be accepted for what it says.
\<close>

section \<open>Constants\<close>

definition TelemetryPriceScale :: u64 where
  "TelemetryPriceScale = 1000000000"

definition PortFIX :: u16 where
  "PortFIX = 9898"

definition PortHTTPWS :: u16 where
  "PortHTTPWS = 8080"

definition OrderBandUnset :: u32 where
  "OrderBandUnset = 0xFFFFFFFF"

definition SMPIDNone :: u32 where
  "SMPIDNone = 0xFFFFFFFF"

definition ProtocolAll :: string where
  "ProtocolAll = ''ALL''"

section \<open>Protocol declarations\<close>

definition is_ascii :: "string \<Rightarrow> bool" where
  "is_ascii s = list_all (\<lambda>c. of_char c < (128 :: nat)) s"

definition upper_char :: "char \<Rightarrow> char" where
  "upper_char c = (if 97 \<le> (of_char c :: nat) \<and> (of_char c :: nat) \<le> 122
     then char_of ((of_char c :: nat) - 32) else c)"

definition strings_ToUpper :: "string \<Rightarrow> string" where
  "strings_ToUpper = map upper_char"

definition is_space :: "char \<Rightarrow> bool" where
  "is_space c = (let n = (of_char c :: nat) in n = 32 \<or> 9 \<le> n \<and> n \<le> 13)"

definition strings_TrimSpace :: "string \<Rightarrow> string" where
  "strings_TrimSpace s = rev (dropWhile is_space (rev (dropWhile is_space s)))"

text \<open>\<open>strings.Split\<close> with a one-byte separator: the empty string has one, empty, part.\<close>

fun strings_Split :: "char \<Rightarrow> string \<Rightarrow> string list" where
  "strings_Split sep [] = [[]]"
| "strings_Split sep (c # cs) = (case strings_Split sep cs of
     [] \<Rightarrow> [[c]]
   | p # ps \<Rightarrow> if c = sep then [] # p # ps else (c # p) # ps)"

datatype protocol_error = InvalidElement string | DuplicateProtocol string | EmptyDeclaration

fun parseParts :: "string list \<Rightarrow> string list \<Rightarrow> protocol_error + string list" where
  "parseParts out [] = Inr out"
| "parseParts out (p # ps) = (let p' = strings_TrimSpace (strings_ToUpper p) in
     if p' \<notin> {''FIX'', ''REST'', ''WS''} then Inl (InvalidElement p')
     else if p' \<in> set out then Inl (DuplicateProtocol p')
     else parseParts (out @ [p']) ps)"

definition ParseProtocols :: "string \<Rightarrow> protocol_error + string list" where
  "ParseProtocols decl =
     (if strings_TrimSpace (strings_ToUpper decl) = ProtocolAll then Inr [''FIX'', ''REST'', ''WS'']
      else case parseParts [] (strings_Split (CHR '','') decl) of
        Inl e \<Rightarrow> Inl e
      | Inr out \<Rightarrow> if out = [] then Inl EmptyDeclaration else Inr out)"

definition PortForProtocol :: "string \<Rightarrow> u16" where
  "PortForProtocol protocol = (if protocol = ''FIX'' then PortFIX else PortHTTPWS)"

section \<open>Band placement\<close>

text \<open>FNV-1a over the bytes of a string.\<close>

definition fnv1a64 :: "string \<Rightarrow> u64" where
  "fnv1a64 s = foldl (\<lambda>hash c. xor hash (of_nat (of_char c)) * 0x100000001b3) 0xcbf29ce484222325 s"

text \<open>The width a band really has: at least one partition, at most all of them.\<close>

definition clampWidth :: "int \<Rightarrow> int \<Rightarrow> int" where
  "clampWidth numPartitions bandWidth =
     (let w = (if bandWidth < 1 then 1 else bandWidth) in if w > numPartitions then numPartitions else w)"

definition BandPartition :: "u32 \<Rightarrow> string \<Rightarrow> int \<Rightarrow> int \<Rightarrow> int" where
  "BandPartition band orderID numPartitions bandWidth =
     (if numPartitions \<le> 1 then 0
      else let
        w = clampWidth numPartitions bandWidth;
        base = int32_of_int (uint band * w);
        within = int32_of_int (uint (fnv1a64 orderID mod of_int w))
      in go_mod (int32_of_int (base + within)) numPartitions)"

definition SessionBandPartition :: "string \<Rightarrow> string \<Rightarrow> int \<Rightarrow> int \<Rightarrow> int" where
  "SessionBandPartition sessionID orderID numPartitions bandWidth =
     (if numPartitions \<le> 1 then 0
      else let
        w = clampWidth numPartitions bandWidth;
        numBands0 = int32_of_int (numPartitions + w - 1) div w;
        numBands = (if numBands0 < 1 then 1 else numBands0);
        band = int32_of_int (uint (fnv1a64 sessionID mod of_int numBands));
        base = int32_of_int (band * w);
        within = int32_of_int (uint (fnv1a64 orderID mod of_int w))
      in go_mod (int32_of_int (base + within)) numPartitions)"

section \<open>Events\<close>

record OrderSentEvent =
  s_SessionID :: string
  s_SubmissionID :: string
  s_WorkerID :: string
  s_TaskID :: u32
  s_OrderID :: string
  s_TargetSendTSNS :: u64
  s_SendTSNS :: u64
  s_RecvDoneTSNS :: u64
  s_TimedOut :: bool
  s_Price :: u64
  s_Qty :: u64
  s_Side :: string
  s_PayloadType :: string
  s_OrdType :: string
  s_OrigOrderID :: string
  s_BarrierEpochNs :: u64
  s_SMPID :: u32

record OrderSentEventFields =
  sf_TaskID :: u32
  sf_OrderID :: string
  sf_TargetSendTSNS :: u64
  sf_SendTSNS :: u64
  sf_RecvDoneTSNS :: u64
  sf_TimedOut :: bool
  sf_Price :: u64
  sf_Qty :: u64
  sf_Side :: string
  sf_PayloadType :: string
  sf_OrdType :: string
  sf_OrigOrderID :: string
  sf_BarrierEpochNs :: u64
  sf_SMPID :: u32

record OrderSentBatchV2 =
  sb_SessionID :: string
  sb_SubmissionID :: string
  sb_WorkerID :: string
  sb_Events :: "OrderSentEventFields list"

definition intoEvent :: "OrderSentBatchV2 \<Rightarrow> OrderSentEventFields \<Rightarrow> OrderSentEvent" where
  "intoEvent b f = \<lparr>s_SessionID = sb_SessionID b, s_SubmissionID = sb_SubmissionID b,
     s_WorkerID = sb_WorkerID b, s_TaskID = sf_TaskID f, s_OrderID = sf_OrderID f,
     s_TargetSendTSNS = sf_TargetSendTSNS f, s_SendTSNS = sf_SendTSNS f,
     s_RecvDoneTSNS = sf_RecvDoneTSNS f, s_TimedOut = sf_TimedOut f, s_Price = sf_Price f,
     s_Qty = sf_Qty f, s_Side = sf_Side f, s_PayloadType = sf_PayloadType f,
     s_OrdType = sf_OrdType f, s_OrigOrderID = sf_OrigOrderID f,
     s_BarrierEpochNs = sf_BarrierEpochNs f, s_SMPID = sf_SMPID f\<rparr>"

definition IntoEvents :: "OrderSentBatchV2 \<Rightarrow> OrderSentEvent list" where
  "IntoEvents b = map (intoEvent b) (sb_Events b)"

record OrderAckedEvent =
  a_SessionID :: string
  a_ContestantID :: string
  a_OrderID :: string
  a_SrcIP :: u32
  a_SrcPort :: u16
  a_TCPSeq :: u32
  a_T3XDPIngressNS :: u64
  a_T7XDPEgressNS :: u64
  a_PodServiceTimeNS :: u64
  a_ExecType :: string
  a_FillQty :: u64
  a_FillPrice :: u64
  a_OrigOrderID :: string
  a_ReorderingDetected :: bool
  a_RetransmissionCount :: u32

record OrderAckedBatch =
  ab_SessionID :: string
  ab_ContestantID :: string
  ab_Events :: "OrderAckedEvent list"

record TaskSpec =
  TaskID :: u32
  Profile :: string
  TargetRPS :: u32
  StartOffsetNs :: u64
  DurationNs :: u64
  MarketPct :: u8
  CancelPct :: u8
  ReplacePct :: u8
  TargetIdx :: u8
  SMPIDCount :: u32

record TargetSpec =
  ts_Protocol :: string
  ts_Port :: u16

record WorkloadSpec =
  w_SessionID :: string
  w_SubmissionID :: string
  w_ContestantID :: string
  w_TargetHost :: string
  w_TargetPort :: u16
  w_Protocol :: string
  w_Targets :: "TargetSpec list"
  w_WorkerIndex :: u32
  w_WorkerCount :: u32
  w_GlobalSeed :: u64
  w_FIXVersion :: string
  w_ConnectTimeoutMS :: u64
  w_WriteTimeoutMS :: u64
  w_PublishedAtUnixNS :: u64
  w_OrderBand :: u32
  w_Tasks :: "TaskSpec list"

definition ResolvedTargets :: "WorkloadSpec \<Rightarrow> TargetSpec list" where
  "ResolvedTargets w = (if length (w_Targets w) > 0 then w_Targets w
     else [\<lparr>ts_Protocol = w_Protocol w, ts_Port = w_TargetPort w\<rparr>])"

section \<open>The status of a run\<close>

definition RunStatusQueued :: string where
  "RunStatusQueued = ''queued''"

definition RunStatusDeploying :: string where
  "RunStatusDeploying = ''deploying''"

definition RunStatusWaitingReady :: string where
  "RunStatusWaitingReady = ''waiting_ready''"

definition RunStatusBarrierFired :: string where
  "RunStatusBarrierFired = ''barrier_fired''"

definition RunStatusRunning :: string where
  "RunStatusRunning = ''running''"

definition RunStatusCompleted :: string where
  "RunStatusCompleted = ''completed''"

definition RunStatusFailed :: string where
  "RunStatusFailed = ''failed''"

record BenchmarkStatusUpdated =
  bs_SessionID :: string
  bs_SubmissionID :: string
  bs_RunGroupID :: string
  bs_Status :: string
  bs_Message :: string
  bs_UpdatedAt :: int

record BenchmarkRequested =
  br_SessionID :: string
  br_SubmissionID :: string
  br_ContestantID :: string
  br_RunGroupID :: string
  br_ScenarioID :: string

record Scenario =
  sn_ScenarioID :: string
  sn_Name :: string
  sn_DurationNs :: u64
  sn_TaskSpecs :: "TaskSpec list"

record ReadySignal =
  rs_SessionID :: string
  rs_SubmissionID :: string
  rs_WorkerID :: string
  rs_WorkerIndex :: u32
  rs_WorkerCount :: u32
  rs_TaskCount :: u32
  rs_ConnectedCount :: u32
  rs_ReadyAtUnixNanos :: u64

section \<open>Properties\<close>

lemma parseParts_sound:
  "parseParts out ps = Inr out' \<Longrightarrow> distinct out \<Longrightarrow> set out \<subseteq> {''FIX'', ''REST'', ''WS''} \<Longrightarrow>
     distinct out' \<and> set out' \<subseteq> {''FIX'', ''REST'', ''WS''}"
proof (induction ps arbitrary: out)
  case (Cons p ps)
  define p' where "p' = strings_TrimSpace (strings_ToUpper p)"
  have p': "p' \<in> {''FIX'', ''REST'', ''WS''}" "p' \<notin> set out" "parseParts (out @ [p']) ps = Inr out'"
    using Cons.prems(1) by (auto simp: p'_def Let_def split: if_splits)
  have "distinct (out @ [p'])" "set (out @ [p']) \<subseteq> {''FIX'', ''REST'', ''WS''}"
    using p' Cons.prems(2,3) by auto
  from Cons.IH [OF p'(3) this] show ?case .
qed simp

lemma ParseProtocols_sound:
  assumes "ParseProtocols decl = Inr out"
  shows "out \<noteq> [] \<and> distinct out \<and> set out \<subseteq> {''FIX'', ''REST'', ''WS''}"
proof (cases "strings_TrimSpace (strings_ToUpper decl) = ProtocolAll")
  case True
  then have "out = [''FIX'', ''REST'', ''WS'']" using assms by (simp add: ParseProtocols_def)
  then show ?thesis by simp
next
  case False
  then have "parseParts [] (strings_Split (CHR '','') decl) = Inr out" "out \<noteq> []"
    using assms by (simp_all add: ParseProtocols_def split: sum.split_asm if_split_asm)
  with parseParts_sound [of "[]" _ out] show ?thesis by simp
qed

fun joinComma :: "string list \<Rightarrow> string" where
  "joinComma [] = []"
| "joinComma [p] = p"
| "joinComma (p # ps) = p @ CHR '','' # joinComma ps"

lemma short_lists:
  assumes "xs \<noteq> []" "distinct xs" "set xs \<subseteq> {a, b, c}"
  shows "(\<exists>x\<in>{a, b, c}. xs = [x]) \<or> (\<exists>x\<in>{a, b, c}. \<exists>y\<in>{a, b, c}. xs = [x, y]) \<or>
    (\<exists>x\<in>{a, b, c}. \<exists>y\<in>{a, b, c}. \<exists>z\<in>{a, b, c}. xs = [x, y, z])"
proof -
  have "length xs = card (set xs)" using assms(2) by (simp add: distinct_card)
  also have "\<dots> \<le> card {a, b, c}" using assms(3) by (intro card_mono) auto
  also have "\<dots> \<le> 3" by (simp add: card_insert_if)
  finally have "length xs \<le> 3" .
  then show ?thesis using assms(1,3)
    by (cases xs; cases "tl xs"; cases "tl (tl xs)"; cases "tl (tl (tl xs))") auto
qed

text \<open>
  Protocol declarations. Whatever \<open>ParseProtocols\<close> accepts is a non-empty list of distinct
  protocols among FIX, REST and WS; and every such list, written with commas in any order,
  is read back unchanged, so the first element, the primary protocol, is the declared one.
\<close>

lemma ParseProtocols_roundtrip:
  "(\<forall>decl out. ParseProtocols decl = Inr out \<longrightarrow>
      out \<noteq> [] \<and> distinct out \<and> set out \<subseteq> {''FIX'', ''REST'', ''WS''}) \<and>
   (\<forall>ps. ps \<noteq> [] \<longrightarrow> distinct ps \<longrightarrow> set ps \<subseteq> {''FIX'', ''REST'', ''WS''} \<longrightarrow>
      ParseProtocols (joinComma ps) = Inr ps)"
proof (intro conjI allI impI)
  fix decl out assume "ParseProtocols decl = Inr out"
  from ParseProtocols_sound [OF this]
  show "out \<noteq> []" "distinct out" "set out \<subseteq> {''FIX'', ''REST'', ''WS''}" by blast+
next
  fix ps :: "string list"
  assume ps: "ps \<noteq> []" "distinct ps" "set ps \<subseteq> {''FIX'', ''REST'', ''WS''}"
  have one: "ParseProtocols (joinComma [x]) = Inr [x]" if "x \<in> {''FIX'', ''REST'', ''WS''}" for x
    using that by (elim insertE emptyE; hypsubst; code_simp)
  have two: "ParseProtocols (joinComma [x, y]) = Inr [x, y]"
    if "x \<in> {''FIX'', ''REST'', ''WS''}" "y \<in> {''FIX'', ''REST'', ''WS''}" "distinct [x, y]" for x y
    using that by (elim insertE emptyE; hypsubst; simp only: distinct.simps; (simp; fail)?; code_simp)
  have three: "ParseProtocols (joinComma [x, y, z]) = Inr [x, y, z]"
    if "x \<in> {''FIX'', ''REST'', ''WS''}" "y \<in> {''FIX'', ''REST'', ''WS''}" "z \<in> {''FIX'', ''REST'', ''WS''}"
      "distinct [x, y, z]" for x y z
    using that by (elim insertE emptyE; hypsubst; simp only: distinct.simps; (simp; fail)?; code_simp)
  from short_lists [OF ps] show "ParseProtocols (joinComma ps) = Inr ps"
  proof (elim disjE bexE)
    fix x assume "x \<in> {''FIX'', ''REST'', ''WS''}" "ps = [x]"
    then show ?thesis using one by (simp only:)
  next
    fix x y assume "x \<in> {''FIX'', ''REST'', ''WS''}" "y \<in> {''FIX'', ''REST'', ''WS''}" "ps = [x, y]"
    then show ?thesis using two ps(2) by (simp only:)
  next
    fix x y z assume "x \<in> {''FIX'', ''REST'', ''WS''}" "y \<in> {''FIX'', ''REST'', ''WS''}"
      "z \<in> {''FIX'', ''REST'', ''WS''}" "ps = [x, y, z]"
    then show ?thesis using three ps(2) by (simp only:)
  qed
qed

end
