(* ===== verification/Pipeline.thy ===== *)
theory Pipeline
  imports Model Topics
begin

text \<open>
  Joining a sent event with its responses (\<open>correctness-validator/internal/pipeline/pipeline.go\<close>).
  The bot is the authority on what was sent, the capture on when and on which connection it
  was delivered; an order with no response has no ingress time and is not assembled.
\<close>

definition hasSMPID :: "u32 \<Rightarrow> bool" where
  "hasSMPID i = (i \<noteq> SMPIDNone)"

fun firstOrig :: "OrderAckedEvent list \<Rightarrow> string" where
  "firstOrig [] = []"
| "firstOrig (a # acks) = (if a_OrigOrderID a \<noteq> [] then a_OrigOrderID a else firstOrig acks)"

definition preferOrig :: "string \<Rightarrow> OrderAckedEvent list \<Rightarrow> string" where
  "preferOrig sentOrig acks = (if sentOrig \<noteq> [] then sentOrig else firstOrig acks)"

definition responses :: "OrderAckedEvent list \<Rightarrow> Response list" where
  "responses acks = map (\<lambda>a. \<lparr>ExecType = a_ExecType a, FillQty = a_FillQty a,
     FillPrice = a_FillPrice a, T7Ns = a_T7XDPEgressNS a\<rparr>) acks"

definition AssembleOrder :: "OrderSentEvent \<Rightarrow> OrderAckedEvent list \<Rightarrow> Order option" where
  "AssembleOrder s acks = (case acks of
     [] \<Rightarrow> None
   | first # _ \<Rightarrow> Some (zeroOrder\<lparr>
       o_OrderID := s_OrderID s,
       o_Flow := \<lparr>SrcIP = a_SrcIP first, SrcPort = a_SrcPort first\<rparr>,
       o_TCPSeq := a_TCPSeq first,
       o_T3Ns := a_T3XDPIngressNS first,
       o_Side := SideFrom (s_Side s),
       o_Price := int64 (s_Price s * TelemetryPriceScale),
       o_Qty := s_Qty s,
       o_Kind := KindFrom (s_PayloadType s) (s_OrdType s),
       o_OrigOrderID := preferOrig (s_OrigOrderID s) acks,
       o_SMPID := s_SMPID s,
       o_HasSMPID := hasSMPID (s_SMPID s),
       o_Responses := responses acks\<rparr>))"

lemma AssembleOrder_None [simp]: "AssembleOrder s acks = None \<longleftrightarrow> acks = []"
  by (cases acks) (simp_all add: AssembleOrder_def)

end
