(* ===== verification/Reorder.thy ===== *)
theory Reorder
  imports Replay
begin

text \<open>
  The streaming reorderer (\<open>correctness-validator/internal/source/reorder.go\<close>): a buffer of fewer
  than twice the window, of which the first window is released, in replay order, when it is
  full. The model returns the orders passed to \<open>emit\<close> instead of calling it.

  The properties: nothing pushed is lost or emitted twice, the buffer stays below twice the
  window, and the emitted sequence is the replay order of the whole session when the
  requests of every connection arrive in sequence order and none arrives more than a window
  late. The comment on the type claims this without the first condition; a run shows that
  the condition is needed, for every window.
\<close>

section \<open>Definitions\<close>

record Reorderer =
  r_window :: nat
  r_buf :: "Order list"
  r_carry :: "Flow \<rightharpoonup> u64"

definition NewReorderer :: "int \<Rightarrow> Reorderer" where
  "NewReorderer window = \<lparr>r_window = nat (if window < 1 then 1 else window), r_buf = [], r_carry = Map.empty\<rparr>"

text \<open>The running maximum of a flow moves on with every order released.\<close>

definition advance :: "(Flow \<rightharpoonup> u64) \<Rightarrow> Order \<Rightarrow> (Flow \<rightharpoonup> u64)" where
  "advance carry o' = (case carry (o_Flow o') of
     None \<Rightarrow> carry(o_Flow o' \<mapsto> o_EffectiveT3 o')
   | Some cur \<Rightarrow> if o_EffectiveT3 o' > cur then carry(o_Flow o' \<mapsto> o_EffectiveT3 o') else carry)"

definition promote :: "Reorderer \<Rightarrow> Order list" where
  "promote r = promoteWith (r_carry r) (r_buf r)"

definition release :: "nat \<Rightarrow> Reorderer \<Rightarrow> Order list \<times> Reorderer" where
  "release n r = (if n \<le> 0 \<or> length (r_buf r) = 0 then ([], r)
     else let
       n' = (if n > length (r_buf r) then length (r_buf r) else n);
       buf = sort_stable Less (promote r);
       out = take n' buf
     in (out, r\<lparr>r_carry := foldl advance (r_carry r) out, r_buf := drop n' buf\<rparr>))"

definition Push :: "Reorderer \<Rightarrow> Order \<Rightarrow> Order list \<times> Reorderer" where
  "Push r o' = (let r1 = r\<lparr>r_buf := r_buf r @ [o']\<rparr> in
     if length (r_buf r1) \<ge> 2 * r_window r1 then release (r_window r1) r1 else ([], r1))"

definition Flush :: "Reorderer \<Rightarrow> Order list \<times> Reorderer" where
  "Flush r = release (length (r_buf r)) r"

text \<open>A stream of pushes, with the orders emitted on the way.\<close>

fun pushAll :: "Reorderer \<Rightarrow> Order list \<Rightarrow> Order list \<times> Reorderer" where
  "pushAll r [] = ([], r)"
| "pushAll r (x # xs) = (let (out, r1) = Push r x; (out', r2) = pushAll r1 xs in (out @ out', r2))"

section \<open>Nothing is lost\<close>

definition plain :: "Order \<Rightarrow> Order" where
  "plain x = x\<lparr>o_EffectiveT3 := 0\<rparr>"

lemma plain_upd [simp]: "plain (x\<lparr>o_EffectiveT3 := e\<rparr>) = plain x"
  by (simp add: plain_def)

lemma map_plain_setEffective [simp]: "map plain (setEffective os ie) = map plain os"
proof (cases "fst ie < length os")
  case True
  then show ?thesis by (auto simp: setEffective_def map_update list_update_same_conv)
qed (simp add: setEffective_def list_update_beyond)

lemma map_plain_foldl [simp]: "map plain (foldl setEffective os ies) = map plain os"
  by (induction ies arbitrary: os) simp_all

lemma map_plain_promoteFlow [simp]: "map plain (promoteFlow prev f os) = map plain os"
  by (simp add: promoteFlow_def Let_def)

lemma map_plain_promoteWith [simp]: "map plain (promoteWith carry os) = map plain os"
proof -
  have "map plain (fold (\<lambda>f. promoteFlow (carry f) f) fs os) = map plain os" for fs
    by (induction fs arbitrary: os) simp_all
  then show ?thesis by (simp add: promoteWith_def)
qed

lemma mset_plain_sort: "mset (map plain (sort_stable Less (promoteWith carry os))) = mset (map plain os)"
  unfolding mset_map mset_sort_stable
  unfolding mset_map [symmetric] map_plain_promoteWith by (rule refl)

lemma release_conserves:
  assumes "release n r = (out, r')"
  shows "mset (map plain out) + mset (map plain (r_buf r')) = mset (map plain (r_buf r))"
    "r_window r' = r_window r" "length (r_buf r') = length (r_buf r) - n"
proof -
  let ?buf = "sort_stable Less (promote r)"
  have m: "mset (map plain ?buf) = mset (map plain (r_buf r))"
    unfolding promote_def by (rule mset_plain_sort)
  have len: "length ?buf = length (r_buf r)" using arg_cong [OF m, of size] by simp
  have split: "mset (map plain (take k ?buf)) + mset (map plain (drop k ?buf)) = mset (map plain ?buf)" for k
    by (simp only: append_take_drop_id map_append [symmetric] mset_append [symmetric])
  show "mset (map plain out) + mset (map plain (r_buf r')) = mset (map plain (r_buf r))"
    using assms split m by (auto simp: release_def Let_def split: if_splits)
  show "r_window r' = r_window r" using assms by (auto simp: release_def Let_def split: if_splits)
  show "length (r_buf r') = length (r_buf r) - n"
    using assms len by (auto simp: release_def Let_def split: if_splits)
qed

lemma Push_conserves:
  assumes "Push r x = (out, r')" "r_window r > 0" "length (r_buf r) < 2 * r_window r"
  shows "mset (map plain out) + mset (map plain (r_buf r')) = add_mset (plain x) (mset (map plain (r_buf r)))"
    "r_window r' = r_window r" "length (r_buf r') < 2 * r_window r"
proof -
  let ?r1 = "r\<lparr>r_buf := r_buf r @ [x]\<rparr>"
  have "mset (map plain out) + mset (map plain (r_buf r')) = add_mset (plain x) (mset (map plain (r_buf r))) \<and>
    r_window r' = r_window r \<and> length (r_buf r') < 2 * r_window r"
  proof (cases "length (r_buf ?r1) \<ge> 2 * r_window ?r1")
    case True
    then have "release (r_window ?r1) ?r1 = (out, r')" using assms(1) by (simp add: Push_def Let_def)
    from release_conserves [OF this] show ?thesis using assms(2,3) by simp
  next
    case False
    then show ?thesis using assms(1) by (auto simp: Push_def Let_def)
  qed
  then show "mset (map plain out) + mset (map plain (r_buf r')) = add_mset (plain x) (mset (map plain (r_buf r)))"
    "r_window r' = r_window r" "length (r_buf r') < 2 * r_window r" by auto
qed

lemma pushAll_conserves:
  assumes "pushAll r xs = (out, r')" "r_window r > 0" "length (r_buf r) < 2 * r_window r"
  shows "mset (map plain out) + mset (map plain (r_buf r')) = mset (map plain xs) + mset (map plain (r_buf r)) \<and>
    r_window r' = r_window r \<and> length (r_buf r') < 2 * r_window r"
  using assms
proof (induction xs arbitrary: r out)
  case (Cons x xs)
  obtain o1 r1 where p: "Push r x = (o1, r1)" by fastforce
  obtain o2 where q: "pushAll r1 xs = (o2, r')" "out = o1 @ o2"
    using Cons.prems(1) p by (auto split: prod.splits)
  note c = Push_conserves [OF p Cons.prems(2,3)]
  from Cons.IH [OF q(1)] c Cons.prems(2) have
    "mset (map plain o2) + mset (map plain (r_buf r')) = mset (map plain xs) + mset (map plain (r_buf r1))"
    "r_window r' = r_window r" "length (r_buf r') < 2 * r_window r" by auto
  then show ?case using c(1) q(2) by (simp add: add.assoc)
qed simp

section \<open>The emitted order\<close>

text \<open>The order \<open>x\<close> as the replay of the whole session \<open>xs\<close> has it.\<close>

definition norm :: "(Flow \<Rightarrow> u32) \<Rightarrow> Order list \<Rightarrow> Order \<Rightarrow> Order" where
  "norm base xs x = x\<lparr>o_EffectiveT3 := effOf base None xs x\<rparr>"

definition flow_fifo :: "(Flow \<Rightarrow> u32) \<Rightarrow> Order list \<Rightarrow> bool" where
  "flow_fifo base xs \<longleftrightarrow> sorted_wrt (\<lambda>x y. o_Flow x = o_Flow y \<longrightarrow> rank base x < rank base y) xs"

text \<open>No order arrives more than \<open>w\<close> places after its place in the replay.\<close>

definition at_most_late :: "nat \<Rightarrow> Order list \<Rightarrow> bool" where
  "at_most_late w xs \<longleftrightarrow> (\<forall>i<length xs. \<forall>p<length xs.
     o_Flow (replayOrder xs ! p) = o_Flow (xs ! i) \<and> o_TCPSeq (replayOrder xs ! p) = o_TCPSeq (xs ! i) \<longrightarrow> i \<le> p + w)"

definition carryOf :: "Order list \<Rightarrow> Flow \<rightharpoonup> u64" where
  "carryOf E f = (if \<exists>x\<in>set E. o_Flow x = f then Some (Max (o_EffectiveT3 ` {x \<in> set E. o_Flow x = f})) else None)"

lemma advance_carryOf: "advance (carryOf E) x = carryOf (E @ [x])"
proof
  fix f
  have ins: "{y \<in> set (E @ [x]). o_Flow y = o_Flow x} = insert x {y \<in> set E. o_Flow y = o_Flow x}" by auto
  have oth: "f \<noteq> o_Flow x \<Longrightarrow> {y \<in> set (E @ [x]). o_Flow y = f} = {y \<in> set E. o_Flow y = f}" by auto
  have other: "f \<noteq> o_Flow x \<Longrightarrow> carryOf (E @ [x]) f = carryOf E f" unfolding carryOf_def oth by auto
  have same: "carryOf (E @ [x]) (o_Flow x) = Some (case carryOf E (o_Flow x) of
      None \<Rightarrow> o_EffectiveT3 x | Some cur \<Rightarrow> max (o_EffectiveT3 x) cur)"
  proof (cases "\<exists>y\<in>set E. o_Flow y = o_Flow x")
    case True
    then have ne: "o_EffectiveT3 ` {y \<in> set E. o_Flow y = o_Flow x} \<noteq> {}" by blast
    show ?thesis unfolding carryOf_def ins image_insert using True ne by (simp add: Max_insert)
  next
    case False
    then have none: "{y \<in> set E. o_Flow y = o_Flow x} = {}" by blast
    show ?thesis unfolding carryOf_def ins image_insert none using False by simp
  qed
  show "advance (carryOf E) x f = carryOf (E @ [x]) f"
    using other same by (cases "f = o_Flow x") (auto simp: advance_def max_def split: option.splits)
qed

lemma foldl_advance: "foldl advance (carryOf E) out = carryOf (E @ out)"
  by (induction out arbitrary: E) (simp_all add: advance_carryOf)

lemma carryOf_Nil [simp]: "carryOf [] = Map.empty"
  by (simp add: carryOf_def fun_eq_iff)

lemma norm_simps [simp]:
  "o_Flow (norm base xs x) = o_Flow x" "o_T3Ns (norm base xs x) = o_T3Ns x"
  "rank base (norm base xs x) = rank base x" "o_EffectiveT3 (norm base xs x) = effOf base None xs x"
  "norm base xs (norm base xs x) = norm base xs x" "norm base xs (x\<lparr>o_EffectiveT3 := e\<rparr>) = norm base xs x"
  by (simp_all add: norm_def)

lemma effOf_ge: "y \<in> set os \<Longrightarrow> o_Flow y = o_Flow x \<Longrightarrow> rank base y \<le> rank base x \<Longrightarrow> o_T3Ns y \<le> effOf base prev os x"
  unfolding effOf_def
  using finite_preds [of os "\<lambda>z. o_Flow z = o_Flow x \<and> rank base z \<le> rank base x"]
  by (intro Max_ge) (cases prev, auto)

lemma effOf_prev: "prev = Some c \<Longrightarrow> c \<le> effOf base prev os x"
  unfolding effOf_def
  using finite_preds [of os "\<lambda>z. o_Flow z = o_Flow x \<and> rank base z \<le> rank base x"]
  by (intro Max_ge) auto

lemma effOf_le:
  assumes "x \<in> set os" "\<And>c. prev = Some c \<Longrightarrow> c \<le> b"
    and "\<And>y. y \<in> set os \<Longrightarrow> o_Flow y = o_Flow x \<Longrightarrow> rank base y \<le> rank base x \<Longrightarrow> o_T3Ns y \<le> b"
  shows "effOf base prev os x \<le> b"
  unfolding effOf_def
proof (rule Max.boundedI)
  show "finite (set_option prev \<union> {o_T3Ns z | z. z \<in> set os \<and> o_Flow z = o_Flow x \<and> rank base z \<le> rank base x})"
    using finite_preds [of os "\<lambda>z. o_Flow z = o_Flow x \<and> rank base z \<le> rank base x"] by (cases prev) auto
  show "set_option prev \<union> {o_T3Ns z | z. z \<in> set os \<and> o_Flow z = o_Flow x \<and> rank base z \<le> rank base x} \<noteq> {}"
    using assms(1) by auto
  fix a assume "a \<in> set_option prev \<union> {o_T3Ns z | z. z \<in> set os \<and> o_Flow z = o_Flow x \<and> rank base z \<le> rank base x}"
  then show "a \<le> b" using assms(2,3) by auto
qed

lemma norm_eqD:
  assumes "norm base xs x = norm base xs y"
  shows "o_Flow x = o_Flow y" "o_T3Ns x = o_T3Ns y" "o_TCPSeq x = o_TCPSeq y" "rank base x = rank base y"
    "effOf base None xs x = effOf base None xs y"
  using arg_cong [OF assms, of o_Flow] arg_cong [OF assms, of o_T3Ns] arg_cong [OF assms, of o_TCPSeq]
    arg_cong [OF assms, of "rank base"] arg_cong [OF assms, of o_EffectiveT3]
  by (simp_all add: norm_def)

lemma norm_keys:
  assumes "seq_window base xs" "x \<in> set xs" "y \<in> set xs" "o_Flow x = o_Flow y" "o_TCPSeq x = o_TCPSeq y"
  shows "x = y"
  using assms unfolding seq_window_def distinct_map by (metis (no_types, lifting) inj_onD)

lemma norm_inj: "seq_window base xs \<Longrightarrow> inj_on (norm base xs) (set xs)"
  by (rule inj_onI) (rule norm_keys, auto dest: norm_eqD)

lemma replayOrder_norm:
  assumes "seq_window base xs"
  shows "replayOrder xs = sort_stable Less (map (norm base xs) xs)" "set (replayOrder xs) = norm base xs ` set xs"
    "distinct (replayOrder xs)" "length (replayOrder xs) = length xs"
    "sorted_wrt (\<lambda>x y. key base x < key base y) (replayOrder xs)"
proof -
  have P: "promoteWith Map.empty xs = map (norm base xs) xs"
    using assms by (simp add: promoteWith_promoted promoted_def norm_def [abs_def])
  show r: "replayOrder xs = sort_stable Less (map (norm base xs) xs)" by (simp add: replayOrder_def P)
  show "set (replayOrder xs) = norm base xs ` set xs" "length (replayOrder xs) = length xs"
    by (simp_all add: r)
  have "distinct xs" using assms by (auto simp: seq_window_def distinct_map)
  then show "distinct (replayOrder xs)" using norm_inj [OF assms] by (simp add: r distinct_map)
  have "seq_window base (map (norm base xs) xs)"
    using assms by (subst seq_window_keys [of _ xs]) (auto simp: norm_def)
  from sorted_by_key [OF this] show "sorted_wrt (\<lambda>x y. key base x < key base y) (replayOrder xs)" by (simp add: r)
qed

text \<open>The state after \<open>n\<close> pushes and \<open>k\<close> emitted orders.\<close>

definition rinv :: "(Flow \<Rightarrow> u32) \<Rightarrow> Order list \<Rightarrow> nat \<Rightarrow> nat \<Rightarrow> Reorderer \<Rightarrow> bool" where
  "rinv base xs n k r \<longleftrightarrow> n \<le> length xs \<and> k \<le> n \<and> r_carry r = carryOf (take k (replayOrder xs)) \<and>
     distinct (map (norm base xs) (r_buf r)) \<and>
     norm base xs ` set (r_buf r) = norm base xs ` set (take n xs) - set (take k (replayOrder xs)) \<and>
     set (take k (replayOrder xs)) \<subseteq> norm base xs ` set (take n xs)"

lemma emitted_before:
  assumes "seq_window base xs" "z \<in> set (take k (replayOrder xs))" "x \<in> set xs"
    and "norm base xs x \<notin> set (take k (replayOrder xs))" "o_Flow z = o_Flow x"
  shows "o_EffectiveT3 z \<le> effOf base None xs x"
proof -
  note r = replayOrder_norm [OF assms(1)]
  have zS: "z \<in> set (replayOrder xs)" using assms(2) by (meson in_set_takeD)
  then obtain y where y: "y \<in> set xs" "z = norm base xs y" using r(2) by auto
  have "norm base xs x \<in> set (replayOrder xs)" using r(2) assms(3) by simp
  then have "norm base xs x \<in> set (drop k (replayOrder xs))"
    using assms(4) by (metis Un_iff append_take_drop_id set_append)
  moreover have "sorted_wrt (\<lambda>x y. key base x < key base y) (take k (replayOrder xs) @ drop k (replayOrder xs))"
    using r(5) by simp
  ultimately have "key base z < key base (norm base xs x)"
    using assms(2) unfolding sorted_wrt_append by blast
  then have "rank base z < rank base (norm base xs x)"
    using promoted_key_order [OF assms(1), of z "norm base xs x"] y assms(3,5)
    by (simp add: promoted_def norm_def)
  then show ?thesis using effOf_mono [OF assms(3) y(1), of base None] y(2) assms(5) by simp
qed

lemma fifo_before:
  assumes "flow_fifo base xs" "x \<in> set (take n xs)" "y \<in> set xs" "o_Flow y = o_Flow x" "rank base y \<le> rank base x"
  shows "y \<in> set (take n xs)"
proof (rule ccontr)
  assume "y \<notin> set (take n xs)"
  then have "y \<in> set (drop n xs)" using assms(3) by (metis Un_iff append_take_drop_id set_append)
  moreover have "sorted_wrt (\<lambda>x y. o_Flow x = o_Flow y \<longrightarrow> rank base x < rank base y) (take n xs @ drop n xs)"
    using assms(1) by (simp add: flow_fifo_def)
  ultimately have "rank base x < rank base y" using assms(2,4) unfolding sorted_wrt_append by metis
  with assms(5) show False by simp
qed

lemma rinv_mem:
  assumes "rinv base xs n k r" "x \<in> set (r_buf r)"
  obtains y where "y \<in> set (take n xs)" "y \<in> set xs" "norm base xs x = norm base xs y"
    "norm base xs y \<notin> set (take k (replayOrder xs))"
proof -
  have "norm base xs x \<in> norm base xs ` set (take n xs) - set (take k (replayOrder xs))"
    using assms by (auto simp: rinv_def)
  then obtain y where y: "y \<in> set (take n xs)" "norm base xs x = norm base xs y"
    "norm base xs y \<notin> set (take k (replayOrder xs))" by auto
  from that [OF y(1) in_set_takeD [OF y(1)] y(2,3)] show ?thesis .
qed

lemma rinv_window:
  assumes "rinv base xs n k r" "seq_window base xs"
  shows "seq_window base (r_buf r)"
proof -
  have "rank base x < 2 ^ 31" if x: "x \<in> set (r_buf r)" for x
  proof -
    obtain y where "y \<in> set xs" "norm base xs x = norm base xs y" by (rule rinv_mem [OF assms(1) x])
    then show ?thesis using assms(2) norm_eqD(4) by (metis seq_window_def)
  qed
  moreover have "inj_on (\<lambda>x. (o_Flow x, o_TCPSeq x)) (set (r_buf r))"
  proof (rule inj_onI)
    fix a b assume ab: "a \<in> set (r_buf r)" "b \<in> set (r_buf r)" "(o_Flow a, o_TCPSeq a) = (o_Flow b, o_TCPSeq b)"
    obtain a' where a': "a' \<in> set xs" "norm base xs a = norm base xs a'" by (rule rinv_mem [OF assms(1) ab(1)])
    obtain b' where b': "b' \<in> set xs" "norm base xs b = norm base xs b'" by (rule rinv_mem [OF assms(1) ab(2)])
    have "a' = b'" using norm_keys [OF assms(2) a'(1) b'(1)] norm_eqD(1,3) [OF a'(2)] norm_eqD(1,3) [OF b'(2)] ab(3) by simp
    then have "norm base xs a = norm base xs b" using a' b' by simp
    then show "a = b" using assms(1) ab(1,2) by (auto simp: rinv_def distinct_map dest: inj_onD)
  qed
  moreover have "distinct (r_buf r)" using assms(1) by (auto simp: rinv_def distinct_map)
  ultimately show ?thesis by (simp add: seq_window_def distinct_map)
qed

text \<open>Every order of the buffer is promoted to its time in the replay of the session.\<close>

lemma rinv_eff:
  assumes "rinv base xs n k r" "seq_window base xs" "flow_fifo base xs" "x \<in> set (r_buf r)"
  shows "effOf base (r_carry r (o_Flow x)) (r_buf r) x = effOf base None xs x"
proof (rule antisym)
  let ?E = "take k (replayOrder xs)" and ?c = "r_carry r (o_Flow x)"
  obtain x0 where x0: "x0 \<in> set (take n xs)" "x0 \<in> set xs" "norm base xs x = norm base xs x0" "norm base xs x0 \<notin> set ?E"
    by (rule rinv_mem [OF assms(1,4)])
  note eq = norm_eqD [OF x0(3)]
  have carry: "r_carry r = carryOf ?E" using assms(1) by (simp add: rinv_def)
  show "effOf base ?c (r_buf r) x \<le> effOf base None xs x"
  proof (rule effOf_le [OF assms(4)])
    fix c assume "?c = Some c"
    then have "c = Max (o_EffectiveT3 ` {z \<in> set ?E. o_Flow z = o_Flow x})" "\<exists>z\<in>set ?E. o_Flow z = o_Flow x"
      by (auto simp: carry carryOf_def split: if_splits)
    moreover from this(2) have "o_EffectiveT3 ` {z \<in> set ?E. o_Flow z = o_Flow x} \<noteq> {}" by blast
    ultimately have "c \<in> o_EffectiveT3 ` {z \<in> set ?E. o_Flow z = o_Flow x}" by (auto intro!: Max_in simp del: image_is_empty)
    then obtain z where "z \<in> set ?E" "o_Flow z = o_Flow x" "c = o_EffectiveT3 z" by blast
    then show "c \<le> effOf base None xs x"
      using emitted_before [OF assms(2) _ x0(2,4), of z] eq(1,5) by simp
  next
    fix y assume y: "y \<in> set (r_buf r)" "o_Flow y = o_Flow x" "rank base y \<le> rank base x"
    obtain y0 where "y0 \<in> set xs" "norm base xs y = norm base xs y0" by (rule rinv_mem [OF assms(1) y(1)])
    then show "o_T3Ns y \<le> effOf base None xs x"
      using effOf_ge [of y0 xs x base None] norm_eqD(1,2,4) [of base xs y y0] y by simp
  qed
  show "effOf base None xs x \<le> effOf base ?c (r_buf r) x"
    unfolding eq(5)
  proof (rule effOf_le [OF x0(2)])
    fix y assume y: "y \<in> set xs" "o_Flow y = o_Flow x0" "rank base y \<le> rank base x0"
    have "y \<in> set (take n xs)"
      by (rule fifo_before [OF assms(3) x0(1) y])
    then consider "norm base xs y \<in> norm base xs ` set (r_buf r)" | "norm base xs y \<in> set ?E"
      using assms(1) unfolding rinv_def by blast
    then show "o_T3Ns y \<le> effOf base ?c (r_buf r) x"
    proof cases
      case 1
      then obtain y' where "y' \<in> set (r_buf r)" "norm base xs y = norm base xs y'" by blast
      then show ?thesis
        using effOf_ge [of y' "r_buf r" x base ?c] norm_eqD(1,2,4) [of base xs y y'] y eq by simp
    next
      case 2
      let ?A = "o_EffectiveT3 ` {z \<in> set ?E. o_Flow z = o_Flow x}"
      have fy: "o_Flow y = o_Flow x" using y(2) eq(1) by simp
      then have c: "?c = Some (Max ?A)" using 2 by (auto simp: carry carryOf_def intro!: bexI [of _ "norm base xs y"])
      have "o_T3Ns y \<le> o_EffectiveT3 (norm base xs y)" using effOf_ge [of y xs y base None] y(1) by simp
      also have "\<dots> \<le> Max ?A" using 2 fy by (intro Max_ge imageI) auto
      also have "\<dots> \<le> effOf base ?c (r_buf r) x" using effOf_prev [OF c] by simp
      finally show ?thesis .
    qed
  qed simp
qed

lemma rinv_promote:
  assumes "rinv base xs n k r" "seq_window base xs" "flow_fifo base xs"
  shows "promote r = map (norm base xs) (r_buf r)"
  unfolding promote_def promoteWith_spec [OF rinv_window [OF assms(1,2)]] norm_def
  using rinv_eff [OF assms] by simp

lemma rinv_sorted:
  assumes "rinv base xs n k r" "seq_window base xs" "flow_fifo base xs"
  shows "sort_stable Less (promote r) =
    filter (\<lambda>x. x \<in> norm base xs ` set (take n xs)) (drop k (replayOrder xs))" (is "?A = ?B")
proof -
  let ?N = "norm base xs" and ?S = "replayOrder xs"
  note S = replayOrder_norm [OF assms(2)]
  have w: "seq_window base (map ?N (r_buf r))"
    using rinv_window [OF assms(1,2)] by (subst seq_window_keys [of _ "r_buf r"]) (auto simp: norm_def)
  have A: "sorted_wrt (\<lambda>x y. key base x < key base y) ?A"
    unfolding rinv_promote [OF assms] by (rule sorted_by_key [OF w])
  have B: "sorted_wrt (\<lambda>x y. key base x < key base y) ?B"
    using S(5) by (intro sorted_wrt_filter) (rule sorted_wrt_drop)
  have "set ?A = ?N ` set (take n xs) - set (take k ?S)"
    using assms(1) by (simp add: rinv_promote [OF assms] rinv_def)
  also have "\<dots> = set ?B"
  proof -
    have "set ?S = set (take k ?S) \<union> set (drop k ?S)" by (metis append_take_drop_id set_append)
    moreover have "set (take k ?S) \<inter> set (drop k ?S) = {}" using S(3) by (rule set_take_disj_set_drop_if_distinct) simp
    moreover have "?N ` set (take n xs) \<subseteq> set ?S" using S(2) by (auto dest: in_set_takeD)
    ultimately show ?thesis by auto
  qed
  finally have set: "set ?A = set ?B" .
  have irr: "distinct zs" if "sorted_wrt (\<lambda>x y. key base x < key base y) zs" for zs
    using that by (induction zs) auto
  have "mset ?A = mset ?B"
    using set irr [OF A] irr [OF B] by (simp only: set_eq_iff_mset_eq_distinct)
  moreover have "sorted_wrt (\<lambda>x y. \<not> key base y < key base x) ?A" "sorted_wrt (\<lambda>x y. \<not> key base y < key base x) ?B"
    using A B by (auto elim!: sorted_wrt_mono_rel [rotated])
  moreover have "key base a < key base b \<or> key base b < key base a" if "a \<in> set ?A" "b \<in> set ?A" "a \<noteq> b" for a b
  proof -
    have "key base a \<noteq> key base b" using that key_inj [OF w, of a b] by (auto simp: rinv_promote [OF assms])
    then show ?thesis by (simp only: neq_iff)
  qed
  ultimately show ?thesis by (intro sorted_unique [where lt = "\<lambda>a b. key base a < key base b"])
qed

lemma rinv_length:
  assumes "rinv base xs n k r" "seq_window base xs"
  shows "length (r_buf r) = n - k"
proof -
  let ?N = "norm base xs" and ?E = "take k (replayOrder xs)"
  note S = replayOrder_norm [OF assms(2)]
  have le: "n \<le> length xs" "k \<le> n" and dis: "distinct (map ?N (r_buf r))"
    and set: "?N ` set (r_buf r) = ?N ` set (take n xs) - set ?E" and sub: "set ?E \<subseteq> ?N ` set (take n xs)"
    using assms(1) by (simp_all add: rinv_def)
  have "distinct xs" using assms(2) by (auto simp: seq_window_def distinct_map)
  then have N: "card (?N ` set (take n xs)) = n"
    using inj_on_subset [OF norm_inj [OF assms(2)] set_take_subset] le
    by (simp add: card_image distinct_card)
  have E: "card (set ?E) = k" using S(3,4) le by (simp add: distinct_card)
  have "length (r_buf r) = card (set (map ?N (r_buf r)))" using distinct_card [OF dis] by simp
  also have "\<dots> = card (?N ` set (take n xs)) - card (set ?E)" using set sub by (simp add: card_Diff_subset)
  finally show ?thesis by (simp only: N E)
qed

lemma rinv_push:
  assumes "rinv base xs n k r" "seq_window base xs" "n < length xs"
  shows "rinv base xs (Suc n) k (r\<lparr>r_buf := r_buf r @ [xs ! n]\<rparr>)"
proof -
  let ?N = "norm base xs" and ?E = "take k (replayOrder xs)"
  have d: "distinct xs" using assms(2) by (auto simp: seq_window_def distinct_map)
  have t: "set (take (Suc n) xs) = insert (xs ! n) (set (take n xs))" using assms(3) by (simp add: take_Suc_conv_app_nth)
  have "xs ! n \<notin> set (take n xs)" using d assms(3) by (auto simp: in_set_conv_nth nth_eq_iff_index_eq)
  then have new: "?N (xs ! n) \<notin> ?N ` set (take n xs)"
    using inj_on_image_mem_iff [OF norm_inj [OF assms(2)], of "xs ! n" "set (take n xs)"] assms(3)
    by (simp add: set_take_subset)
  have "distinct (map ?N (r_buf r))" "?N ` set (r_buf r) = ?N ` set (take n xs) - set ?E" "set ?E \<subseteq> ?N ` set (take n xs)"
    "r_carry r = carryOf ?E" "k \<le> n"
    using assms(1) by (simp_all add: rinv_def)
  then show ?thesis using new assms(3) unfolding rinv_def t by (auto simp: image_iff)
qed

lemma take_filter_prefix:
  assumes "\<And>x. x \<in> set (take m ys) \<Longrightarrow> P x" "m \<le> length ys"
  shows "take m (filter P ys) = take m ys" "drop m (filter P ys) = filter P (drop m ys)"
proof -
  have "filter P ys = filter P (take m ys) @ filter P (drop m ys)" by (simp only: filter_append [symmetric] append_take_drop_id)
  also have "filter P (take m ys) = take m ys" using assms(1) by (simp add: filter_id_conv)
  finally have "filter P ys = take m ys @ filter P (drop m ys)" .
  then show "take m (filter P ys) = take m ys" "drop m (filter P ys) = filter P (drop m ys)" using assms(2) by simp_all
qed

lemma rinv_release:
  assumes "rinv base xs n k r" "seq_window base xs" "flow_fifo base xs" "k + m \<le> n" "m > 0"
    and here: "\<And>p. p < k + m \<Longrightarrow> replayOrder xs ! p \<in> norm base xs ` set (take n xs)"
  obtains r' where "release m r = (take m (drop k (replayOrder xs)), r')" "rinv base xs n (k + m) r'"
    "r_window r' = r_window r"
proof -
  let ?N = "norm base xs" and ?S = "replayOrder xs"
  let ?in = "\<lambda>x. x \<in> ?N ` set (take n xs)"
  note S = replayOrder_norm [OF assms(2)]
  have len: "length (r_buf r) = n - k" by (rule rinv_length [OF assms(1,2)])
  have nx: "n \<le> length xs" using assms(1) by (simp add: rinv_def)
  have pre: "?in x" if "x \<in> set (take m (drop k ?S))" for x
    using that here S(4) nx assms(4) by (auto simp: in_set_conv_nth)
  have m: "m \<le> length (drop k ?S)" using S(4) nx assms(4) by simp
  note tf = take_filter_prefix [of m "drop k ?S" ?in, OF pre m]
  have E: "take (k + m) ?S = take k ?S @ take m (drop k ?S)" by (simp add: take_add)
  define r' where "r' = r\<lparr>r_carry := foldl advance (r_carry r) (take m (drop k ?S)), r_buf := filter ?in (drop m (drop k ?S))\<rparr>"
  have rel: "release m r = (take m (drop k ?S), r')"
    using len assms(4,5) tf by (simp add: release_def Let_def rinv_sorted [OF assms(1-3)] r'_def)
  have idem: "?N x = x" if "x \<in> set ?S" for x using that S(2) by auto
  then have id: "map ?N (r_buf r') = r_buf r'" unfolding r'_def by (auto intro!: map_idI dest: in_set_dropD)
  have carry: "r_carry r' = carryOf (take (k + m) ?S)"
    using assms(1) by (simp add: r'_def rinv_def foldl_advance E)
  have dS: "distinct (take (k + m) ?S @ drop (k + m) ?S)" using S(3) by simp
  have split: "set ?S = set (take (k + m) ?S) \<union> set (drop (k + m) ?S)" by (metis append_take_drop_id set_append)
  have buf: "set (r_buf r') = ?N ` set (take n xs) - set (take (k + m) ?S)"
  proof -
    have "set (r_buf r') = {x \<in> set (drop (k + m) ?S). ?in x}" by (simp add: r'_def add.commute)
    moreover have "?N ` set (take n xs) \<subseteq> set ?S" using S(2) by (auto dest: in_set_takeD)
    moreover have "set (take (k + m) ?S) \<inter> set (drop (k + m) ?S) = {}" using dS by (simp only: distinct_append)
    ultimately show ?thesis using split by blast
  qed
  have "set (take (k + m) ?S) \<subseteq> ?N ` set (take n xs)"
    using assms(1) pre unfolding E rinv_def by auto
  moreover have "distinct (r_buf r')" using dS by (simp add: r'_def S(3))
  moreover have img: "?N ` set (r_buf r') = ?N ` set (take n xs) - set (take (k + m) ?S)"
    using arg_cong [OF id, of set] buf by (simp only: set_map)
  ultimately have "rinv base xs n (k + m) r'"
    unfolding rinv_def img id using carry nx assms(4) by simp
  with rel show ?thesis by (rule that) (simp add: r'_def)
qed

text \<open>A release of a full buffer finds its orders all arrived.\<close>

lemma late_arrived:
  assumes "seq_window base xs" "at_most_late w xs" "p + w < n" "n \<le> length xs"
  shows "replayOrder xs ! p \<in> norm base xs ` set (take n xs)"
proof -
  note S = replayOrder_norm [OF assms(1)]
  have p: "p < length xs" using assms(3,4) by simp
  then have "replayOrder xs ! p \<in> norm base xs ` set xs" unfolding S(2) [symmetric] using S(4) by simp
  then obtain i where i: "i < length xs" "replayOrder xs ! p = norm base xs (xs ! i)" by (auto simp: in_set_conv_nth)
  then have "i \<le> p + w" using assms(2) p unfolding at_most_late_def by (simp add: norm_def)
  then have "i < n" using assms(3) by simp
  then have "xs ! i \<in> set (take n xs)" using assms(4) by (auto simp: in_set_conv_nth)
  then show ?thesis using i(2) by simp
qed

lemma Push_rinv:
  assumes "rinv base xs n k r" "seq_window base xs" "flow_fifo base xs" "at_most_late (r_window r) xs"
    and "n < length xs" "r_window r > 0" "n - k < 2 * r_window r"
  obtains m r' where "Push r (xs ! n) = (take m (drop k (replayOrder xs)), r')" "rinv base xs (Suc n) (k + m) r'"
    "r_window r' = r_window r" "Suc n - (k + m) < 2 * r_window r"
proof -
  let ?r1 = "r\<lparr>r_buf := r_buf r @ [xs ! n]\<rparr>"
  have r1: "rinv base xs (Suc n) k ?r1" by (rule rinv_push [OF assms(1,2,5)])
  have len: "length (r_buf ?r1) = Suc n - k" by (rule rinv_length [OF r1 assms(2)])
  have kn: "k \<le> n" using assms(1) by (simp add: rinv_def)
  show ?thesis
  proof (cases "Suc n - k \<ge> 2 * r_window r")
    case True
    have here: "replayOrder xs ! p \<in> norm base xs ` set (take (Suc n) xs)" if "p < k + r_window r" for p
    proof -
      have "p + r_window r < Suc n" using that True assms(6) by arith
      then show ?thesis using late_arrived [OF assms(2,4), of p "Suc n"] assms(5) by simp
    qed
    obtain r' where r': "release (r_window r) ?r1 = (take (r_window r) (drop k (replayOrder xs)), r')"
      "rinv base xs (Suc n) (k + r_window r) r'" "r_window r' = r_window ?r1"
      by (rule rinv_release [OF r1 assms(2,3) _ assms(6) here]) (use True assms(6) in \<open>simp_all; arith\<close>)
    have "Push r (xs ! n) = release (r_window r) ?r1" using True len by (simp add: Push_def Let_def)
    then show ?thesis using that [of "r_window r" r'] r' assms(6,7) kn by simp
  next
    case False
    then have "Push r (xs ! n) = ([], ?r1)" using len by (simp add: Push_def Let_def)
    then show ?thesis using that [of 0 ?r1] r1 False by simp
  qed
qed

lemma pushAll_rinv:
  assumes "rinv base xs n k r" "seq_window base xs" "flow_fifo base xs" "at_most_late (r_window r) xs"
    and "r_window r > 0" "n - k < 2 * r_window r"
  shows "\<exists>m r'. pushAll r (drop n xs) = (take m (drop k (replayOrder xs)), r') \<and> rinv base xs (length xs) (k + m) r'"
  using assms
proof (induction "length xs - n" arbitrary: n k r)
  case 0
  then have "n = length xs" by (simp add: rinv_def)
  then show ?case using 0 by (intro exI [of _ 0] exI [of _ r]) simp
next
  case (Suc d)
  then have n: "n < length xs" by simp
  obtain m r1 where p: "Push r (xs ! n) = (take m (drop k (replayOrder xs)), r1)" "rinv base xs (Suc n) (k + m) r1"
    "r_window r1 = r_window r" "Suc n - (k + m) < 2 * r_window r"
    using Push_rinv [OF Suc.prems(1-4) n Suc.prems(5,6)] by blast
  have "\<exists>m' r'. pushAll r1 (drop (Suc n) xs) = (take m' (drop (k + m) (replayOrder xs)), r') \<and> rinv base xs (length xs) (k + m + m') r'"
    using Suc.hyps(1) [OF _ p(2)] Suc.hyps(2) Suc.prems p(3,4) by simp
  then obtain m' r' where q: "pushAll r1 (drop (Suc n) xs) = (take m' (drop (k + m) (replayOrder xs)), r')"
    "rinv base xs (length xs) (k + m + m') r'" by blast
  have "take m (drop k (replayOrder xs)) @ take m' (drop (k + m) (replayOrder xs)) = take (m + m') (drop k (replayOrder xs))"
    by (simp only: take_add drop_drop add.commute [of k m])
  then have "pushAll r (drop n xs) = (take (m + m') (drop k (replayOrder xs)), r')"
    using p(1) q(1) Cons_nth_drop_Suc [OF n, symmetric] by simp
  then show ?case using q(2) by (metis add.assoc)
qed

lemma Flush_rinv:
  assumes "rinv base xs (length xs) k r" "seq_window base xs" "flow_fifo base xs"
  shows "fst (Flush r) = drop k (replayOrder xs)"
proof -
  note S = replayOrder_norm [OF assms(2)]
  have k: "k \<le> length xs" using assms(1) by (simp add: rinv_def)
  have len: "length (r_buf r) = length xs - k" by (rule rinv_length [OF assms(1,2)])
  show ?thesis
  proof (cases "length xs - k = 0")
    case True
    then show ?thesis using len S(4) by (simp add: Flush_def release_def)
  next
    case False
    have all: "replayOrder xs ! p \<in> norm base xs ` set (take (length xs) xs)" if "p < k + (length xs - k)" for p
      using that k S(2,4) by (metis le_add_diff_inverse nth_mem order_refl take_all)
    have "k + (length xs - k) \<le> length xs" "length xs - k > 0" using k False by simp_all
    from rinv_release [OF assms this all] obtain r'
      where "release (length xs - k) r = (take (length xs - k) (drop k (replayOrder xs)), r')" by blast
    then show ?thesis using len S(4) by (simp add: Flush_def)
  qed
qed

text \<open>What a stream of pushes and a final flush emit.\<close>

definition emitted :: "int \<Rightarrow> Order list \<Rightarrow> Order list" where
  "emitted window xs = (let (out, r) = pushAll (NewReorderer window) xs in out @ fst (Flush r))"

lemma emitted_conserves:
  fixes window :: int and xs :: "Order list"
  defines "p \<equiv> pushAll (NewReorderer window) xs"
  shows "int (length (r_buf (snd p))) < 2 * max 1 window"
    "mset (map plain (emitted window xs)) = mset (map plain xs)"
    "r_buf (snd (Flush (snd p))) = []"
proof -
  let ?r = "NewReorderer window"
  have w: "r_window ?r > 0" "int (r_window ?r) = max 1 window" "r_buf ?r = []" by (auto simp: NewReorderer_def)
  obtain out r where p: "pushAll ?r xs = (out, r)" by fastforce
  obtain rest r' where f: "release (length (r_buf r)) r = (rest, r')" by fastforce
  have 1: "mset (map plain out) + mset (map plain (r_buf r)) = mset (map plain xs) \<and> length (r_buf r) < 2 * r_window ?r"
    using pushAll_conserves [OF p] w by simp
  have 2: "mset (map plain rest) = mset (map plain (r_buf r))" "r_buf r' = []"
    using release_conserves [OF f] by auto
  show "int (length (r_buf (snd p))) < 2 * max 1 window" "r_buf (snd (Flush (snd p))) = []"
    "mset (map plain (emitted window xs)) = mset (map plain xs)"
    using 1 2 w(2) by (simp_all add: p_def p Flush_def f emitted_def)
qed

lemma emitted_exact:
  assumes "seq_window base xs" "flow_fifo base xs" "at_most_late (nat (max 1 window)) xs"
  shows "emitted window xs = replayOrder xs"
proof -
  let ?r = "NewReorderer window"
  have w: "r_window ?r = nat (max 1 window)" "r_window ?r > 0" by (auto simp: NewReorderer_def max_def)
  have "rinv base xs 0 0 ?r" by (simp add: rinv_def NewReorderer_def)
  from pushAll_rinv [OF this assms(1,2)] assms(3) w obtain m r'
    where "pushAll ?r xs = (take m (replayOrder xs), r')" "rinv base xs (length xs) m r'" by auto
  then show ?thesis using Flush_rinv [OF _ assms(1,2)] by (simp add: emitted_def)
qed

section \<open>Properties\<close>

text \<open>
  Nothing is lost and memory is bounded. Whatever arrives, a reorderer made with any
  window holds fewer than twice the window (at least two) of orders after every push, and
  the orders emitted on the way together with those emitted by \<open>Flush\<close> are exactly the
  orders pushed, up to the effective time that promotion writes; after \<open>Flush\<close> the buffer
  is empty.
\<close>

lemma reorderer_conserves_and_bounds:
  "int (length (r_buf (snd (pushAll (NewReorderer window) xs)))) < 2 * max 1 window \<and>
   mset (map plain (emitted window xs)) = mset (map plain xs) \<and>
   r_buf (snd (Flush (snd (pushAll (NewReorderer window) xs)))) = []"
  using emitted_conserves by blast

text \<open>
  C8. Streaming is exact. When the sequence numbers of every connection stay within half
  of their range, the requests of a connection arrive in sequence order, and no request
  arrives more than \<open>window\<close> places after its place in the replay, the orders emitted by
  the bounded reorderer are, order by order and with the same effective times, the replay
  order that sorting the whole session would give.
\<close>

theorem reorderer_exact:
  assumes "seq_window base xs" "flow_fifo base xs" "at_most_late (nat (max 1 window)) xs"
  shows "emitted window xs = replayOrder xs"
  by (rule emitted_exact [OF assms])

definition demoStream :: "Order list" where
  "demoStream = [demoReq ''a'' 1 1 20, demoReq ''b'' 2 1 10, demoReq ''c'' 1 2 15]"

lemma demoStream_replay: "replayOrder demoStream =
  [(demoReq ''b'' 2 1 10)\<lparr>o_EffectiveT3 := 10\<rparr>, (demoReq ''a'' 1 1 20)\<lparr>o_EffectiveT3 := 20\<rparr>, (demoReq ''c'' 1 2 15)\<lparr>o_EffectiveT3 := 20\<rparr>]"
  by code_simp

theorem reorderer_exact_witness:
  "emitted 1 demoStream = replayOrder demoStream \<and>
   map o_OrderID (replayOrder demoStream) = [''b'', ''a'', ''c'']"
proof -
  have "seq_window (\<lambda>_. 0) demoStream" by (simp add: seq_window_def demoStream_def demoReq_def rank_def)
  moreover have "flow_fifo (\<lambda>_. 0) demoStream" by (simp add: flow_fifo_def demoStream_def demoReq_def rank_def)
  moreover have "at_most_late (nat (max 1 1)) demoStream"
    unfolding at_most_late_def demoStream_replay by (simp add: demoStream_def demoReq_def All_less_Suc)
  moreover have "map o_OrderID (replayOrder demoStream) = [''b'', ''a'', ''c'']"
    unfolding demoStream_replay by (simp add: demoReq_def)
  ultimately show ?thesis using reorderer_exact [of "\<lambda>_. 0" demoStream 1] by blast
qed

text \<open>Every order arrives at most \<open>w\<close> places from its place in the replay, in either direction.\<close>

definition within_places :: "nat \<Rightarrow> Order list \<Rightarrow> bool" where
  "within_places w xs \<longleftrightarrow> (\<forall>i<length xs. \<forall>p<length xs.
     o_Flow (replayOrder xs ! p) = o_Flow (xs ! i) \<and> o_TCPSeq (replayOrder xs ! p) = o_TCPSeq (xs ! i) \<longrightarrow> i \<le> p + w \<and> p \<le> i + w)"

text \<open>
  For a window \<open>w\<close>: one connection in order, and another one whose second request \<open>q\<close> is captured
  early and arrives in the middle, while the first one \<open>p\<close> arrives at the end.
\<close>

definition crossF :: "nat \<Rightarrow> Order" where
  "crossF j = demoReq ''f'' 1 (of_nat j) (of_nat j + 1)"

definition crossQ :: Order where
  "crossQ = demoReq ''q'' 2 2 0"

definition crossP :: Order where
  "crossP = demoReq ''p'' 2 1 4294967296"

definition crossed :: "nat \<Rightarrow> Order list" where
  "crossed w = map crossF [0..<w] @ crossQ # map crossF [w..<2 * w - 1] @ [crossP]"

definition crossedReplay :: "nat \<Rightarrow> Order list" where
  "crossedReplay w = map (\<lambda>j. (crossF j)\<lparr>o_EffectiveT3 := of_nat j + 1\<rparr>) [0..<2 * w - 1] @
     [crossP\<lparr>o_EffectiveT3 := 4294967296\<rparr>, crossQ\<lparr>o_EffectiveT3 := 4294967296\<rparr>]"

lemma replayOrder_unique:
  assumes "seq_window base xs" "mset ys = mset (map (norm base xs) xs)" "sorted_wrt (\<lambda>x y. key base x < key base y) ys"
  shows "replayOrder xs = ys"
proof (rule sorted_unique [where lt = "\<lambda>x y. key base x < key base y"])
  have r: "replayOrder xs = sort_stable Less (promoted base xs)" using assms(1) by (simp add: replayOrder_def promoteWith_promoted)
  have m: "map (norm base xs) xs = promoted base xs" by (simp add: promoted_def norm_def)
  show "mset (replayOrder xs) = mset ys" using assms(2) by (simp only: r m mset_sort_stable)
  have s: "sorted_wrt (\<lambda>x y. key base x < key base y) (replayOrder xs)" unfolding r using assms(1) by (intro sorted_by_key) simp
  show "sorted_wrt (\<lambda>a b. \<not> key base b < key base a) (replayOrder xs)" "sorted_wrt (\<lambda>a b. \<not> key base b < key base a) ys"
    using s assms(3) by (auto elim!: sorted_wrt_mono_rel [rotated])
  show "key base a < key base b \<or> key base b < key base a" if "a \<in> set (replayOrder xs)" "b \<in> set (replayOrder xs)" "a \<noteq> b" for a b
  proof -
    have "key base a \<noteq> key base b" using key_inj [of base "promoted base xs" a b] assms(1) that by (auto simp: r)
    then show ?thesis by (rule neq_iff [THEN iffD1])
  qed
qed

abbreviation zeroBase :: "Flow \<Rightarrow> u32" where
  "zeroBase \<equiv> (\<lambda>_. 0)"

lemma crossed_unat [simp]: "j < 2 ^ 31 \<Longrightarrow> unat (of_nat j :: u32) = j" "j < 2 ^ 31 \<Longrightarrow> unat (of_nat j + 1 :: u64) = Suc j"
proof -
  show "j < 2 ^ 31 \<Longrightarrow> unat (of_nat j :: u32) = j" by (simp add: unat_of_nat)
  assume "j < 2 ^ 31"
  then have "unat (of_nat (Suc j) :: u64) = Suc j" by (simp only: unat_of_nat) simp
  then show "unat (of_nat j + 1 :: u64) = Suc j" by (simp add: add.commute)
qed

lemma crossed_fields [simp]:
  "o_Flow (crossF j) = \<lparr>SrcIP = 1, SrcPort = 1\<rparr>" "o_TCPSeq (crossF j) = of_nat j" "o_T3Ns (crossF j) = of_nat j + 1"
  "o_Flow crossQ = \<lparr>SrcIP = 1, SrcPort = 2\<rparr>" "o_TCPSeq crossQ = 2" "o_T3Ns crossQ = 0"
  "o_Flow crossP = \<lparr>SrcIP = 1, SrcPort = 2\<rparr>" "o_TCPSeq crossP = 1" "o_T3Ns crossP = 4294967296"
  "rank zeroBase crossP = 1" "rank zeroBase crossQ = 2" "j < 2 ^ 31 \<Longrightarrow> rank zeroBase (crossF j) = j"
  by (simp_all add: crossF_def crossQ_def crossP_def demoReq_def rank_def)

text \<open>The promoted times among such orders.\<close>

lemma crossed_effOf:
  assumes "set xs \<subseteq> crossF ` {..<n} \<union> {crossQ, crossP}" "n \<le> 2 ^ 31"
  shows "crossF j \<in> set xs \<Longrightarrow> j < n \<Longrightarrow> effOf zeroBase None xs (crossF j) = of_nat j + 1"
    "crossP \<in> set xs \<Longrightarrow> effOf zeroBase None xs crossP = 4294967296"
    "crossQ \<in> set xs \<Longrightarrow> effOf zeroBase None xs crossQ = (if crossP \<in> set xs then 4294967296 else 0)"
proof -
  have mem: "x = crossQ \<or> x = crossP \<or> (\<exists>i<n. x = crossF i)" if "x \<in> set xs" for x using that assms(1) by auto
  have fin: "finite {o_T3Ns y | y. y \<in> set xs \<and> P y}" for P by (rule finite_preds)
  show "effOf zeroBase None xs (crossF j) = of_nat j + 1" if j: "crossF j \<in> set xs" "j < n"
    unfolding effOf_def
  proof (rule Max_eqI)
    fix t assume "t \<in> set_option None \<union> {o_T3Ns y | y. y \<in> set xs \<and> o_Flow y = o_Flow (crossF j) \<and> rank zeroBase y \<le> rank zeroBase (crossF j)}"
    then obtain i where "i < n" "i \<le> j" "t = of_nat i + 1" using mem j(2) assms(2) by fastforce
    then show "t \<le> of_nat j + 1" using j(2) assms(2) by (simp add: word_le_nat_alt)
  qed (use fin j in \<open>auto intro!: exI [of _ "crossF j"]\<close>)
  show "effOf zeroBase None xs crossP = 4294967296" if h: "crossP \<in> set xs"
    unfolding effOf_def
  proof (rule Max_eqI)
    fix t assume "t \<in> set_option None \<union> {o_T3Ns y | y. y \<in> set xs \<and> o_Flow y = o_Flow crossP \<and> rank zeroBase y \<le> rank zeroBase crossP}"
    then show "t \<le> 4294967296" using mem by fastforce
  qed (use fin h in force)+
  show "effOf zeroBase None xs crossQ = (if crossP \<in> set xs then 4294967296 else 0)" if h: "crossQ \<in> set xs"
    unfolding effOf_def
  proof (rule Max_eqI)
    fix t assume "t \<in> set_option None \<union> {o_T3Ns y | y. y \<in> set xs \<and> o_Flow y = o_Flow crossQ \<and> rank zeroBase y \<le> rank zeroBase crossQ}"
    then show "t \<le> (if crossP \<in> set xs then 4294967296 else 0)" using mem by fastforce
  qed (use fin h in force)+
qed

text \<open>What of it is buffered when the first orders are released, and its replay.\<close>

definition crossedHead :: "nat \<Rightarrow> Order list" where
  "crossedHead w = map crossF [0..<w] @ crossQ # map crossF [w..<2 * w - 1]"

lemma crossed_split: "crossed w = crossedHead w @ [crossP]"
  by (simp add: crossed_def crossedHead_def)

lemma crossed_upt: "1 \<le> w \<Longrightarrow> [0..<2 * w - 1] = [0..<w] @ [w..<2 * w - 1]"
  using upt_add_eq_append [of 0 w "w - 1"] by (simp add: mult_2)

lemma crossed_sets:
  "set (crossedHead w) \<subseteq> crossF ` {..<2 * w} \<union> {crossQ, crossP}" "set (crossed w) \<subseteq> crossF ` {..<2 * w} \<union> {crossQ, crossP}"
  "crossQ \<in> set (crossedHead w)" "crossQ \<in> set (crossed w)" "crossP \<in> set (crossed w)" "crossP \<notin> set (crossedHead w)"
proof -
  have "crossP \<noteq> crossF j" "crossP \<noteq> crossQ" for j by (auto dest: arg_cong [of _ _ o_Flow] arg_cong [of _ _ o_TCPSeq])
  then show "crossP \<notin> set (crossedHead w)" by (auto simp: crossedHead_def)
qed (auto simp: crossedHead_def crossed_def)

lemma crossF_mem: "1 \<le> w \<Longrightarrow> j < 2 * w - 1 \<Longrightarrow> crossF j \<in> set (crossedHead w) \<and> crossF j \<in> set (crossed w)"
  by (cases "j < w") (auto simp: crossedHead_def crossed_def)

lemma crossed_norm:
  assumes "set xs \<subseteq> crossF ` {..<2 * w} \<union> {crossQ, crossP}" "w \<le> 2 ^ 30" "\<And>j. j < 2 * w - 1 \<Longrightarrow> crossF j \<in> set xs"
    and "1 \<le> w"
  shows "map (norm zeroBase xs) (map crossF [0..<w]) = map (\<lambda>j. (crossF j)\<lparr>o_EffectiveT3 := of_nat j + 1\<rparr>) [0..<w]"
    "map (norm zeroBase xs) (map crossF [w..<2 * w - 1]) = map (\<lambda>j. (crossF j)\<lparr>o_EffectiveT3 := of_nat j + 1\<rparr>) [w..<2 * w - 1]"
proof -
  have "norm zeroBase xs (crossF j) = (crossF j)\<lparr>o_EffectiveT3 := of_nat j + 1\<rparr>" if "j < 2 * w - 1" for j
    using crossed_effOf(1) [OF assms(1) _ assms(3) [OF that]] that assms(2) by (simp add: norm_def)
  then show "map (norm zeroBase xs) (map crossF [0..<w]) = map (\<lambda>j. (crossF j)\<lparr>o_EffectiveT3 := of_nat j + 1\<rparr>) [0..<w]"
    "map (norm zeroBase xs) (map crossF [w..<2 * w - 1]) = map (\<lambda>j. (crossF j)\<lparr>o_EffectiveT3 := of_nat j + 1\<rparr>) [w..<2 * w - 1]"
    using assms(4) by simp_all
qed

lemma crossed_window:
  assumes "1 \<le> w" "w \<le> 2 ^ 30"
  shows "seq_window zeroBase (crossed w)" "seq_window zeroBase (crossedHead w)"
proof -
  have inj: "i = j" if "(of_nat i :: u32) = of_nat j" "i < 2 * w" "j < 2 * w" for i j
    using arg_cong [OF that(1), of unat] that(2,3) assms(2) by simp
  have "distinct (map (\<lambda>x. (o_Flow x, o_TCPSeq x)) (map crossF [0..<2 * w - 1]))"
    using inj by (auto simp: distinct_map inj_on_def)
  then have "distinct (map (\<lambda>x. (o_Flow x, o_TCPSeq x)) (crossed w))"
    unfolding crossed_upt [OF assms(1)] by (auto simp: crossed_def)
  moreover have "rank zeroBase x < 2 ^ 31" if "x \<in> set (crossed w)" for x
    using crossed_sets(2) [of w] that assms(2) by auto
  ultimately show "seq_window zeroBase (crossed w)" by (simp add: seq_window_def)
  then show "seq_window zeroBase (crossedHead w)" by (simp add: seq_window_def crossed_split)
qed

lemma crossF_sorted:
  assumes "n \<le> 2 ^ 31"
  shows "sorted_wrt (\<lambda>x y. key zeroBase x < key zeroBase y) (map (\<lambda>j. (crossF j)\<lparr>o_EffectiveT3 := of_nat j + 1\<rparr>) [0..<n])"
  using assms by (auto simp: sorted_wrt_iff_nth_less key_def word_less_nat_alt)

lemma crossed_replay:
  assumes "1 \<le> w" "w \<le> 2 ^ 30"
  shows "replayOrder (crossed w) = crossedReplay w"
proof (rule replayOrder_unique [OF crossed_window(1) [OF assms]])
  have n: "2 * w \<le> 2 ^ 31" "2 * w - 1 \<le> 2 ^ 31" using assms(2) by simp_all
  note e = crossed_effOf [OF crossed_sets(2) n(1)]
  note m = crossed_norm [OF crossed_sets(2) assms(2) _ assms(1)]
  have h: "norm zeroBase (crossed w) crossP = crossP\<lparr>o_EffectiveT3 := 4294967296\<rparr>"
    "norm zeroBase (crossed w) crossQ = crossQ\<lparr>o_EffectiveT3 := 4294967296\<rparr>"
    using e(2,3) crossed_sets(4,5) by (simp_all add: norm_def)
  have "map (norm zeroBase (crossed w)) (crossed w) = map (\<lambda>j. (crossF j)\<lparr>o_EffectiveT3 := of_nat j + 1\<rparr>) [0..<w] @
      crossQ\<lparr>o_EffectiveT3 := 4294967296\<rparr> # map (\<lambda>j. (crossF j)\<lparr>o_EffectiveT3 := of_nat j + 1\<rparr>) [w..<2 * w - 1] @ [crossP\<lparr>o_EffectiveT3 := 4294967296\<rparr>]"
    by (subst (2) crossed_def) (simp only: map_append list.map m [OF crossF_mem [OF assms(1), THEN conjunct2]] h)
  then show "mset (crossedReplay w) = mset (map (norm zeroBase (crossed w)) (crossed w))"
    unfolding crossedReplay_def crossed_upt [OF assms(1)] by simp
  show "sorted_wrt (\<lambda>x y. key zeroBase x < key zeroBase y) (crossedReplay w)"
    unfolding crossedReplay_def sorted_wrt_append using crossF_sorted [OF n(2)] assms(2)
    by (auto simp: key_def word_less_nat_alt)
qed

lemma crossedHead_first:
  assumes "1 \<le> w" "w \<le> 2 ^ 30"
  shows "replayOrder (crossedHead w) = crossQ\<lparr>o_EffectiveT3 := 0\<rparr> # map (\<lambda>j. (crossF j)\<lparr>o_EffectiveT3 := of_nat j + 1\<rparr>) [0..<2 * w - 1]"
proof (rule replayOrder_unique [OF crossed_window(2) [OF assms]])
  have n: "2 * w \<le> 2 ^ 31" "2 * w - 1 \<le> 2 ^ 31" using assms(2) by simp_all
  note e = crossed_effOf [OF crossed_sets(1) n(1)]
  note m = crossed_norm [OF crossed_sets(1) assms(2) _ assms(1)]
  have h: "norm zeroBase (crossedHead w) crossQ = crossQ\<lparr>o_EffectiveT3 := 0\<rparr>"
    using e(3) crossed_sets(3,6) by (simp add: norm_def)
  have "map (norm zeroBase (crossedHead w)) (crossedHead w) = map (\<lambda>j. (crossF j)\<lparr>o_EffectiveT3 := of_nat j + 1\<rparr>) [0..<w] @
      crossQ\<lparr>o_EffectiveT3 := 0\<rparr> # map (\<lambda>j. (crossF j)\<lparr>o_EffectiveT3 := of_nat j + 1\<rparr>) [w..<2 * w - 1]"
    by (subst (2) crossedHead_def) (simp only: map_append list.map m [OF crossF_mem [OF assms(1), THEN conjunct1]] h)
  then show "mset (crossQ\<lparr>o_EffectiveT3 := 0\<rparr> # map (\<lambda>j. (crossF j)\<lparr>o_EffectiveT3 := of_nat j + 1\<rparr>) [0..<2 * w - 1]) =
      mset (map (norm zeroBase (crossedHead w)) (crossedHead w))"
    unfolding crossed_upt [OF assms(1)] by simp
  show "sorted_wrt (\<lambda>x y. key zeroBase x < key zeroBase y)
      (crossQ\<lparr>o_EffectiveT3 := 0\<rparr> # map (\<lambda>j. (crossF j)\<lparr>o_EffectiveT3 := of_nat j + 1\<rparr>) [0..<2 * w - 1])"
    using crossF_sorted [OF n(2)] assms(2) by (auto simp: key_def word_less_nat_alt)
qed

lemma crossed_nth:
  assumes "1 \<le> w" "i < 2 * w + 1"
  shows "crossed w ! i = (if i < w then crossF i else if i = w then crossQ else if i < 2 * w then crossF (i - 1) else crossP)"
    "o_Flow (crossedReplay w ! i) = (if i < 2 * w - 1 then \<lparr>SrcIP = 1, SrcPort = 1\<rparr> else \<lparr>SrcIP = 1, SrcPort = 2\<rparr>)"
    "o_TCPSeq (crossedReplay w ! i) = (if i < 2 * w - 1 then of_nat i else if i = 2 * w - 1 then 1 else 2)"
proof -
  consider "i < w" | "i = w" | "w < i" "i < 2 * w" | "i = 2 * w" using assms(2) by linarith
  then show "crossed w ! i = (if i < w then crossF i else if i = w then crossQ else if i < 2 * w then crossF (i - 1) else crossP)"
  proof cases
    case 3
    then have "crossed w ! i = map crossF [w..<2 * w - 1] ! (i - w - 1)" by (simp add: crossed_def nth_append)
    then show ?thesis using 3 by simp
  qed (use assms(1) in \<open>simp_all add: crossed_def nth_append\<close>)
  have "crossedReplay w ! i = (if i < 2 * w - 1 then (crossF i)\<lparr>o_EffectiveT3 := of_nat i + 1\<rparr>
      else if i = 2 * w - 1 then crossP\<lparr>o_EffectiveT3 := 4294967296\<rparr> else crossQ\<lparr>o_EffectiveT3 := 4294967296\<rparr>)"
  proof (cases "i < 2 * w - 1")
    case False
    then have "i - (2 * w - 1) = 0 \<and> i = 2 * w - 1 \<or> i - (2 * w - 1) = 1 \<and> i \<noteq> 2 * w - 1" using assms by linarith
    then show ?thesis using False by (auto simp: crossedReplay_def nth_append)
  qed (simp add: crossedReplay_def nth_append)
  then show "o_Flow (crossedReplay w ! i) = (if i < 2 * w - 1 then \<lparr>SrcIP = 1, SrcPort = 1\<rparr> else \<lparr>SrcIP = 1, SrcPort = 2\<rparr>)"
    "o_TCPSeq (crossedReplay w ! i) = (if i < 2 * w - 1 then of_nat i else if i = 2 * w - 1 then 1 else 2)"
    by simp_all
qed

lemma crossed_within:
  assumes "1 \<le> w" "w \<le> 2 ^ 30"
  shows "within_places w (crossed w)"
proof -
  have len: "length (crossed w) = 2 * w + 1" using assms(1) by (simp add: crossed_def)
  have inj: "i = j" if "(of_nat i :: u32) = of_nat j" "i < 2 * w" "j < 2 * w" for i j
    using arg_cong [OF that(1), of unat] that(2,3) assms(2) by simp
  show ?thesis unfolding within_places_def crossed_replay [OF assms] len
  proof (intro allI impI)
    fix i p assume ip: "i < 2 * w + 1" "p < 2 * w + 1"
      and eq: "o_Flow (crossedReplay w ! p) = o_Flow (crossed w ! i) \<and> o_TCPSeq (crossedReplay w ! p) = o_TCPSeq (crossed w ! i)"
    note n = crossed_nth [OF assms(1)]
    consider "i < w" | "i = w" | "w < i" "i < 2 * w" | "i = 2 * w" using ip(1) by linarith
    then show "i \<le> p + w \<and> p \<le> i + w"
    proof cases
      case 1
      then have "p = i" using eq n(1) [OF ip(1)] n(2,3) [OF ip(2)] inj [of p i] by (auto split: if_splits)
      then show ?thesis by simp
    next
      case 3
      then have "p = i - 1" using eq n(1) [OF ip(1)] n(2,3) [OF ip(2)] inj [of p "i - 1"] by (auto split: if_splits)
      then show ?thesis using 3 by linarith
    qed (use eq n(1) [OF ip(1)] n(2,3) [OF ip(2)] ip(2) assms(1) in \<open>auto split: if_splits\<close>)
  qed
qed

lemma pushAll_fill: "length (r_buf r) + length xs < 2 * r_window r \<Longrightarrow> pushAll r xs = ([], r\<lparr>r_buf := r_buf r @ xs\<rparr>)"
  by (induction xs arbitrary: r) (simp_all add: Push_def Let_def)

lemma pushAll_append: "pushAll r (xs @ ys) = (let (out, r1) = pushAll r xs; (out', r2) = pushAll r1 ys in (out @ out', r2))"
  by (induction xs arbitrary: r) (simp_all add: Let_def split: prod.splits)

text \<open>The first release comes with the \<open>2 * w\<close>-th order, and sees nothing of what follows.\<close>

lemma first_release:
  assumes "1 \<le> w" "length zs = 2 * w"
  shows "\<exists>rest. emitted (int w) (zs @ us) = take w (replayOrder zs) @ rest"
proof -
  let ?r = "NewReorderer (int w)"
  have r: "r_window ?r = w" "r_buf ?r = []" "r_carry ?r = Map.empty" using assms(1) by (simp_all add: NewReorderer_def)
  have "zs \<noteq> []" using assms by auto
  then have z: "zs = butlast zs @ [last zs]" "length (butlast zs) = 2 * w - 1" using assms(2) by simp_all
  have "pushAll ?r (butlast zs) = ([], ?r\<lparr>r_buf := butlast zs\<rparr>)" using z(2) assms(1) r by (subst pushAll_fill) simp_all
  moreover have "fst (Push (?r\<lparr>r_buf := butlast zs\<rparr>) (last zs)) = take w (replayOrder zs)"
    using assms z r by (auto simp: Push_def release_def Let_def promote_def replayOrder_def)
  ultimately have "fst (pushAll ?r zs) = take w (replayOrder zs)"
    by (subst z(1)) (simp add: pushAll_append split: prod.split)
  then show ?thesis by (auto simp: emitted_def pushAll_append split: prod.split)
qed

text \<open>
  C9. The arrival order of a connection matters, for every window. Whatever window \<open>w\<close> the
  reorderer has, there is a session in which every request arrives at most \<open>w\<close> places from
  its place in the replay, in either direction, and of which the request that the replay puts
  last is emitted first: the second request of a connection arrives before the first one, and is released before
  it can be held back. Exactness needs more than the distance bound that the comment on the type gives.
\<close>

theorem reorderer_distance_bound_not_enough:
  assumes "1 \<le> w" "w \<le> 2 ^ 30"
  shows "\<exists>xs. length xs = 2 * w + 1 \<and> seq_window (\<lambda>_. 0) xs \<and> within_places w xs \<and>
    plain (hd (emitted (int w) xs)) = plain (last (replayOrder xs)) \<and> emitted (int w) xs \<noteq> replayOrder xs"
proof (intro exI [of _ "crossed w"] conjI)
  have len: "length (crossedHead w) = 2 * w" using assms(1) by (simp add: crossedHead_def)
  obtain rest where "emitted (int w) (crossed w) = take w (replayOrder (crossedHead w)) @ rest"
    using first_release [OF assms(1) len] crossed_split by metis
  moreover have "take w (x # ys) = x # take (w - 1) ys" for x :: Order and ys using assms(1) by (cases w) simp_all
  ultimately have hd: "hd (emitted (int w) (crossed w)) = crossQ\<lparr>o_EffectiveT3 := 0\<rparr>" by (simp add: crossedHead_first [OF assms])
  then show "plain (hd (emitted (int w) (crossed w))) = plain (last (replayOrder (crossed w)))"
    by (simp add: crossed_replay [OF assms] crossedReplay_def plain_def)
  have "o_Flow (replayOrder (crossed w) ! 0) = \<lparr>SrcIP = 1, SrcPort = 1\<rparr>" "replayOrder (crossed w) \<noteq> []"
    using crossed_nth(2) [OF assms(1), of 0] assms(1) by (simp_all add: crossed_replay [OF assms]) (simp add: crossedReplay_def)
  then have "o_Flow (hd (replayOrder (crossed w))) = \<lparr>SrcIP = 1, SrcPort = 1\<rparr>" by (simp add: hd_conv_nth)
  then show "emitted (int w) (crossed w) \<noteq> replayOrder (crossed w)" using hd by auto
qed (use assms crossed_window crossed_within in \<open>simp_all add: crossed_def\<close>)

text \<open>The window the service uses by default.\<close>

theorem reorderer_distance_bound_not_enough_witness:
  "\<exists>xs. length xs = 2097153 \<and> within_places 1048576 xs \<and> emitted 1048576 xs \<noteq> replayOrder xs"
  using reorderer_distance_bound_not_enough [of 1048576] by auto

declare crossed_unat [simp del] crossed_fields [simp del]

end
