(* ===== verification/Source.thy ===== *)
theory Source
  imports Pipeline Reorder
begin

text \<open>
  The streaming session source of the correctness validator
  (\<open>internal/source/stream.go\<close>, \<open>offsets.go\<close> and \<open>band.go\<close>): which partitions and which
  offsets of the two topics are read, the merge of the partition streams by event time, the
  join of every order with its responses within the join window, and the reorderer that
  passes the joined orders on.

  The Kafka client and the msgpack decoder are the parameter \<open>kafka_ops\<close>: what a dial, an
  offset query or the n-th read after a seek returns, where a read may also block for ever. A reader that never meets its last
  offset does not return, so \<open>streamPartition\<close> and \<open>StreamSession\<close> are option valued. A
  session is not cancelled while it is read. The callbacks \<open>apply\<close>, \<open>addPhantom\<close>,
  \<open>addLost\<close> and \<open>addCaptureGap\<close> are recorded in a trace, in the order they are called.
  A time is its number of milliseconds since 1970.
\<close>

section \<open>Definitions\<close>

subsection \<open>The join\<close>

definition DefaultReorderWindow :: int where
  "DefaultReorderWindow = 1048576"

definition DefaultJoinWindowNS :: u64 where
  "DefaultJoinWindowNS = 500 * 1000 * 1000"

definition maxGapSamples :: int where
  "maxGapSamples = 200000"

record StreamCounts =
  SentEvents :: u64
  AckedEvents :: u64
  MatchedOrders :: u64
  LostOrders :: u64
  CaptureGapLastSecond :: u64
  CaptureGapSpreadNs :: u64
  CaptureGaps :: u64

definition zeroCounts :: StreamCounts where
  "zeroCounts = \<lparr>SentEvents = 0, AckedEvents = 0, MatchedOrders = 0, LostOrders = 0,
     CaptureGapLastSecond = 0, CaptureGapSpreadNs = 0, CaptureGaps = 0\<rparr>"

record tsBatch =
  b_ts :: u64
  b_isAck :: bool
  b_sent :: "OrderSentEvent list"
  b_acks :: "OrderAckedEvent list"

record pendingOrder =
  p_sent :: OrderSentEvent
  p_hasSent :: bool
  p_acks :: "OrderAckedEvent list"
  p_t3 :: u64
  p_sendTS :: u64

definition zeroSent :: OrderSentEvent where
  "zeroSent = \<lparr>s_SessionID = [], s_SubmissionID = [], s_WorkerID = [], s_TaskID = 0, s_OrderID = [],
     s_TargetSendTSNS = 0, s_SendTSNS = 0, s_RecvDoneTSNS = 0, s_TimedOut = False, s_Price = 0,
     s_Qty = 0, s_Side = [], s_PayloadType = [], s_OrdType = [], s_OrigOrderID = [],
     s_BarrierEpochNs = 0, s_SMPID = 0\<rparr>"

definition newPending :: pendingOrder where
  "newPending = \<lparr>p_sent = zeroSent, p_hasSent = False, p_acks = [], p_t3 = 0, p_sendTS = 0\<rparr>"

datatype pendingOutcome = outcomeMatched | outcomeLost | outcomeCaptureGap | outcomeUnsent

definition outcome :: "pendingOrder \<Rightarrow> pendingOutcome" where
  "outcome p = (if \<not> p_hasSent p then outcomeUnsent
     else if length (p_acks p) > 0 then outcomeMatched
     else if s_TimedOut (p_sent p) then outcomeLost
     else outcomeCaptureGap)"

definition sameAck :: "OrderAckedEvent \<Rightarrow> OrderAckedEvent \<Rightarrow> bool" where
  "sameAck held a \<longleftrightarrow> a_ExecType held = a_ExecType a \<and> a_T7XDPEgressNS held = a_T7XDPEgressNS a \<and>
     a_FillQty held = a_FillQty a \<and> a_FillPrice held = a_FillPrice a"

definition addAck :: "pendingOrder \<Rightarrow> OrderAckedEvent \<Rightarrow> bool \<times> pendingOrder" where
  "addAck p a = (if list_ex (\<lambda>held. sameAck held a) (p_acks p) then (False, p)
     else (True, p\<lparr>p_acks := p_acks p @ [a]\<rparr>))"

definition streamIsFill :: "string \<Rightarrow> u64 \<Rightarrow> bool" where
  "streamIsFill execType qty \<longleftrightarrow> qty > 0 \<and> (execType = ''1'' \<or> execType = ''2'' \<or> execType = ''F'')"

datatype Callback = Apply Order | AddPhantom string u64 i64 | AddLost string Kind | AddCaptureGap

text \<open>The local variables of \<open>StreamSession\<close> that the merge loop changes.\<close>

record Join =
  j_counts :: StreamCounts
  j_gapSendTS :: "u64 list"
  j_maxSendTS :: u64
  j_pending :: "string \<rightharpoonup> pendingOrder"
  j_order :: "string list"
  j_contestant :: string
  j_duplicateAcks :: nat
  j_r :: Reorderer
  j_trace :: "Callback list"

definition newJoin :: "int \<Rightarrow> Join" where
  "newJoin window = \<lparr>j_counts = zeroCounts, j_gapSendTS = [], j_maxSendTS = 0, j_pending = Map.empty,
     j_order = [], j_contestant = [], j_duplicateAcks = 0, j_r = NewReorderer window, j_trace = []\<rparr>"

definition emitOne :: "string \<Rightarrow> pendingOrder \<Rightarrow> Join \<Rightarrow> Join" where
  "emitOne oid po j = (case outcome po of
     outcomeMatched \<Rightarrow> (case AssembleOrder (p_sent po) (p_acks po) of
         None \<Rightarrow> j
       | Some o' \<Rightarrow> let (out, r') = Push (j_r j) o' in
           j\<lparr>j_counts := (j_counts j)\<lparr>MatchedOrders := MatchedOrders (j_counts j) + 1\<rparr>,
             j_r := r', j_trace := j_trace j @ map Apply out\<rparr>)
   | outcomeLost \<Rightarrow>
       j\<lparr>j_counts := (j_counts j)\<lparr>LostOrders := LostOrders (j_counts j) + 1\<rparr>,
         j_trace := j_trace j @ [AddLost oid (KindFrom (s_PayloadType (p_sent po)) (s_OrdType (p_sent po)))]\<rparr>
   | outcomeCaptureGap \<Rightarrow>
       j\<lparr>j_counts := (j_counts j)\<lparr>CaptureGaps := CaptureGaps (j_counts j) + 1\<rparr>,
         j_gapSendTS := (if s_SendTSNS (p_sent po) \<noteq> 0 \<and> int (length (j_gapSendTS j)) < maxGapSamples
           then j_gapSendTS j @ [s_SendTSNS (p_sent po)] else j_gapSendTS j),
         j_trace := j_trace j @ [AddCaptureGap]\<rparr>
   | outcomeUnsent \<Rightarrow>
       j\<lparr>j_trace := j_trace j @ map (\<lambda>a. AddPhantom oid (a_FillQty a) (int64 (a_FillPrice a)))
           (filter (\<lambda>a. streamIsFill (a_ExecType a) (a_FillQty a)) (p_acks po))\<rparr>)"

text \<open>The loop of \<open>emitReady\<close> over the pending ids; the ids it leaves in place are returned.\<close>

fun emitLoop :: "u64 \<Rightarrow> bool \<Rightarrow> string list \<Rightarrow> Join \<Rightarrow> string list \<times> Join" where
  "emitLoop watermark flushAll [] j = ([], j)"
| "emitLoop watermark flushAll (oid # ids) j = (case j_pending j oid of
     None \<Rightarrow> emitLoop watermark flushAll ids j
   | Some po \<Rightarrow>
       let ref = (if p_sendTS po = 0 then p_t3 po else p_sendTS po) in
       if \<not> flushAll \<and> ref + DefaultJoinWindowNS > watermark then (oid # ids, j)
       else let j1 = emitOne oid po j in
         emitLoop watermark flushAll ids (j1\<lparr>j_pending := (j_pending j1)(oid := None)\<rparr>))"

definition emitReady :: "u64 \<Rightarrow> bool \<Rightarrow> Join \<Rightarrow> Join" where
  "emitReady watermark flushAll j = (let (rest, j') = emitLoop watermark flushAll (j_order j) j in
     j'\<lparr>j_order := rest\<rparr>)"

text \<open>The pending entry of an id, made and queued when there is none.\<close>

definition lookupPending :: "string \<Rightarrow> Join \<Rightarrow> pendingOrder \<times> Join" where
  "lookupPending oid j = (case j_pending j oid of
     Some po \<Rightarrow> (po, j)
   | None \<Rightarrow> (newPending, j\<lparr>j_pending := (j_pending j)(oid \<mapsto> newPending), j_order := j_order j @ [oid]\<rparr>))"

definition processAck :: "Join \<Rightarrow> OrderAckedEvent \<Rightarrow> Join" where
  "processAck j a = (let
       j1 = j\<lparr>j_counts := (j_counts j)\<lparr>AckedEvents := AckedEvents (j_counts j) + 1\<rparr>,
          j_contestant := (if j_contestant j = [] then a_ContestantID a else j_contestant j)\<rparr>;
       (po, j2) = lookupPending (a_OrderID a) j1;
       (fresh, po1) = addAck po a
     in if \<not> fresh then j2\<lparr>j_duplicateAcks := j_duplicateAcks j2 + 1\<rparr>
        else j2\<lparr>j_pending := (j_pending j2)(a_OrderID a \<mapsto>
          (if p_t3 po1 = 0 then po1\<lparr>p_t3 := a_T3XDPIngressNS a\<rparr> else po1))\<rparr>)"

definition processSent :: "Join \<Rightarrow> OrderSentEvent \<Rightarrow> Join" where
  "processSent j s = (let
       j1 = j\<lparr>j_counts := (j_counts j)\<lparr>SentEvents := SentEvents (j_counts j) + 1\<rparr>,
          j_maxSendTS := (if s_SendTSNS s > j_maxSendTS j then s_SendTSNS s else j_maxSendTS j)\<rparr>;
       (po, j2) = lookupPending (s_OrderID s) j1
     in j2\<lparr>j_pending := (j_pending j2)(s_OrderID s \<mapsto>
          po\<lparr>p_sent := s, p_hasSent := True, p_sendTS := s_SendTSNS s\<rparr>)\<rparr>)"

definition processBatch :: "tsBatch \<Rightarrow> Join \<Rightarrow> Join" where
  "processBatch b j = (if b_isAck b then foldl processAck j (b_acks b) else foldl processSent j (b_sent b))"

subsection \<open>The merge\<close>

text \<open>
  The live stream with the smallest head, the first of several. A stream is the batches its
  reader still delivers; its head is the first of them.
\<close>

fun pickMin :: "tsBatch list list \<Rightarrow> nat \<Rightarrow> (nat \<times> u64) option \<Rightarrow> (nat \<times> u64) option" where
  "pickMin [] i best = best"
| "pickMin (s # ss) i best = pickMin ss (Suc i) (case s of
     [] \<Rightarrow> best
   | b # _ \<Rightarrow> (case best of
        None \<Rightarrow> Some (i, b_ts b)
      | Some (m, t) \<Rightarrow> if b_ts b < t then Some (i, b_ts b) else best))"

definition joinStep :: "Join \<Rightarrow> tsBatch \<Rightarrow> Join" where
  "joinStep j b = emitReady (b_ts b) False (processBatch b j)"

lemma pickMin_bound:
  "pickMin ss i best = Some (m, t) \<Longrightarrow>
     (case best of Some (m', _) \<Rightarrow> m = m' | None \<Rightarrow> False) \<or> i \<le> m \<and> m < i + length ss \<and> ss ! (m - i) \<noteq> []"
proof (induction ss arbitrary: i best)
  case (Cons s ss)
  from Cons.IH [OF Cons.prems [unfolded pickMin.simps]] show ?case
    by (cases s; cases best) (auto simp: nth_Cons' Suc_diff_le split: if_splits prod.splits)
qed auto

lemma pick_decreases:
  assumes "pickMin ss 0 None = Some (m, t)"
  shows "sum_list (map length (ss[m := tl (ss ! m)])) < sum_list (map length ss)"
proof -
  from pickMin_bound [OF assms] have m: "m < length ss" "ss ! m \<noteq> []" by auto
  have "sum_list (map length (ss[m := tl (ss ! m)])) + length (ss ! m) = sum_list (map length ss) + length (tl (ss ! m))"
    using m(1) elem_le_sum_list [of m "map length ss"] by (simp add: map_update sum_list_update)
  then show ?thesis using m(2) by (cases "ss ! m") simp_all
qed

function mergeLoop :: "tsBatch list list \<Rightarrow> Join \<Rightarrow> Join" where
  "mergeLoop streams j = (case pickMin streams 0 None of
     None \<Rightarrow> j
   | Some (m, _) \<Rightarrow> mergeLoop (streams[m := tl (streams ! m)]) (joinStep j (hd (streams ! m))))"
  by pat_completeness auto
termination
  by (relation "measure (\<lambda>(ss, _). sum_list (map length ss))") (auto intro: pick_decreases)

declare mergeLoop.simps [simp del]

text \<open>Everything that is left is emitted, then the reorderer is flushed.\<close>

definition drain :: "Join \<Rightarrow> Join" where
  "drain j = (let j1 = emitReady 0 True j; (out, r') = Flush (j_r j1) in
     j1\<lparr>j_r := r', j_trace := j_trace j1 @ map Apply out\<rparr>)"

definition gapStats :: "u64 list \<Rightarrow> u64 \<Rightarrow> StreamCounts \<Rightarrow> StreamCounts" where
  "gapStats gaps maxSendTS counts = (case gaps of
     [] \<Rightarrow> counts
   | g # _ \<Rightarrow> if maxSendTS > 0 then let
         (lo, hi, n) = foldl (\<lambda>(lo, hi, n) ts. (if ts < lo then ts else lo, if ts > hi then ts else hi,
             if maxSendTS - ts \<le> 1000000000 then n + 1 else n)) (g, g, CaptureGapLastSecond counts) gaps
       in counts\<lparr>CaptureGapLastSecond := n, CaptureGapSpreadNs := hi - lo\<rparr>
     else counts)"

subsection \<open>Bands and partitions\<close>

definition bandPartitionSet :: "u32 \<Rightarrow> int \<Rightarrow> int \<Rightarrow> int set" where
  "bandPartitionSet band numPartitions bandWidth =
     (if numPartitions \<le> 1 then {0}
      else let
        w = clampWidth numPartitions bandWidth;
        base = int32_of_int (uint band * w)
      in set (map (\<lambda>i. go_mod (int32_of_int (base + i)) numPartitions) [0..w - 1]))"

definition filterPartitions :: "int list \<Rightarrow> int set option \<Rightarrow> int list" where
  "filterPartitions parts allowed = (case allowed of None \<Rightarrow> parts | Some A \<Rightarrow> filter (\<lambda>p. p \<in> A) parts)"

record SessionMeta =
  Band :: u32
  MaxRate :: bool

type_synonym BandCache = "string \<rightharpoonup> SessionMeta"

definition NewBandCache :: BandCache where
  "NewBandCache = Map.empty"

definition BandCache_Set :: "BandCache \<Rightarrow> string \<Rightarrow> SessionMeta \<Rightarrow> BandCache" where
  "BandCache_Set c sessionID meta = c(sessionID \<mapsto> meta)"

definition GetAndDelete :: "BandCache \<Rightarrow> string \<Rightarrow> SessionMeta \<times> BandCache" where
  "GetAndDelete c sessionID = (case c sessionID of
     None \<Rightarrow> (\<lparr>Band = OrderBandUnset, MaxRate = False\<rparr>, c)
   | Some meta \<Rightarrow> (meta, c(sessionID := None)))"

subsection \<open>Offsets\<close>

definition startMarginMs :: int where
  "startMarginMs = 60000"

definition hexVal :: "char \<Rightarrow> u8 option" where
  "hexVal c = (let n = (of_char c :: nat) in
     if 48 \<le> n \<and> n \<le> 57 then Some (of_nat (n - 48))
     else if 97 \<le> n \<and> n \<le> 102 then Some (of_nat (n - 87))
     else if 65 \<le> n \<and> n \<le> 70 then Some (of_nat (n - 55))
     else None)"

text \<open>\<open>hex.DecodeString\<close>; an odd digit at the end is an error.\<close>

fun hex_DecodeString :: "string \<Rightarrow> u8 list option" where
  "hex_DecodeString [] = Some []"
| "hex_DecodeString [_] = None"
| "hex_DecodeString (a # b # cs) = do {
     x \<leftarrow> hexVal a; y \<leftarrow> hexVal b; rest \<leftarrow> hex_DecodeString cs; Some ((x * 16 + y) # rest)}"

definition sessionStartFromID :: "string \<Rightarrow> int option" where
  "sessionStartFromID sessionID = (let hexDigits = filter (\<lambda>c. c \<noteq> CHR ''-'') sessionID in
     if length hexDigits \<noteq> 32 then None
     else case hex_DecodeString hexDigits of
       None \<Rightarrow> None
     | Some raw \<Rightarrow>
         if drop_bit 4 (raw ! 6) \<noteq> 7 then None
         else let ms = foldl (\<lambda>ms b. ms * 256 + uint b) 0 (take 6 raw) in
           if ms \<le> 0 then None else Some ms)"

text \<open>Kafka's symbolic first offset.\<close>

definition FirstOffset :: int where
  "FirstOffset = -2"

definition startOffsetForSession :: "string \<Rightarrow> (int \<Rightarrow> 'e + int) \<Rightarrow> 'e + int" where
  "startOffsetForSession sessionID look = (case sessionStartFromID sessionID of
     None \<Rightarrow> Inr FirstOffset
   | Some start \<Rightarrow> look (start - startMarginMs))"

definition resolveStart :: "int \<Rightarrow> int \<Rightarrow> int" where
  "resolveStart seek last' = (if seek < 0 then last' else seek)"

record 'v Message =
  m_Offset :: int
  m_Value :: 'v

record ('v, 'e) kafka_ops =
  k_Dial :: "string \<Rightarrow> 'e option"
  k_ReadPartitions :: "string \<Rightarrow> string \<Rightarrow> 'e + int list"
  k_DialLeader :: "string \<Rightarrow> string \<Rightarrow> int \<Rightarrow> 'e option"
  k_ReadOffset :: "string \<Rightarrow> int \<Rightarrow> int \<Rightarrow> 'e + int"
  k_ReadLastOffset :: "string \<Rightarrow> int \<Rightarrow> 'e + int"
  k_ReadFirstOffset :: "string \<Rightarrow> int \<Rightarrow> 'e + int"
  k_SetOffset :: "string \<Rightarrow> int \<Rightarrow> int \<Rightarrow> 'e option"
  k_ReadMessage :: "string \<Rightarrow> int \<Rightarrow> int \<Rightarrow> nat \<Rightarrow> ('e + 'v Message) option"
  k_UnmarshalAcked :: "'v \<Rightarrow> OrderAckedBatch option"
  k_UnmarshalSent :: "'v \<Rightarrow> OrderSentBatchV2 option"

datatype 'e src_error =
    NoBrokers
  | DialBroker 'e
  | ReadPartitionsFailed string 'e
  | DialLeaderFailed string int 'e
  | StartOffsetFailed string int 'e
  | ReadLastOffsetFailed string int 'e
  | ReadFirstOffsetFailed string int 'e
  | SetOffsetFailed string int 'e
  | ReadFailed string int 'e
  | PartitionReader "'e src_error"

definition partitionOffsets :: "('v, 'e) kafka_ops \<Rightarrow> string \<Rightarrow> string \<Rightarrow> int \<Rightarrow> string \<Rightarrow> 'e src_error + int \<times> int" where
  "partitionOffsets K broker topic part sessionID = (case k_DialLeader K broker topic part of
     Some e \<Rightarrow> Inl (DialLeaderFailed topic part e)
   | None \<Rightarrow> (case startOffsetForSession sessionID (k_ReadOffset K topic part) of
       Inl e \<Rightarrow> Inl (StartOffsetFailed topic part e)
     | Inr start \<Rightarrow> (case k_ReadLastOffset K topic part of
         Inl e \<Rightarrow> Inl (ReadLastOffsetFailed topic part e)
       | Inr last' \<Rightarrow> if start = FirstOffset then (case k_ReadFirstOffset K topic part of
             Inl e \<Rightarrow> Inl (ReadFirstOffsetFailed topic part e)
           | Inr earliest \<Rightarrow> Inr (earliest, last'))
         else Inr (resolveStart start last', last'))))"

subsection \<open>Partition readers\<close>

definition decodeBatch :: "('v, 'e) kafka_ops \<Rightarrow> 'v Message \<Rightarrow> string \<Rightarrow> bool \<Rightarrow> tsBatch option" where
  "decodeBatch K m sessionID isAck =
     (if isAck then (case k_UnmarshalAcked K (m_Value m) of
        None \<Rightarrow> None
      | Some b \<Rightarrow> (case ab_Events b of
          [] \<Rightarrow> None
        | e # _ \<Rightarrow> if ab_SessionID b \<noteq> sessionID then None
            else Some \<lparr>b_ts = a_T3XDPIngressNS e, b_isAck = True, b_sent = [], b_acks = ab_Events b\<rparr>))
      else (case k_UnmarshalSent K (m_Value m) of
        None \<Rightarrow> None
      | Some b \<Rightarrow> (case IntoEvents b of
          [] \<Rightarrow> None
        | e # _ \<Rightarrow> if sb_SessionID b \<noteq> sessionID then None
            else Some \<lparr>b_ts = s_SendTSNS e, b_isAck = False, b_sent = IntoEvents b, b_acks = []\<rparr>)))"

text \<open>
  The read loop from the n-th message on: the batches it still sends and the error it ends
  with. It ends with an error or at the message before the last offset. A read of a partition
  that has no further message blocks; that is the value \<open>None\<close> of \<open>k_ReadMessage\<close>, and then the loop does not return.
\<close>

partial_function (option) readLoop ::
  "('v, 'e) kafka_ops \<Rightarrow> string \<Rightarrow> int \<Rightarrow> string \<Rightarrow> bool \<Rightarrow> int \<Rightarrow> int \<Rightarrow> nat \<Rightarrow> (tsBatch list \<times> 'e src_error option) option" where
  "readLoop K topic part sessionID isAck start last' n =
     (case k_ReadMessage K topic part start n of
        None \<Rightarrow> None
      | Some (Inl e) \<Rightarrow> Some ([], Some (ReadFailed topic part e))
      | Some (Inr m) \<Rightarrow> let out = (case decodeBatch K m sessionID isAck of None \<Rightarrow> [] | Some b \<Rightarrow> [b]) in
          if m_Offset m \<ge> last' - 1 then Some (out, None)
          else do {
            (rest, err) \<leftarrow> readLoop K topic part sessionID isAck start last' (Suc n);
            Some (out @ rest, err)})"

definition streamPartition ::
  "('v, 'e) kafka_ops \<Rightarrow> string \<Rightarrow> string \<Rightarrow> int \<Rightarrow> string \<Rightarrow> bool \<Rightarrow> (tsBatch list \<times> 'e src_error option) option" where
  "streamPartition K broker topic part sessionID isAck =
     (case partitionOffsets K broker topic part sessionID of
        Inl e \<Rightarrow> Some ([], Some e)
      | Inr (start, last') \<Rightarrow>
          if start \<ge> last' then Some ([], None)
          else (case k_SetOffset K topic part start of
            Some e \<Rightarrow> Some ([], Some (SetOffsetFailed topic part e))
          | None \<Rightarrow> readLoop K topic part sessionID isAck start last' 0))"

definition TopicOrdersSent :: string where
  "TopicOrdersSent = ''orders.sent''"

definition TopicOrdersAcked :: string where
  "TopicOrdersAcked = ''orders.acked''"

subsection \<open>The session\<close>

record 'e SessionResult =
  sr_counts :: StreamCounts
  sr_contestant :: string
  sr_error :: "'e src_error option"
  sr_trace :: "Callback list"

definition failedSession :: "'e src_error \<Rightarrow> 'e SessionResult" where
  "failedSession e = \<lparr>sr_counts = zeroCounts, sr_contestant = [], sr_error = Some e, sr_trace = []\<rparr>"

text \<open>Merge, join and drain of the batches the readers deliver.\<close>

definition runStreams :: "int \<Rightarrow> tsBatch list list \<Rightarrow> Join" where
  "runStreams window streams = drain (mergeLoop streams (newJoin window))"

text \<open>The result of a session whose readers have all returned; the first reader error is reported.\<close>

definition sessionResult :: "int \<Rightarrow> (tsBatch list \<times> 'e src_error option) list \<Rightarrow> 'e SessionResult" where
  "sessionResult window readers = (let j = runStreams window (map fst readers) in
     case List.find (\<lambda>e. e \<noteq> None) (map snd readers) of
       Some (Some e) \<Rightarrow> \<lparr>sr_counts = j_counts j, sr_contestant = j_contestant j,
         sr_error = Some (PartitionReader e), sr_trace = j_trace j\<rparr>
     | _ \<Rightarrow> \<lparr>sr_counts = gapStats (j_gapSendTS j) (j_maxSendTS j) (j_counts j),
         sr_contestant = j_contestant j, sr_error = None, sr_trace = j_trace j\<rparr>)"

definition StreamSession :: "('v, 'e) kafka_ops \<Rightarrow> string list \<Rightarrow> string \<Rightarrow> int \<Rightarrow> u32 \<Rightarrow> int \<Rightarrow> 'e SessionResult option" where
  "StreamSession K brokers sessionID window orderBand bandWidth = (let
       window' = (if window \<le> 0 then DefaultReorderWindow else window)
     in case brokers of
       [] \<Rightarrow> Some (failedSession NoBrokers)
     | broker # _ \<Rightarrow> (case k_Dial K broker of
         Some e \<Rightarrow> Some (failedSession (DialBroker e))
       | None \<Rightarrow> (case k_ReadPartitions K broker TopicOrdersSent of
           Inl e \<Rightarrow> Some (failedSession (ReadPartitionsFailed TopicOrdersSent e))
         | Inr sentAll \<Rightarrow> (case k_ReadPartitions K broker TopicOrdersAcked of
             Inl e \<Rightarrow> Some (failedSession (ReadPartitionsFailed TopicOrdersAcked e))
           | Inr ackAll \<Rightarrow> let
               allow = (\<lambda>parts. if orderBand \<noteq> OrderBandUnset
                 then Some (bandPartitionSet orderBand (int (length parts)) bandWidth) else None);
               sentParts = filterPartitions sentAll (allow sentAll);
               ackParts = filterPartitions ackAll (allow ackAll)
             in map_option (sessionResult window')
               (those (map (\<lambda>p. streamPartition K broker TopicOrdersSent p sessionID False) sentParts @
                 map (\<lambda>p. streamPartition K broker TopicOrdersAcked p sessionID True) ackParts))))))"

end
