(* ===== verification/Source_Props.thy ===== *)
theory Source_Props
  imports Source
begin

text \<open>
  Properties of the session source: the merge processes every batch once and in the order of
  event times, every sent order is settled exactly once, the orders that reach the validator
  are joins of a sent event with the distinct responses captured for it, and a producer's
  partition is one its session's reader reads.
\<close>

section \<open>The merge\<close>

lemma pickMin_min:
  "pickMin ss i best = Some (m, t) \<Longrightarrow>
     (\<forall>m' t'. best = Some (m', t') \<longrightarrow> t \<le> t') \<and> (\<forall>s\<in>set ss. s \<noteq> [] \<longrightarrow> t \<le> b_ts (hd s)) \<and>
     (best = Some (m, t) \<or> i \<le> m \<and> m < i + length ss \<and> ss ! (m - i) \<noteq> [] \<and> t = b_ts (hd (ss ! (m - i))))"
proof (induction ss arbitrary: i best)
  case (Cons s ss)
  define best' where "best' = (case s of [] \<Rightarrow> best
   | b # _ \<Rightarrow> (case best of None \<Rightarrow> Some (i, b_ts b)
      | Some (m, t) \<Rightarrow> if b_ts b < t then Some (i, b_ts b) else best))"
  have "pickMin ss (Suc i) best' = Some (m, t)" using Cons.prems by (simp add: best'_def)
  note IH = Cons.IH [OF this]
  have 1: "t \<le> t'" if "best = Some (m', t')" for m' t'
    using IH that by (cases s) (auto simp: best'_def split: if_splits)
  have 2: "t \<le> b_ts (hd s)" if "s \<noteq> []"
    using IH that by (cases s; cases best) (auto simp: best'_def split: if_splits)
  have 3: "best = Some (m, t) \<or> i \<le> m \<and> m < i + length (s # ss) \<and> (s # ss) ! (m - i) \<noteq> [] \<and> t = b_ts (hd ((s # ss) ! (m - i)))"
  proof (cases "best' = Some (m, t)")
    case True
    then show ?thesis by (cases s; cases best) (auto simp: best'_def split: if_splits)
  next
    case False
    then have "Suc i \<le> m \<and> m < Suc i + length ss \<and> ss ! (m - Suc i) \<noteq> [] \<and> t = b_ts (hd (ss ! (m - Suc i)))"
      using IH by blast
    then show ?thesis by (simp add: nth_Cons')
  qed
  show ?case using 1 2 3 IH by auto
qed auto

lemma pickMin_None: "pickMin ss i best = None \<Longrightarrow> best = None \<and> (\<forall>s\<in>set ss. s = [])"
proof (induction ss arbitrary: i best)
  case (Cons s ss)
  from Cons.IH [OF Cons.prems [unfolded pickMin.simps]] show ?case
    by (cases s; cases best) (auto split: if_splits prod.splits)
qed auto

lemma mset_concat_update:
  assumes "m < length ss" "ss ! m \<noteq> []"
  shows "mset (concat ss) = add_mset (hd (ss ! m)) (mset (concat (ss[m := tl (ss ! m)])))"
proof -
  have "ss = take m ss @ ss ! m # drop (Suc m) ss" using assms(1) by (rule id_take_nth_drop)
  then have "mset (concat ss) = mset (concat (take m ss)) + mset (ss ! m) + mset (concat (drop (Suc m) ss))"
    by (metis append.assoc concat.simps(2) concat_append mset_append)
  moreover have "mset (ss ! m) = add_mset (hd (ss ! m)) (mset (tl (ss ! m)))" using assms(2) by (cases "ss ! m") auto
  ultimately show ?thesis using assms(1) by (simp add: upd_conv_take_nth_drop)
qed

text \<open>The batches in the order in which the merge picks them.\<close>

function mergeOrder :: "tsBatch list list \<Rightarrow> tsBatch list" where
  "mergeOrder ss = (case pickMin ss 0 None of
     None \<Rightarrow> []
   | Some (m, _) \<Rightarrow> hd (ss ! m) # mergeOrder (ss[m := tl (ss ! m)]))"
  by pat_completeness auto
termination
  by (relation "measure (\<lambda>ss. sum_list (map length ss))") (auto intro: pick_decreases)

declare mergeOrder.simps [simp del]

lemma mergeOrder_fold: "mergeLoop ss j = foldl joinStep j (mergeOrder ss)"
proof (induction ss j rule: mergeLoop.induct)
  case (1 ss j)
  show ?case by (subst mergeLoop.simps, subst mergeOrder.simps) (auto simp: 1 split: option.split)
qed

lemma mergeOrder_exact:
  "mset (mergeOrder ss) = mset (concat ss) \<and> ((\<forall>s\<in>set ss. sorted (map b_ts s)) \<longrightarrow> sorted (map b_ts (mergeOrder ss)))"
proof (induction "sum_list (map length ss)" arbitrary: ss rule: less_induct)
  case less
  show ?case
  proof (cases "pickMin ss 0 None")
    case None
    then have "concat ss = []" using pickMin_None [OF None] by auto
    with None show ?thesis by (subst (1 2) mergeOrder.simps) simp
  next
    case (Some x)
    then obtain m t where p: "pickMin ss 0 None = Some (m, t)" by (cases x) auto
    let ?ss = "ss[m := tl (ss ! m)]"
    from pickMin_min [OF p] have m: "m < length ss" "ss ! m \<noteq> []" "t = b_ts (hd (ss ! m))"
      and mn: "\<And>s. s \<in> set ss \<Longrightarrow> s \<noteq> [] \<Longrightarrow> t \<le> b_ts (hd s)" by auto
    note upd = mset_concat_update [OF m(1,2)]
    define bs where "bs = mergeOrder ?ss"
    from less [OF pick_decreases [OF p]] have bs: "mset bs = mset (concat ?ss)" "(\<forall>s\<in>set ?ss. sorted (map b_ts s)) \<longrightarrow> sorted (map b_ts bs)"
      by (simp_all add: bs_def)
    have "sorted (map b_ts (hd (ss ! m) # bs))" if s: "\<forall>s\<in>set ss. sorted (map b_ts s)"
    proof -
      have hd_le: "t \<le> b_ts b" if "b \<in> set (concat ss)" for b
      proof -
        obtain s' where s': "s' \<in> set ss" "b \<in> set s'" using \<open>b \<in> set (concat ss)\<close> by auto
        have "sorted (map b_ts s')" using s s'(1) by blast
        then have "b_ts (hd s') \<le> b_ts b" using s'(2) by (cases s') auto
        moreover have "s' \<noteq> []" using s'(2) by (cases s') auto
        then have "t \<le> b_ts (hd s')" by (rule mn [OF s'(1)])
        ultimately show ?thesis by simp
      qed
      have "\<forall>s\<in>set ?ss. sorted (map b_ts s)"
      proof
        fix s' assume "s' \<in> set ?ss"
        then have "s' = tl (ss ! m) \<or> s' \<in> set ss" using set_update_subset_insert by fastforce
        then show "sorted (map b_ts s')" using s m(1) by (auto simp: map_tl sorted_tl)
      qed
      moreover have "set bs \<subseteq> set (concat ss)"
        using arg_cong [OF bs(1), of set_mset] arg_cong [OF upd, of set_mset] by (simp only: set_mset_mset set_mset_add_mset_insert) blast
      ultimately show ?thesis using bs(2) hd_le m(3) by auto
    qed
    moreover have "mergeOrder ss = hd (ss ! m) # bs" using p by (subst mergeOrder.simps) (simp add: bs_def)
    moreover have "mset (hd (ss ! m) # bs) = mset (concat ss)" unfolding upd using bs(1) by simp
    ultimately show ?thesis by simp
  qed
qed

section \<open>The join\<close>

subsection \<open>Reading a trace\<close>

fun applied :: "Callback list \<Rightarrow> Order list" where
  "applied [] = []"
| "applied (Apply o' # cs) = o' # applied cs"
| "applied (_ # cs) = applied cs"

fun lostIds :: "Callback list \<Rightarrow> string list" where
  "lostIds [] = []"
| "lostIds (AddLost i _ # cs) = i # lostIds cs"
| "lostIds (_ # cs) = lostIds cs"

fun gapCalls :: "Callback list \<Rightarrow> nat" where
  "gapCalls [] = 0"
| "gapCalls (AddCaptureGap # cs) = Suc (gapCalls cs)"
| "gapCalls (_ # cs) = gapCalls cs"

lemma trace_append [simp]:
  "applied (xs @ ys) = applied xs @ applied ys" "lostIds (xs @ ys) = lostIds xs @ lostIds ys"
  "gapCalls (xs @ ys) = gapCalls xs + gapCalls ys"
  by (induction xs rule: applied.induct) simp_all

lemma trace_Apply [simp]: "applied (map Apply os) = os" "lostIds (map Apply os) = []" "gapCalls (map Apply os) = 0"
  by (induction os) simp_all

lemma trace_Phantom [simp]: "applied (map (\<lambda>a. AddPhantom i (f a) (g a)) as) = []"
  "lostIds (map (\<lambda>a. AddPhantom i (f a) (g a)) as) = []" "gapCalls (map (\<lambda>a. AddPhantom i (f a) (g a)) as) = 0"
  by (induction as) simp_all

subsection \<open>The invariant\<close>

definition ackKey :: "OrderAckedEvent \<Rightarrow> string \<times> u64 \<times> u64 \<times> u64" where
  "ackKey a = (a_ExecType a, a_T7XDPEgressNS a, a_FillQty a, a_FillPrice a)"

lemma sameAck_key: "sameAck held a \<longleftrightarrow> ackKey held = ackKey a"
  by (auto simp: sameAck_def ackKey_def)

text \<open>An order that is the join of one of the sent events with different responses to it.\<close>

definition joined :: "OrderSentEvent list \<Rightarrow> OrderAckedEvent list \<Rightarrow> Order \<Rightarrow> bool" where
  "joined ss as o' \<longleftrightarrow> (\<exists>s acks. s \<in> set ss \<and> set acks \<subseteq> set as \<and> (\<forall>a\<in>set acks. a_OrderID a = s_OrderID s) \<and>
     distinct (map ackKey acks) \<and> AssembleOrder s acks = Some (plain o'))"

definition pend_ok :: "OrderSentEvent list \<Rightarrow> OrderAckedEvent list \<Rightarrow> string \<Rightarrow> pendingOrder \<Rightarrow> bool" where
  "pend_ok ss as i po \<longleftrightarrow> (p_hasSent po \<longrightarrow> p_sent po \<in> set ss \<and> s_OrderID (p_sent po) = i) \<and>
     set (p_acks po) \<subseteq> set as \<and> (\<forall>a\<in>set (p_acks po). a_OrderID a = i) \<and> distinct (map ackKey (p_acks po))"

definition call_ok :: "OrderSentEvent list \<Rightarrow> OrderAckedEvent list \<Rightarrow> Callback \<Rightarrow> bool" where
  "call_ok ss as c = (case c of
     AddLost i k \<Rightarrow> \<exists>s\<in>set ss. s_OrderID s = i \<and> s_TimedOut s \<and> k = KindFrom (s_PayloadType s) (s_OrdType s)
   | AddPhantom i q p \<Rightarrow> \<exists>a\<in>set as. a_OrderID a = i \<and> streamIsFill (a_ExecType a) q \<and> q = a_FillQty a \<and> p = int64 (a_FillPrice a)
   | _ \<Rightarrow> True)"

definition hasSentIn :: "(string \<rightharpoonup> pendingOrder) \<Rightarrow> string \<Rightarrow> bool" where
  "hasSentIn m i = (case m i of Some po \<Rightarrow> p_hasSent po | None \<Rightarrow> False)"

text \<open>The ids of the sent events are split between the settled and the pending ones.\<close>

definition settled :: "Order list \<Rightarrow> string list \<Rightarrow> string list \<Rightarrow> OrderSentEvent list \<Rightarrow> Join \<Rightarrow> bool" where
  "settled os gs ids ss j \<longleftrightarrow>
     mset (map o_OrderID os) + mset (lostIds (j_trace j)) + mset gs + mset (filter (hasSentIn (j_pending j)) ids) = mset (map s_OrderID ss)"

definition jinv :: "int \<Rightarrow> string list \<Rightarrow> OrderSentEvent list \<Rightarrow> OrderAckedEvent list \<Rightarrow> Join \<Rightarrow> bool" where
  "jinv window ids ss as j \<longleftrightarrow> distinct ids \<and> set ids = dom (j_pending j) \<and>
     (\<forall>i po. j_pending j i = Some po \<longrightarrow> pend_ok ss as i po) \<and> (\<forall>c\<in>set (j_trace j). call_ok ss as c) \<and>
     SentEvents (j_counts j) = of_nat (length ss) \<and>
     (\<exists>os gs. pushAll (NewReorderer window) os = (applied (j_trace j), j_r j) \<and> (\<forall>o'\<in>set os. joined ss as o') \<and>
        MatchedOrders (j_counts j) = of_nat (length os) \<and> LostOrders (j_counts j) = of_nat (length (lostIds (j_trace j))) \<and>
        CaptureGaps (j_counts j) = of_nat (length gs) \<and> length gs = gapCalls (j_trace j) \<and>
        (distinct (map s_OrderID ss) \<longrightarrow> settled os gs ids ss j))"

lemma pushAll_snoc: "pushAll r (xs @ [x]) = (let (out, r1) = pushAll r xs; (out', r2) = Push r1 x in (out @ out', r2))"
  by (induction xs arbitrary: r) (simp_all add: Let_def split: prod.splits)

lemma plain_Assemble: "AssembleOrder s acks = Some o' \<Longrightarrow> plain o' = o'"
  by (auto simp: AssembleOrder_def plain_def zeroOrder_def split: list.splits)

lemma Assemble_id: "AssembleOrder s acks = Some o' \<Longrightarrow> o_OrderID o' = s_OrderID s"
  by (auto simp: AssembleOrder_def split: list.splits)

lemma filter_hasSentIn_upd: "i \<notin> set ids \<Longrightarrow> filter (hasSentIn (m(i := x))) ids = filter (hasSentIn m) ids"
  by (rule filter_cong) (auto simp: hasSentIn_def)

lemma emitOne_pending [simp]: "j_pending (emitOne i po j) = j_pending j"
  by (auto simp: emitOne_def Let_def split: pendingOutcome.splits option.splits prod.splits)

lemma emitOne_inv:
  assumes inv: "jinv window (i # ids) ss as j" and po: "j_pending j i = Some po"
  shows "jinv window ids ss as ((emitOne i po j)\<lparr>j_pending := (j_pending j)(i := None)\<rparr>)" (is "jinv _ _ _ _ ?j")
proof -
  from inv obtain os gs where J: "distinct (i # ids)" "set (i # ids) = dom (j_pending j)"
    "\<And>i po. j_pending j i = Some po \<Longrightarrow> pend_ok ss as i po" "\<And>c. c \<in> set (j_trace j) \<Longrightarrow> call_ok ss as c"
    "SentEvents (j_counts j) = of_nat (length ss)"
    "pushAll (NewReorderer window) os = (applied (j_trace j), j_r j)" "\<And>o'. o' \<in> set os \<Longrightarrow> joined ss as o'"
    "MatchedOrders (j_counts j) = of_nat (length os)" "LostOrders (j_counts j) = of_nat (length (lostIds (j_trace j)))"
    "CaptureGaps (j_counts j) = of_nat (length gs)" "length gs = gapCalls (j_trace j)"
    "distinct (map s_OrderID ss) \<Longrightarrow> settled os gs (i # ids) ss j"
    unfolding jinv_def by blast
  have ok: "pend_ok ss as i po" by (rule J(3) [OF po])
  have dom: "distinct ids" "set ids = dom ((j_pending j)(i := None))" using J(1,2) by auto
  have pend: "pend_ok ss as i' po'" if "((j_pending j)(i := None)) i' = Some po'" for i' po'
    using that J(3) by (auto split: if_splits)
  have fil: "filter (hasSentIn ((j_pending j)(i := None))) ids = filter (hasSentIn (j_pending j)) ids"
    using J(1) by (intro filter_hasSentIn_upd) simp
  have hs: "hasSentIn (j_pending j) i = p_hasSent po" by (simp add: hasSentIn_def po)
  show ?thesis
  proof (cases "outcome po")
    case outcomeMatched
    then have h: "p_hasSent po" "p_acks po \<noteq> []" by (auto simp: outcome_def split: if_splits)
    then obtain x where x: "AssembleOrder (p_sent po) (p_acks po) = Some x"
      using AssembleOrder_None by (metis option.exhaust)
    obtain out r' where P: "Push (j_r j) x = (out, r')" by fastforce
    have id: "o_OrderID x = i" using Assemble_id [OF x] ok h by (simp add: pend_ok_def)
    have "joined ss as x"
      unfolding joined_def by (rule exI [of _ "p_sent po"], rule exI [of _ "p_acks po"])
        (use ok h x plain_Assemble [OF x] in \<open>auto simp: pend_ok_def\<close>)
    moreover have "settled (os @ [x]) gs ids ss ?j" if "distinct (map s_OrderID ss)"
      using J(12) [OF that] h(1) id outcomeMatched x P by (simp add: settled_def fil hs emitOne_def)
    ultimately show ?thesis unfolding jinv_def
      using dom pend J(4-11) outcomeMatched x P
      by (intro conjI exI [of _ "os @ [x]"] exI [of _ gs]) (auto simp: emitOne_def pushAll_snoc call_ok_def)
  next
    case outcomeLost
    then have h: "p_hasSent po" "s_TimedOut (p_sent po)" by (auto simp: outcome_def split: if_splits)
    have "settled os gs ids ss ?j" if "distinct (map s_OrderID ss)"
      using J(12) [OF that] h(1) outcomeLost by (simp add: settled_def fil hs emitOne_def)
    moreover have "call_ok ss as (AddLost i (KindFrom (s_PayloadType (p_sent po)) (s_OrdType (p_sent po))))"
      using ok h by (auto simp: call_ok_def pend_ok_def)
    ultimately show ?thesis unfolding jinv_def
      using dom pend J(4-11) outcomeLost by (intro conjI exI [of _ os] exI [of _ gs]) (auto simp: emitOne_def)
  next
    case outcomeCaptureGap
    then have h: "p_hasSent po" by (auto simp: outcome_def split: if_splits)
    have "settled os (i # gs) ids ss ?j" if "distinct (map s_OrderID ss)"
      using J(12) [OF that] h(1) outcomeCaptureGap by (simp add: settled_def fil hs emitOne_def)
    then show ?thesis unfolding jinv_def
      using dom pend J(4-11) outcomeCaptureGap
      by (intro conjI exI [of _ os] exI [of _ "i # gs"]) (auto simp: emitOne_def call_ok_def)
  next
    case outcomeUnsent
    then have h: "\<not> p_hasSent po" by (auto simp: outcome_def split: if_splits)
    have "settled os gs ids ss ?j" if "distinct (map s_OrderID ss)"
      using J(12) [OF that] h(1) outcomeUnsent by (simp add: settled_def fil hs emitOne_def)
    moreover have "call_ok ss as (AddPhantom i (a_FillQty a) (int64 (a_FillPrice a)))"
      if "a \<in> set (p_acks po)" "streamIsFill (a_ExecType a) (a_FillQty a)" for a
      using ok that by (auto simp: call_ok_def pend_ok_def)
    ultimately show ?thesis unfolding jinv_def
      using dom pend J(4-11) outcomeUnsent by (intro conjI exI [of _ os] exI [of _ gs]) (auto simp: emitOne_def)
  qed
qed

lemma emitLoop_inv:
  assumes "jinv window ids ss as j" "emitLoop wm fl ids j = (rest, j')"
  shows "jinv window rest ss as j' \<and> (fl \<longrightarrow> rest = [])"
  using assms
proof (induction ids arbitrary: j)
  case (Cons i ids)
  have "set (i # ids) = dom (j_pending j)" using Cons.prems(1) unfolding jinv_def by blast
  then have "i \<in> dom (j_pending j)" by (metis list.set_intros(1))
  then obtain po where po: "j_pending j i = Some po" by blast
  show ?case
  proof (cases "\<not> fl \<and> (if p_sendTS po = 0 then p_t3 po else p_sendTS po) + DefaultJoinWindowNS > wm")
    case True
    then show ?thesis using Cons.prems po by (auto simp: Let_def)
  next
    case False
    have "emitLoop wm fl ids ((emitOne i po j)\<lparr>j_pending := (j_pending j)(i := None)\<rparr>) = (rest, j')"
      using Cons.prems(2) by (simp only: emitLoop.simps po option.case Let_def False if_False emitOne_pending)
    from Cons.IH [OF emitOne_inv [OF Cons.prems(1) po] this] show ?thesis .
  qed
qed auto

lemma jinv_order [simp]: "jinv window ids ss as (j\<lparr>j_order := x\<rparr>) = jinv window ids ss as j"
  by (simp add: jinv_def settled_def)

lemma emitReady_inv:
  assumes "jinv window (j_order j) ss as j"
  shows "jinv window (j_order (emitReady wm fl j)) ss as (emitReady wm fl j)" "fl \<Longrightarrow> j_order (emitReady wm fl j) = []"
proof -
  obtain rest j' where e: "emitLoop wm fl (j_order j) j = (rest, j')" by fastforce
  have r: "emitReady wm fl j = j'\<lparr>j_order := rest\<rparr>" by (simp add: emitReady_def e)
  from emitLoop_inv [OF assms e]
  show "jinv window (j_order (emitReady wm fl j)) ss as (emitReady wm fl j)" "fl \<Longrightarrow> j_order (emitReady wm fl j) = []"
    unfolding r by simp_all
qed

text \<open>A new event changes only what is pending for its id; the settled orders stay.\<close>

lemma mono_events:
  assumes "set ss \<subseteq> set ss'" "set as \<subseteq> set as'"
  shows "pend_ok ss as i po \<Longrightarrow> pend_ok ss' as' i po" "joined ss as x \<Longrightarrow> joined ss' as' x" "call_ok ss as c \<Longrightarrow> call_ok ss' as' c"
proof -
  show "joined ss as x \<Longrightarrow> joined ss' as' x" unfolding joined_def using assms by (meson subset_iff)
qed (use assms in \<open>auto simp: pend_ok_def call_ok_def split: Callback.splits\<close>)

lemma filter_hasSentIn_same:
  "p_hasSent po' = hasSentIn m i \<Longrightarrow> hasSentIn (m(i \<mapsto> po')) = hasSentIn m"
  by (auto simp: hasSentIn_def fun_eq_iff)

lemma processAck_inv:
  assumes inv: "jinv window (j_order j) ss as j"
  shows "jinv window (j_order (processAck j a)) ss (as @ [a]) (processAck j a)"
proof -
  let ?i = "a_OrderID a"
  from inv obtain os gs where J: "distinct (j_order j)" "set (j_order j) = dom (j_pending j)"
    "\<And>i po. j_pending j i = Some po \<Longrightarrow> pend_ok ss as i po" "\<And>c. c \<in> set (j_trace j) \<Longrightarrow> call_ok ss as c"
    "SentEvents (j_counts j) = of_nat (length ss)"
    "pushAll (NewReorderer window) os = (applied (j_trace j), j_r j)" "\<And>o'. o' \<in> set os \<Longrightarrow> joined ss as o'"
    "MatchedOrders (j_counts j) = of_nat (length os)" "LostOrders (j_counts j) = of_nat (length (lostIds (j_trace j)))"
    "CaptureGaps (j_counts j) = of_nat (length gs)" "length gs = gapCalls (j_trace j)"
    "distinct (map s_OrderID ss) \<Longrightarrow> settled os gs (j_order j) ss j"
    unfolding jinv_def by blast
  define po where "po = (case j_pending j ?i of Some po \<Rightarrow> po | None \<Rightarrow> newPending)"
  define po' where "po' = (if list_ex (\<lambda>h. sameAck h a) (p_acks po) then po
     else let po1 = po\<lparr>p_acks := p_acks po @ [a]\<rparr> in if p_t3 po1 = 0 then po1\<lparr>p_t3 := a_T3XDPIngressNS a\<rparr> else po1)"
  let ?order = "if ?i \<in> dom (j_pending j) then j_order j else j_order j @ [?i]"
  have fields: "j_pending (processAck j a) = (j_pending j)(?i \<mapsto> po')" "j_order (processAck j a) = ?order"
    "j_trace (processAck j a) = j_trace j" "j_r (processAck j a) = j_r j"
    "SentEvents (j_counts (processAck j a)) = SentEvents (j_counts j)"
    "MatchedOrders (j_counts (processAck j a)) = MatchedOrders (j_counts j)"
    "LostOrders (j_counts (processAck j a)) = LostOrders (j_counts j)"
    "CaptureGaps (j_counts (processAck j a)) = CaptureGaps (j_counts j)"
    by (auto simp: processAck_def lookupPending_def addAck_def po'_def po_def Let_def newPending_def fun_eq_iff dom_def split: option.splits)
  have po_ok: "pend_ok ss as ?i po"
    using J(3) by (auto simp: po_def pend_ok_def newPending_def split: option.splits)
  have ok: "pend_ok ss (as @ [a]) ?i po'"
  proof (cases "list_ex (\<lambda>h. sameAck h a) (p_acks po)")
    case True
    have "pend_ok ss (as @ [a]) ?i po" by (rule mono_events(1) [OF _ _ po_ok]) auto
    with True show ?thesis by (simp add: po'_def)
  next
    case False
    then have "p_acks po' = p_acks po @ [a]" "p_sent po' = p_sent po" "p_hasSent po' = p_hasSent po"
      by (simp_all add: po'_def Let_def)
    moreover have "ackKey a \<notin> ackKey ` set (p_acks po)"
      using False by (force simp: sameAck_key list_ex_iff)
    ultimately show ?thesis using po_ok unfolding pend_ok_def by auto
  qed
  have hs: "p_hasSent po' = hasSentIn (j_pending j) ?i"
    by (auto simp: po'_def po_def hasSentIn_def Let_def newPending_def split: option.splits)
  have order: "distinct ?order" "set ?order = dom ((j_pending j)(?i \<mapsto> po'))" using J(1,2) by auto
  have nh: "?i \<notin> dom (j_pending j) \<Longrightarrow> \<not> hasSentIn (j_pending j) ?i" by (auto simp: hasSentIn_def split: option.splits)
  have "settled os gs ?order ss (processAck j a)" if "distinct (map s_OrderID ss)"
    using J(12) [OF that] nh by (auto simp: settled_def fields filter_hasSentIn_same [OF hs])
  moreover have "set as \<subseteq> set (as @ [a])" by auto
  note mono = mono_events [OF order_refl this]
  ultimately show ?thesis
    unfolding jinv_def fields using order J(4-11) mono J(3) ok
    by (intro conjI exI [of _ os] exI [of _ gs]) auto
qed

lemma mset_filter_set_True:
  "distinct xs \<Longrightarrow> i \<in> set xs \<Longrightarrow> \<not> P i \<Longrightarrow> P' i \<Longrightarrow> (\<And>x. x \<noteq> i \<Longrightarrow> P' x = P x) \<Longrightarrow>
     mset (filter P' xs) = add_mset i (mset (filter P xs))"
proof (induction xs)
  case (Cons x xs)
  show ?case
  proof (cases "x = i")
    case True
    then have "\<And>y. y \<in> set xs \<Longrightarrow> P' y = P y" using Cons.prems(1,5) by (metis distinct.simps(2))
    then have "filter P' xs = filter P xs" by (intro filter_cong) auto
    then show ?thesis using True Cons.prems by simp
  next
    case False
    then show ?thesis using Cons by auto
  qed
qed simp

lemma processSent_inv:
  assumes inv: "jinv window (j_order j) ss as j"
  shows "jinv window (j_order (processSent j s)) (ss @ [s]) as (processSent j s)"
proof -
  let ?i = "s_OrderID s"
  from inv obtain os gs where J: "distinct (j_order j)" "set (j_order j) = dom (j_pending j)"
    "\<And>i po. j_pending j i = Some po \<Longrightarrow> pend_ok ss as i po" "\<And>c. c \<in> set (j_trace j) \<Longrightarrow> call_ok ss as c"
    "SentEvents (j_counts j) = of_nat (length ss)"
    "pushAll (NewReorderer window) os = (applied (j_trace j), j_r j)" "\<And>o'. o' \<in> set os \<Longrightarrow> joined ss as o'"
    "MatchedOrders (j_counts j) = of_nat (length os)" "LostOrders (j_counts j) = of_nat (length (lostIds (j_trace j)))"
    "CaptureGaps (j_counts j) = of_nat (length gs)" "length gs = gapCalls (j_trace j)"
    "distinct (map s_OrderID ss) \<Longrightarrow> settled os gs (j_order j) ss j"
    unfolding jinv_def by blast
  define po where "po = (case j_pending j ?i of Some po \<Rightarrow> po | None \<Rightarrow> newPending)"
  define po' where "po' = po\<lparr>p_sent := s, p_hasSent := True, p_sendTS := s_SendTSNS s\<rparr>"
  let ?order = "if ?i \<in> dom (j_pending j) then j_order j else j_order j @ [?i]"
  have fields: "j_pending (processSent j s) = (j_pending j)(?i \<mapsto> po')" "j_order (processSent j s) = ?order"
    "j_trace (processSent j s) = j_trace j" "j_r (processSent j s) = j_r j"
    "SentEvents (j_counts (processSent j s)) = SentEvents (j_counts j) + 1"
    "MatchedOrders (j_counts (processSent j s)) = MatchedOrders (j_counts j)"
    "LostOrders (j_counts (processSent j s)) = LostOrders (j_counts j)"
    "CaptureGaps (j_counts (processSent j s)) = CaptureGaps (j_counts j)"
    by (auto simp: processSent_def lookupPending_def po'_def po_def Let_def fun_eq_iff dom_def split: option.splits)
  have po_ok: "pend_ok ss as ?i po"
    using J(3) by (auto simp: po_def pend_ok_def newPending_def split: option.splits)
  then have ok: "pend_ok (ss @ [s]) as ?i po'" by (auto simp: pend_ok_def po'_def)
  have order: "distinct ?order" "set ?order = dom ((j_pending j)(?i \<mapsto> po'))" using J(1,2) by auto
  have "settled os gs ?order (ss @ [s]) (processSent j s)" if d: "distinct (map s_OrderID (ss @ [s]))"
  proof -
    have new: "\<not> hasSentIn (j_pending j) ?i"
    proof
      assume "hasSentIn (j_pending j) ?i"
      then obtain q where "j_pending j ?i = Some q" "p_hasSent q" by (auto simp: hasSentIn_def split: option.splits)
      then have "p_sent q \<in> set ss" "s_OrderID (p_sent q) = ?i" using J(3) [of ?i q] by (auto simp: pend_ok_def)
      then have "?i \<in> s_OrderID ` set ss" by (metis imageI)
      then show False using d by simp
    qed
    have "mset (filter (hasSentIn ((j_pending j)(?i \<mapsto> po'))) ?order) = add_mset ?i (mset (filter (hasSentIn (j_pending j)) ?order))"
      using new order by (intro mset_filter_set_True) (auto simp: hasSentIn_def po'_def)
    also have "mset (filter (hasSentIn (j_pending j)) ?order) = mset (filter (hasSentIn (j_pending j)) (j_order j))"
      using new by simp
    finally have f: "mset (filter (hasSentIn ((j_pending j)(?i \<mapsto> po'))) ?order) = add_mset ?i (mset (filter (hasSentIn (j_pending j)) (j_order j)))" .
    have "settled os gs (j_order j) ss j" using J(12) d by simp
    then show ?thesis unfolding settled_def fields f by simp
  qed
  moreover have "set ss \<subseteq> set (ss @ [s])" by auto
  note mono = mono_events [OF this order_refl]
  ultimately show ?thesis
    unfolding jinv_def fields using order J(4-11) mono J(3) ok
    by (intro conjI exI [of _ os] exI [of _ gs]) auto
qed

text \<open>The sent and the acked events of a batch, and of a list of batches.\<close>

definition sentOf :: "tsBatch \<Rightarrow> OrderSentEvent list" where
  "sentOf b = (if b_isAck b then [] else b_sent b)"

definition acksOf :: "tsBatch \<Rightarrow> OrderAckedEvent list" where
  "acksOf b = (if b_isAck b then b_acks b else [])"

lemma foldl_processAck_inv:
  "jinv window (j_order j) ss as j \<Longrightarrow>
     jinv window (j_order (foldl processAck j xs)) ss (as @ xs) (foldl processAck j xs)"
proof (induction xs arbitrary: j as)
  case (Cons x xs)
  from Cons.IH [OF processAck_inv [OF Cons.prems]] show ?case by simp
qed simp

lemma foldl_processSent_inv:
  "jinv window (j_order j) ss as j \<Longrightarrow>
     jinv window (j_order (foldl processSent j xs)) (ss @ xs) as (foldl processSent j xs)"
proof (induction xs arbitrary: j ss)
  case (Cons x xs)
  from Cons.IH [OF processSent_inv [OF Cons.prems]] show ?case by simp
qed simp

lemma joinStep_inv:
  "jinv window (j_order j) ss as j \<Longrightarrow>
     jinv window (j_order (joinStep j b)) (ss @ sentOf b) (as @ acksOf b) (joinStep j b)"
  unfolding joinStep_def processBatch_def sentOf_def acksOf_def
  by (auto intro!: emitReady_inv foldl_processAck_inv foldl_processSent_inv)

lemma foldl_joinStep_inv:
  "jinv window (j_order j) ss as j \<Longrightarrow>
     jinv window (j_order (foldl joinStep j bs)) (ss @ concat (map sentOf bs)) (as @ concat (map acksOf bs)) (foldl joinStep j bs)"
proof (induction bs arbitrary: j ss as)
  case (Cons b bs)
  from Cons.IH [OF joinStep_inv [OF Cons.prems]] show ?case by simp
qed simp

lemma newJoin_inv: "jinv window (j_order (newJoin window)) [] [] (newJoin window)"
  unfolding jinv_def by (auto simp: newJoin_def zeroCounts_def settled_def)

text \<open>What a session leaves: everything is settled and the trace is justified by the events.\<close>

lemma runStreams_settled:
  fixes window streams
  defines "j \<equiv> runStreams window streams"
  shows "\<exists>bs os gs. mset bs = mset (concat streams) \<and> ((\<forall>s\<in>set streams. sorted (map b_ts s)) \<longrightarrow> sorted (map b_ts bs)) \<and>
    j_pending j = Map.empty \<and> (\<forall>c\<in>set (j_trace j). call_ok (concat (map sentOf bs)) (concat (map acksOf bs)) c) \<and>
    SentEvents (j_counts j) = of_nat (length (concat (map sentOf bs))) \<and>
    applied (j_trace j) = emitted window os \<and>
    (\<forall>o'\<in>set os. joined (concat (map sentOf bs)) (concat (map acksOf bs)) o') \<and>
    MatchedOrders (j_counts j) = of_nat (length os) \<and> LostOrders (j_counts j) = of_nat (length (lostIds (j_trace j))) \<and>
    CaptureGaps (j_counts j) = of_nat (length gs) \<and> length gs = gapCalls (j_trace j) \<and>
    (distinct (map s_OrderID (concat (map sentOf bs))) \<longrightarrow>
       mset (map o_OrderID os) + mset (lostIds (j_trace j)) + mset gs = mset (map s_OrderID (concat (map sentOf bs))))"
proof -
  define bs where "bs = mergeOrder streams"
  have bs: "\<And>j. mergeLoop streams j = foldl joinStep j bs" "mset bs = mset (concat streams)"
    "(\<forall>s\<in>set streams. sorted (map b_ts s)) \<longrightarrow> sorted (map b_ts bs)"
    using mergeOrder_exact [of streams] by (simp_all add: bs_def mergeOrder_fold)
  let ?ss = "concat (map sentOf bs)" and ?as = "concat (map acksOf bs)"
  define j0 where "j0 = foldl joinStep (newJoin window) bs"
  define j1 where "j1 = emitReady 0 True j0"
  have "jinv window (j_order j0) ?ss ?as j0" using foldl_joinStep_inv [OF newJoin_inv, of window bs] by (simp add: j0_def)
  from emitReady_inv [OF this, where wm = 0 and fl = True] have "jinv window [] ?ss ?as j1" by (simp add: j1_def)
  then obtain os gs where J: "set [] = dom (j_pending j1)" "\<forall>c\<in>set (j_trace j1). call_ok ?ss ?as c"
    "SentEvents (j_counts j1) = of_nat (length ?ss)"
    "pushAll (NewReorderer window) os = (applied (j_trace j1), j_r j1)" "\<forall>o'\<in>set os. joined ?ss ?as o'"
    "MatchedOrders (j_counts j1) = of_nat (length os)" "LostOrders (j_counts j1) = of_nat (length (lostIds (j_trace j1)))"
    "CaptureGaps (j_counts j1) = of_nat (length gs)" "length gs = gapCalls (j_trace j1)"
    "distinct (map s_OrderID ?ss) \<longrightarrow> settled os gs [] ?ss j1"
    unfolding jinv_def by blast
  obtain out r' where F: "Flush (j_r j1) = (out, r')" by fastforce
  have j: "j = j1\<lparr>j_r := r', j_trace := j_trace j1 @ map Apply out\<rparr>"
    by (simp add: j_def runStreams_def drain_def bs(1) j0_def [symmetric] j1_def [symmetric] F)
  have "call_ok ?ss ?as (Apply o')" for o' by (simp add: call_ok_def)
  then show ?thesis
    using bs(2,3) J F by (intro exI [of _ bs] exI [of _ os] exI [of _ gs]) (auto simp: j settled_def emitted_def)
qed

section \<open>Bands\<close>

lemma clampWidth_bounds: "n > 1 \<Longrightarrow> 1 \<le> clampWidth n w \<and> clampWidth n w \<le> n"
  by (auto simp: clampWidth_def Let_def)

lemma int32_of_int_id: "- (2 ^ 31) \<le> x \<Longrightarrow> x < 2 ^ 31 \<Longrightarrow> int32_of_int x = x"
  unfolding int32_of_int_def by (simp add: sint_sbintrunc' signed_take_bit_int_eq_self)

lemma uint_mod_width:
  assumes "0 < w" "w < 2 ^ 31"
  shows "0 \<le> int32_of_int (uint ((x :: u64) mod of_int w)) \<and> int32_of_int (uint (x mod of_int w)) < w"
proof -
  have "uint (of_int w :: u64) = w" using assms by (simp add: uint_word_of_int)
  then have r: "uint (x mod of_int w) = uint x mod w" by (simp add: uint_mod_distrib)
  have b: "0 \<le> uint x mod w" "uint x mod w < w" using assms by simp_all
  then have "int32_of_int (uint x mod w) = uint x mod w" using assms(2) by (intro int32_of_int_id) linarith+
  then show ?thesis using b r by simp
qed

text \<open>Without overflow a band is an interval of partitions.\<close>

lemma go_mod_small: "0 \<le> x \<Longrightarrow> x < n \<Longrightarrow> go_mod x n = x"
  by (auto simp: go_mod_def sgn_if)

lemma bandPartitionSet_interval:
  assumes "1 < n" "n < 2 ^ 31" "1 \<le> w" "(uint band + 1) * w \<le> n"
  shows "bandPartitionSet band n w = {uint band * w ..< (uint band + 1) * w}"
proof -
  have pos: "0 \<le> uint band * w" using assms(3) by simp
  have top: "uint band * w + w \<le> n" using assms(4) by (simp add: distrib_right)
  then have "w \<le> n" using pos by linarith
  then have cw: "clampWidth n w = w" using assms(3) by (simp add: clampWidth_def)
  have base: "int32_of_int (uint band * w) = uint band * w" using pos top assms(2,3) by (intro int32_of_int_id) linarith+
  have "go_mod (int32_of_int (uint band * w + i)) n = uint band * w + i" if "0 \<le> i" "i \<le> w - 1" for i
  proof -
    have "int32_of_int (uint band * w + i) = uint band * w + i" using that pos top assms(2) by (intro int32_of_int_id) linarith+
    then show ?thesis using that pos top by (simp add: go_mod_small)
  qed
  then have "bandPartitionSet band n w = (\<lambda>i. uint band * w + i) ` {0..w - 1}"
    using assms(1) by (auto simp: bandPartitionSet_def cw base Let_def image_iff)
  also have "\<dots> = {uint band * w ..< (uint band + 1) * w}"
    by (simp add: image_add_atLeastAtMost' distrib_right) (auto simp: image_iff intro!: bexI [of _ "_ - uint band * w"])
  finally show ?thesis .
qed

section \<open>Readers return\<close>

text \<open>
  What the readers rely on in Kafka. A partition is a log of records with increasing offsets (\<open>log\<close>: all
  it ever gets). After a seek the n-th read returns the n-th record from there on, or fails; when
  the log has no further record the read blocks. The end offset is one beyond a record of the log, unless the
  partition holds nothing, and then its first offset is not below it and no offset is found for a time.
\<close>

definition serves :: "('v, 'e) kafka_ops \<Rightarrow> (string \<Rightarrow> int \<Rightarrow> 'v Message list) \<Rightarrow> bool" where
  "serves K log \<longleftrightarrow> (\<forall>topic part. sorted_wrt (<) (map m_Offset (log topic part)) \<and>
     (\<forall>start n. let recs = filter (\<lambda>m. start \<le> m_Offset m) (log topic part) in
        (\<exists>e. k_ReadMessage K topic part start n = Some (Inl e)) \<or>
        k_ReadMessage K topic part start n = (if n < length recs then Some (Inr (recs ! n)) else None)) \<and>
     (\<forall>l. k_ReadLastOffset K topic part = Inr l \<longrightarrow> l - 1 \<in> m_Offset ` set (log topic part) \<or>
        (\<forall>f. k_ReadFirstOffset K topic part = Inr f \<longrightarrow> l \<le> f) \<and>
        (\<forall>ts off. k_ReadOffset K topic part ts = Inr off \<longrightarrow> off < 0 \<or> l \<le> off)))"

lemma serves_log:
  assumes "serves K log"
  shows "sorted_wrt (<) (map m_Offset (log topic part))"
    "(\<exists>e. k_ReadMessage K topic part start n = Some (Inl e)) \<or> k_ReadMessage K topic part start n =
       (if n < length (filter (\<lambda>m. start \<le> m_Offset m) (log topic part)) then Some (Inr (filter (\<lambda>m. start \<le> m_Offset m) (log topic part) ! n)) else None)"
  using assms unfolding serves_def Let_def by blast+

lemma serves_sorted: "serves K log \<Longrightarrow> sorted_wrt (<) (map m_Offset (filter P (log topic part)))"
  using serves_log(1) [of K log topic part] unfolding sorted_wrt_map by (rule sorted_wrt_filter)

lemma serves_end:
  assumes "serves K log" "partitionOffsets K broker topic part sessionID = Inr (start, l)" "start < l"
  shows "l - 1 \<in> m_Offset ` set (log topic part)"
proof -
  have l: "k_ReadLastOffset K topic part = Inr l"
    and s: "k_ReadFirstOffset K topic part = Inr start \<or> (\<exists>ts off. k_ReadOffset K topic part ts = Inr off \<and> start = resolveStart off l)"
    using assms(2) by (auto simp: partitionOffsets_def startOffsetForSession_def split: option.splits sum.splits if_splits)
  have e: "l - 1 \<in> m_Offset ` set (log topic part) \<or> (\<forall>f. k_ReadFirstOffset K topic part = Inr f \<longrightarrow> l \<le> f) \<and>
      (\<forall>ts off. k_ReadOffset K topic part ts = Inr off \<longrightarrow> off < 0 \<or> l \<le> off)"
    using assms(1) l unfolding serves_def by blast
  from s show ?thesis
  proof
    assume "k_ReadFirstOffset K topic part = Inr start"
    then show ?thesis using e assms(3) by (meson linorder_not_less)
  next
    assume "\<exists>ts off. k_ReadOffset K topic part ts = Inr off \<and> start = resolveStart off l"
    then obtain ts off where o: "k_ReadOffset K topic part ts = Inr off" "start = resolveStart off l" by blast
    then have "\<not> (off < 0 \<or> l \<le> off)" using assms(3) by (auto simp: resolveStart_def split: if_splits)
    then show ?thesis using e o(1) by blast
  qed
qed

lemma filter_below_index:
  assumes "sorted_wrt (<) (map m_Offset recs)" "k < length recs" "m_Offset (recs ! k) = l - 1"
  shows "filter (\<lambda>m. m_Offset m < l) recs = take (Suc k) recs"
proof -
  have lt: "m_Offset (recs ! i) < m_Offset (recs ! j)" if "i < j" "j < length recs" for i j
    using sorted_wrt_nth_less [OF assms(1) that(1)] that by simp
  have "m_Offset m < l" if m: "m \<in> set (take (Suc k) recs)" for m
  proof -
    obtain i where "i < Suc k" "m = recs ! i" using m by (auto simp: in_set_conv_nth)
    then show ?thesis using lt [of i k] assms(2,3) by (cases "i = k") auto
  qed
  moreover have "\<not> m_Offset m < l" if m: "m \<in> set (drop (Suc k) recs)" for m
  proof -
    obtain i where "i < length recs - Suc k" "m = recs ! (Suc k + i)" using m by (auto simp: in_set_conv_nth)
    then show ?thesis using lt [of k "Suc k + i"] assms(3) by (simp add: less_diff_conv add.commute)
  qed
  ultimately have "filter (\<lambda>m. m_Offset m < l) (take (Suc k) recs @ drop (Suc k) recs) = take (Suc k) recs"
    by (simp only: filter_append) (simp add: filter_True filter_False)
  then show ?thesis by simp
qed

lemma readLoop_log:
  fixes K log topic part start
  defines "recs \<equiv> filter (\<lambda>m. start \<le> m_Offset m) (log topic part)"
  assumes "serves K log" "k < length recs" "m_Offset (recs ! k) = l - 1" "n \<le> k"
  shows "\<exists>r. readLoop K topic part sid ack start l n = Some r \<and>
    ((\<forall>n e. k_ReadMessage K topic part start n \<noteq> Some (Inl e)) \<longrightarrow>
       r = (List.map_filter (\<lambda>m. decodeBatch K m sid ack) (drop n (take (Suc k) recs)), None))"
  using assms(5)
proof (induction "k - n" arbitrary: n)
  case 0
  then have "n = k" by simp
  then show ?case using serves_log(2) [OF assms(2), of topic part start n] assms(3,4)
    by (subst readLoop.simps, auto simp: Let_def take_Suc_conv_app_nth map_filter_simps recs_def split: option.split, blast+)
next
  case (Suc d)
  then have nk: "n < k" "d = k - Suc n" "Suc n \<le> k" by simp_all
  from Suc(1) [OF nk(2,3)] obtain r where r: "readLoop K topic part sid ack start l (Suc n) = Some r"
    "(\<forall>n e. k_ReadMessage K topic part start n \<noteq> Some (Inl e)) \<longrightarrow>
       r = (List.map_filter (\<lambda>m. decodeBatch K m sid ack) (drop (Suc n) (take (Suc k) recs)), None)" by blast
  have "sorted_wrt (<) (map m_Offset recs)" unfolding recs_def by (rule serves_sorted [OF assms(2)])
  then have off: "\<not> m_Offset (recs ! n) \<ge> l - 1"
    using sorted_wrt_nth_less [of "(<)" "map m_Offset recs" n k] nk(1) assms(3,4) by simp
  have d: "drop n (take (Suc k) recs) = recs ! n # drop (Suc n) (take (Suc k) recs)"
    using nk(1) assms(3) Cons_nth_drop_Suc [of n "take (Suc k) recs"] by simp
  show ?case using serves_log(2) [OF assms(2), of topic part start n]
  proof
    assume "\<exists>e. k_ReadMessage K topic part start n = Some (Inl e)"
    then show ?thesis by (subst readLoop.simps, auto, blast)
  next
    assume "k_ReadMessage K topic part start n = (if n < length (filter (\<lambda>m. start \<le> m_Offset m) (log topic part))
       then Some (Inr (filter (\<lambda>m. start \<le> m_Offset m) (log topic part) ! n)) else None)"
    then have "k_ReadMessage K topic part start n = Some (Inr (recs ! n))" using nk(1) assms(3) by (simp add: recs_def)
    then show ?thesis using r off unfolding d
      by (subst readLoop.simps) (auto simp: Let_def map_filter_simps split: prod.splits option.split)
  qed
qed

lemma those_Some: "(\<And>x. x \<in> set xs \<Longrightarrow> x \<noteq> None) \<Longrightarrow> \<exists>ys. those xs = Some ys"
proof (induction xs)
  case (Cons a xs)
  obtain y where "a = Some y" using Cons.prems [of a] by auto
  moreover obtain ys where "those xs = Some ys" using Cons by auto
  ultimately show ?case by simp
qed simp

lemma streamPartition_log:
  assumes "serves K log"
  shows "\<exists>r. streamPartition K broker topic part sid ack = Some r \<and>
    (\<forall>start l. partitionOffsets K broker topic part sid = Inr (start, l) \<and> k_SetOffset K topic part start = None \<and>
       (\<forall>n e. k_ReadMessage K topic part start n \<noteq> Some (Inl e)) \<longrightarrow>
       r = (List.map_filter (\<lambda>m. decodeBatch K m sid ack) (filter (\<lambda>m. start \<le> m_Offset m \<and> m_Offset m < l) (log topic part)), None))"
proof (cases "partitionOffsets K broker topic part sid")
  case (Inr p)
  obtain start l where p: "p = (start, l)" by (cases p)
  let ?recs = "filter (\<lambda>m. start \<le> m_Offset m) (log topic part)"
  show ?thesis
  proof (cases "start < l \<and> k_SetOffset K topic part start = None")
    case True
    then have "l - 1 \<in> m_Offset ` set (log topic part)" using serves_end [OF assms] Inr p by blast
    then obtain m where m: "m \<in> set ?recs" "m_Offset m = l - 1" using True by auto
    then obtain k where k: "k < length ?recs" "m_Offset (?recs ! k) = l - 1" by (auto simp only: in_set_conv_nth)
    from filter_below_index [OF serves_sorted [OF assms] k] have "take (Suc k) ?recs = filter (\<lambda>m. start \<le> m_Offset m \<and> m_Offset m < l) (log topic part)"
      by (simp add: conj_commute)
    then show ?thesis using readLoop_log [OF assms k, of 0 sid ack] True Inr p by (simp add: streamPartition_def)
  next
    case False
    have "filter (\<lambda>m. start \<le> m_Offset m \<and> m_Offset m < l) (log topic part) = []" if "l \<le> start" using that by (auto simp: filter_empty_conv)
    then show ?thesis using False Inr p by (auto simp: streamPartition_def map_filter_simps split: option.split)
  qed
qed (simp add: streamPartition_def)

section \<open>Properties\<close>

lemma mset_concat_map: "mset xs = mset ys \<Longrightarrow> mset (concat (map f xs)) = mset (concat (map f ys))"
proof -
  have "mset (concat (map f zs)) = sum_mset (image_mset (\<lambda>z. mset (f z)) (mset zs))" for zs
    by (induction zs) simp_all
  then show "mset xs = mset ys \<Longrightarrow> mset (concat (map f xs)) = mset (concat (map f ys))" by simp
qed

lemma ids_emitted: "mset (map o_OrderID (emitted window os)) = mset (map o_OrderID os)"
proof -
  have "map o_OrderID xs = map o_OrderID (map plain xs)" for xs by (simp add: plain_def)
  then show ?thesis using emitted_conserves(2) [of window os] by (metis mset_map)
qed

lemma length_emitted: "length (emitted window os) = length os"
  using arg_cong [OF emitted_conserves(2) [of window os], of size] by simp

lemma emitted_joined:
  assumes "\<And>o'. o' \<in> set os \<Longrightarrow> joined ss as o'" "x \<in> set (emitted window os)"
  shows "joined ss as x"
proof -
  have "plain x \<in> set (map plain os)"
    using assms(2) arg_cong [OF emitted_conserves(2) [of window os], of set_mset]
    by (simp only: set_mset_mset set_map) blast
  then obtain o' where "o' \<in> set os" "plain x = plain o'" by auto
  then show ?thesis using assms(1) by (auto simp: joined_def)
qed

lemma Assemble_responses: "AssembleOrder s acks = Some y \<Longrightarrow> o_Responses y = responses acks"
  by (auto simp: AssembleOrder_def split: list.splits)

lemma joined_responses:
  assumes "joined ss as x"
  shows "o_Responses x \<noteq> []" "distinct (o_Responses x)"
proof -
  obtain s acks where j: "distinct (map ackKey acks)" "AssembleOrder s acks = Some (plain x)" "acks \<noteq> []"
    using assms unfolding joined_def by (metis AssembleOrder_None option.distinct(1))
  have r: "o_Responses x = responses acks"
    using Assemble_responses [OF j(2)] by (simp add: plain_def)
  show "o_Responses x \<noteq> []" using j(3) by (simp add: r responses_def)
  have "distinct (map (\<lambda>r. (ExecType r, T7Ns r, FillQty r, FillPrice r)) (responses acks))"
    using j(1) by (simp add: responses_def ackKey_def [abs_def] comp_def)
  then show "distinct (o_Responses x)" unfolding r by (simp add: distinct_map)
qed

definition demoSent :: "string \<Rightarrow> u64 \<Rightarrow> bool \<Rightarrow> OrderSentEvent" where
  "demoSent i ts lost = zeroSent\<lparr>s_OrderID := i, s_SendTSNS := ts, s_TimedOut := lost, s_Qty := 5, s_Side := ''BUY'', s_PayloadType := ''NEW''\<rparr>"

definition demoAck :: "string \<Rightarrow> u64 \<Rightarrow> u64 \<Rightarrow> OrderAckedEvent" where
  "demoAck i t3 q = \<lparr>a_SessionID = [], a_ContestantID = ''c'', a_OrderID = i, a_SrcIP = 1, a_SrcPort = 2, a_TCPSeq = 3,
     a_T3XDPIngressNS = t3, a_T7XDPEgressNS = t3 + 5, a_PodServiceTimeNS = 0, a_ExecType = ''F'', a_FillQty = q,
     a_FillPrice = 7, a_OrigOrderID = [], a_ReorderingDetected = False, a_RetransmissionCount = 0\<rparr>"

text \<open>One answered order with a redelivered response, one the bot timed out on, one lost by the capture, one never sent.\<close>

definition demoStreams :: "tsBatch list list" where
  "demoStreams = [
     [\<lparr>b_ts = 10, b_isAck = False, b_sent = [demoSent ''a'' 10 False, demoSent ''b'' 11 True], b_acks = []\<rparr>,
      \<lparr>b_ts = 600000000, b_isAck = False, b_sent = [demoSent ''d'' 600000000 False], b_acks = []\<rparr>],
     [\<lparr>b_ts = 12, b_isAck = True, b_sent = [], b_acks = [demoAck ''a'' 12 3, demoAck ''a'' 12 3, demoAck ''x'' 13 4]\<rparr>]]"

lemma demoStreams_run:
  "j_trace (runStreams 4 demoStreams) = [AddLost ''b'' NewLimit, AddPhantom ''x'' 4 7, AddCaptureGap,
     Apply (zeroOrder\<lparr>o_OrderID := ''a'', o_Flow := \<lparr>SrcIP = 1, SrcPort = 2\<rparr>, o_TCPSeq := 3, o_T3Ns := 12,
       o_EffectiveT3 := 12, o_Qty := 5, o_HasSMPID := True, o_Responses := [\<lparr>ExecType = ''F'', FillQty = 3, FillPrice = 7, T7Ns = 17\<rparr>]\<rparr>)]"
  by code_simp

abbreviation sentEvents :: "tsBatch list list \<Rightarrow> OrderSentEvent list" where
  "sentEvents streams \<equiv> concat (map sentOf (concat streams))"

abbreviation ackedEvents :: "tsBatch list list \<Rightarrow> OrderAckedEvent list" where
  "ackedEvents streams \<equiv> concat (map acksOf (concat streams))"

lemma runStreams_ids:
  assumes "distinct (map s_OrderID (sentEvents streams))"
  shows "\<exists>gs. mset (map o_OrderID (applied (j_trace (runStreams window streams)))) + mset (lostIds (j_trace (runStreams window streams))) + mset gs =
      mset (map s_OrderID (sentEvents streams)) \<and> length gs = gapCalls (j_trace (runStreams window streams))"
proof -
  let ?j = "runStreams window streams"
  obtain bs os gs where b: "mset bs = mset (concat streams)" "applied (j_trace ?j) = emitted window os" "length gs = gapCalls (j_trace ?j)"
    "distinct (map s_OrderID (concat (map sentOf bs))) \<longrightarrow>
       mset (map o_OrderID os) + mset (lostIds (j_trace ?j)) + mset gs = mset (map s_OrderID (concat (map sentOf bs)))"
    using runStreams_settled [of streams window] by blast
  have ids: "mset (map s_OrderID (concat (map sentOf bs))) = mset (map s_OrderID (sentEvents streams))"
    using mset_concat_map [OF b(1), of sentOf] by simp
  have "distinct (map s_OrderID (concat (map sentOf bs)))" using assms mset_eq_imp_distinct_iff [OF ids] by simp
  with b(4) ids have "mset (map o_OrderID os) + mset (lostIds (j_trace ?j)) + mset gs = mset (map s_OrderID (sentEvents streams))" by simp
  then show ?thesis using b(2,3) ids_emitted [of window os] by metis
qed

text \<open>
  C10. Every sent order is settled exactly once. When no order id is sent twice, after the
  merge, the join and the drain nothing is pending, and the ids of the sent events are,
  with multiplicity, those of the orders applied to the validator, those reported lost and
  those counted as capture gaps; the counters stored for the session are these numbers, so
  matched, lost and gap orders add up to the sent events, whatever the interleaving of the
  partitions and however late or redelivered the responses are.
\<close>

theorem sent_orders_settled_once:
  assumes "distinct (map s_OrderID (sentEvents streams))"
  shows "let j = runStreams window streams; c = j_counts j in
    j_pending j = Map.empty \<and>
    (\<exists>gs. mset (map o_OrderID (applied (j_trace j))) + mset (lostIds (j_trace j)) + mset gs = mset (map s_OrderID (sentEvents streams)) \<and>
       length gs = gapCalls (j_trace j)) \<and>
    MatchedOrders c = of_nat (length (applied (j_trace j))) \<and> LostOrders c = of_nat (length (lostIds (j_trace j))) \<and>
    CaptureGaps c = of_nat (gapCalls (j_trace j)) \<and>
    MatchedOrders c + LostOrders c + CaptureGaps c = SentEvents c"
proof -
  let ?j = "runStreams window streams" and ?tr = "j_trace (runStreams window streams)"
  obtain bs os where b: "mset bs = mset (concat streams)" "j_pending ?j = Map.empty"
    "SentEvents (j_counts ?j) = of_nat (length (concat (map sentOf bs)))" "applied ?tr = emitted window os"
    "MatchedOrders (j_counts ?j) = of_nat (length os)" "LostOrders (j_counts ?j) = of_nat (length (lostIds ?tr))"
    "CaptureGaps (j_counts ?j) = of_nat (gapCalls ?tr)"
    using runStreams_settled [of streams window] by metis
  obtain gs where m: "mset (map o_OrderID (applied ?tr)) + mset (lostIds ?tr) + mset gs = mset (map s_OrderID (sentEvents streams))"
    "length gs = gapCalls ?tr" using runStreams_ids [OF assms] by blast
  have "length (concat (map sentOf bs)) = length (sentEvents streams)"
    using arg_cong [OF mset_concat_map [OF b(1), of sentOf], of size] by simp
  then have "length (applied ?tr) + length (lostIds ?tr) + gapCalls ?tr = length (concat (map sentOf bs))"
    using arg_cong [OF m(1), of size] m(2) by simp
  then have "MatchedOrders (j_counts ?j) + LostOrders (j_counts ?j) + CaptureGaps (j_counts ?j) = SentEvents (j_counts ?j)"
    using b(3-7) by (simp add: length_emitted flip: of_nat_add)
  then show ?thesis using b(2,4-7) m by (auto simp: Let_def length_emitted)
qed

theorem sent_orders_settled_once_witness:
  "map s_OrderID (sentEvents demoStreams) = [''a'', ''b'', ''d''] \<and>
   (let c = j_counts (runStreams 4 demoStreams) in MatchedOrders c + LostOrders c + CaptureGaps c = SentEvents c \<and> MatchedOrders c = 1)"
proof -
  have ids: "map s_OrderID (sentEvents demoStreams) = [''a'', ''b'', ''d'']" by code_simp
  then have "distinct (map s_OrderID (sentEvents demoStreams))" by simp
  from sent_orders_settled_once [OF this, of 4] ids show ?thesis by (auto simp: Let_def demoStreams_run)
qed

text \<open>
  C11. Every verdict rests on the evidence. An order applied to the validator is the join of
  an event that was sent with responses captured for its id, each counted once however
  often it was redelivered; an order is reported lost only when the bot that sent it timed
  out; a phantom fill was really reported, for an id whose sent event had not been seen.
\<close>

theorem every_verdict_has_evidence:
  fixes window streams
  defines "tr \<equiv> j_trace (runStreams window streams)"
  shows "(\<forall>x\<in>set (applied tr). joined (sentEvents streams) (ackedEvents streams) x \<and> o_Responses x \<noteq> [] \<and> distinct (o_Responses x)) \<and>
    (\<forall>i k. AddLost i k \<in> set tr \<longrightarrow> (\<exists>s\<in>set (sentEvents streams). s_OrderID s = i \<and> s_TimedOut s)) \<and>
    (\<forall>i q p. AddPhantom i q p \<in> set tr \<longrightarrow> (\<exists>a\<in>set (ackedEvents streams). a_OrderID a = i \<and> streamIsFill (a_ExecType a) q \<and>
       a_FillQty a = q \<and> int64 (a_FillPrice a) = p))"
proof -
  obtain bs os where b: "mset bs = mset (concat streams)"
    "\<forall>c\<in>set tr. call_ok (concat (map sentOf bs)) (concat (map acksOf bs)) c" "applied tr = emitted window os"
    "\<forall>o'\<in>set os. joined (concat (map sentOf bs)) (concat (map acksOf bs)) o'"
    using runStreams_settled [of streams window] unfolding tr_def by blast
  have eq: "set (concat (map sentOf bs)) = set (sentEvents streams)" "set (concat (map acksOf bs)) = set (ackedEvents streams)"
    using arg_cong [OF mset_concat_map [OF b(1), of sentOf], of set_mset]
      arg_cong [OF mset_concat_map [OF b(1), of acksOf], of set_mset] by simp_all
  note ev = mono_events [OF equalityD1 [OF eq(1)] equalityD1 [OF eq(2)]]
  have calls: "call_ok (sentEvents streams) (ackedEvents streams) c" if "c \<in> set tr" for c using b(2) that ev(3) by blast
  have "joined (sentEvents streams) (ackedEvents streams) x" if "x \<in> set (applied tr)" for x
    using emitted_joined [of os _ _ x window] b(3,4) that ev(2) by metis
  then show ?thesis using joined_responses calls by (fastforce simp: call_ok_def)
qed

theorem every_verdict_has_evidence_witness:
  "(\<exists>s\<in>set (sentEvents demoStreams). s_OrderID s = ''b'' \<and> s_TimedOut s) \<and>
   list_all (\<lambda>x. o_OrderID x = ''a'' \<and> distinct (o_Responses x)) (applied (j_trace (runStreams 4 demoStreams)))"
proof -
  have "AddLost ''b'' NewLimit \<in> set (j_trace (runStreams 4 demoStreams))" by (simp add: demoStreams_run)
  moreover have "map o_OrderID (applied (j_trace (runStreams 4 demoStreams))) = [''a'']" by (simp add: demoStreams_run)
  ultimately show ?thesis using every_verdict_has_evidence [where window = 4 and streams = demoStreams] by (auto simp: list_all_iff)
qed

subsection \<open>The orders that are joined\<close>

text \<open>
  The orders the join assembles, in the order in which it does: when it settles an id whose
  sent event and responses it holds. They do not depend on the reorderer.
\<close>

definition assembled :: "pendingOrder \<Rightarrow> Order list" where
  "assembled po = (if outcome po = outcomeMatched
     then (case AssembleOrder (p_sent po) (p_acks po) of None \<Rightarrow> [] | Some o' \<Rightarrow> [o']) else [])"

fun joinedBy :: "u64 \<Rightarrow> bool \<Rightarrow> string list \<Rightarrow> (string \<rightharpoonup> pendingOrder) \<Rightarrow> Order list" where
  "joinedBy watermark flushAll [] pend = []"
| "joinedBy watermark flushAll (oid # ids) pend = (case pend oid of
     None \<Rightarrow> joinedBy watermark flushAll ids pend
   | Some po \<Rightarrow>
       if \<not> flushAll \<and> (if p_sendTS po = 0 then p_t3 po else p_sendTS po) + DefaultJoinWindowNS > watermark then []
       else assembled po @ joinedBy watermark flushAll ids (pend(oid := None)))"

fun joinedOrders :: "Join \<Rightarrow> tsBatch list \<Rightarrow> Order list" where
  "joinedOrders j [] = joinedBy 0 True (j_order j) (j_pending j)"
| "joinedOrders j (b # bs) = (let j1 = processBatch b j in
     joinedBy (b_ts b) False (j_order j1) (j_pending j1) @ joinedOrders (joinStep j b) bs)"

definition sessionOrders :: "int \<Rightarrow> tsBatch list list \<Rightarrow> Order list" where
  "sessionOrders window streams = joinedOrders (newJoin window) (mergeOrder streams)"

text \<open>The reorderer was fed the orders \<open>os\<close>, and the validator got what it released.\<close>

definition fed :: "int \<Rightarrow> Order list \<Rightarrow> Join \<Rightarrow> bool" where
  "fed window os j \<longleftrightarrow> pushAll (NewReorderer window) os = (applied (j_trace j), j_r j)"

lemma fed_emitOne:
  assumes "fed window os j"
  shows "fed window (os @ assembled po) (emitOne i po j)"
proof (cases "outcome po")
  case outcomeMatched
  show ?thesis
  proof (cases "AssembleOrder (p_sent po) (p_acks po)")
    case (Some x)
    obtain out r' where "Push (j_r j) x = (out, r')" by fastforce
    then show ?thesis using assms outcomeMatched Some by (simp add: fed_def emitOne_def assembled_def pushAll_snoc)
  qed (use outcomeMatched in \<open>auto simp: outcome_def split: if_splits\<close>)
next
  case outcomeUnsent
  then show ?thesis using assms by (simp add: fed_def emitOne_def assembled_def)
qed (use assms in \<open>simp_all add: fed_def emitOne_def assembled_def\<close>)

lemma fed_emitLoop: "fed window os j \<Longrightarrow> fed window (os @ joinedBy wm fl ids (j_pending j)) (snd (emitLoop wm fl ids j))"
proof (induction ids arbitrary: os j)
  case (Cons i ids)
  show ?case
  proof (cases "j_pending j i")
    case (Some po)
    define ref where "ref = (if p_sendTS po = 0 then p_t3 po else p_sendTS po)"
    have "fed window (os @ assembled po) (emitOne i po j\<lparr>j_pending := (j_pending j)(i := None)\<rparr>)"
      using fed_emitOne [OF Cons.prems] by (simp add: fed_def)
    note IH = Cons.IH [OF this]
    show ?thesis
    proof (cases "\<not> fl \<and> ref + DefaultJoinWindowNS > wm")
      case False
      then show ?thesis using IH Some
        by (simp only: emitLoop.simps joinedBy.simps option.case Let_def ref_def [symmetric] if_False emitOne_pending) (simp add: fun_upd_def)
    qed (use Some Cons.prems in \<open>simp add: Let_def ref_def\<close>)
  qed (use Cons in simp)
qed simp

lemma fed_emitReady: "fed window os j \<Longrightarrow> fed window (os @ joinedBy wm fl (j_order j) (j_pending j)) (emitReady wm fl j)"
  using fed_emitLoop [of window os j wm fl "j_order j"] by (simp add: emitReady_def fed_def split: prod.split)

lemma fed_processBatch: "fed window os j \<Longrightarrow> fed window os (processBatch b j)"
proof -
  have step: "fed window os (processAck j a)" "fed window os (processSent j s)" if "fed window os j" for j a s
    using that by (simp_all add: fed_def processAck_def processSent_def lookupPending_def addAck_def Let_def split: option.split)
  have "fed window os (foldl processAck j as)" if "fed window os j" for as
    using that by (induction as arbitrary: j) (simp_all add: step)
  moreover have "fed window os (foldl processSent j ss)" if "fed window os j" for ss
    using that by (induction ss arbitrary: j) (simp_all add: step)
  ultimately show "fed window os j \<Longrightarrow> fed window os (processBatch b j)" by (simp add: processBatch_def)
qed

lemma fed_drain: "fed window os j \<Longrightarrow> applied (j_trace (drain (foldl joinStep j bs))) = emitted window (os @ joinedOrders j bs)"
proof (induction bs arbitrary: os j)
  case Nil
  from fed_emitReady [OF Nil, of 0 True] show ?case
    by (simp add: fed_def drain_def emitted_def Let_def split: prod.split)
next
  case (Cons b bs)
  have "fed window (os @ joinedBy (b_ts b) False (j_order (processBatch b j)) (j_pending (processBatch b j))) (joinStep j b)"
    unfolding joinStep_def by (rule fed_emitReady [OF fed_processBatch [OF Cons.prems]])
  from Cons.IH [OF this] show ?case by (simp add: Let_def)
qed

lemma applied_emitted: "applied (j_trace (runStreams window streams)) = emitted window (sessionOrders window streams)"
proof -
  have "fed window [] (newJoin window)" by (simp add: fed_def newJoin_def)
  from fed_drain [OF this] show ?thesis by (simp add: runStreams_def sessionOrders_def mergeOrder_fold)
qed

text \<open>
  C12. The session reaches the validator in replay order. The batches of all partitions are
  processed once each, in the order of their event times when every partition delivers them
  so; the orders applied to the validator are those the join assembles on the way, as the bounded
  reorderer releases them; and when these meet its conditions in the order in which the join
  assembles them (sequence numbers in half of their range, every connection in order, none more than a
  window late), the orders applied are exactly their replay order, head-of-line promotion included.
\<close>

theorem session_applied_in_replay_order:
  fixes window streams
  defines "os \<equiv> sessionOrders window streams"
  shows "(\<forall>j. mergeLoop streams j = foldl joinStep j (mergeOrder streams)) \<and> mset (mergeOrder streams) = mset (concat streams) \<and>
     ((\<forall>s\<in>set streams. sorted (map b_ts s)) \<longrightarrow> sorted (map b_ts (mergeOrder streams))) \<and>
     mset (map plain (applied (j_trace (runStreams window streams)))) = mset (map plain os) \<and>
     (\<forall>base. seq_window base os \<and> flow_fifo base os \<and> at_most_late (nat (max 1 window)) os \<longrightarrow>
        applied (j_trace (runStreams window streams)) = replayOrder os)"
  using mergeOrder_exact [of streams] emitted_conserves(2) [of window os] emitted_exact [of _ os window]
  by (auto simp: mergeOrder_fold applied_emitted os_def)

text \<open>
  Two connections: the second request of the first arrived before the first one of the other, and
  was held up behind its predecessor.
\<close>

definition demoFlowAck :: "string \<Rightarrow> u32 \<Rightarrow> u32 \<Rightarrow> u64 \<Rightarrow> OrderAckedEvent" where
  "demoFlowAck i ip seq t3 = (demoAck i t3 1)\<lparr>a_SrcIP := ip, a_TCPSeq := seq\<rparr>"

definition demoFlows :: "tsBatch list list" where
  "demoFlows = [
     [\<lparr>b_ts = 1, b_isAck = False, b_sent = [demoSent ''a'' 1 False, demoSent ''b'' 2 False, demoSent ''c'' 3 False], b_acks = []\<rparr>],
     [\<lparr>b_ts = 20, b_isAck = True, b_sent = [], b_acks = [demoFlowAck ''a'' 1 1 20, demoFlowAck ''b'' 2 1 10, demoFlowAck ''c'' 1 2 15]\<rparr>]]"

lemma demoFlows_joined:
  "map (\<lambda>x. (o_OrderID x, SrcIP (o_Flow x), o_TCPSeq x, o_T3Ns x)) (sessionOrders 1 demoFlows) = [(''a'', 1, 1, 20), (''b'', 2, 1, 10), (''c'', 1, 2, 15)]"
  "map (\<lambda>x. (o_OrderID x, SrcIP (o_Flow x), o_TCPSeq x, o_EffectiveT3 x)) (replayOrder (sessionOrders 1 demoFlows)) =
     [(''b'', 2, 1, 10), (''a'', 1, 1, 20), (''c'', 1, 2, 20)]"
  by code_simp+

theorem session_applied_in_replay_order_witness:
  "map (\<lambda>x. (o_OrderID x, o_EffectiveT3 x)) (applied (j_trace (runStreams 1 demoFlows))) = [(''b'', 10), (''a'', 20), (''c'', 20)] \<and>
   map b_ts (mergeOrder demoFlows) = [1, 20]"
proof -
  let ?os = "sessionOrders 1 demoFlows" and ?key = "\<lambda>x. (o_OrderID x, SrcIP (o_Flow x), o_TCPSeq x, o_T3Ns x)"
  obtain a b c where os: "?os = [a, b, c]" "?key a = (''a'', 1, 1, 20)" "?key b = (''b'', 2, 1, 10)" "?key c = (''c'', 1, 2, 15)"
    using demoFlows_joined(1) by (auto simp: map_eq_Cons_conv)
  obtain x y z where rs: "replayOrder ?os = [x, y, z]" "o_OrderID x = ''b''" "o_OrderID y = ''a''" "o_OrderID z = ''c''"
    "SrcIP (o_Flow x) = 2" "SrcIP (o_Flow y) = 1" "SrcIP (o_Flow z) = 1" "o_TCPSeq x = 1" "o_TCPSeq y = 1" "o_TCPSeq z = 2"
    using demoFlows_joined(2) by (auto simp: map_eq_Cons_conv)
  have f: "o_Flow a \<noteq> o_Flow b" "o_Flow c \<noteq> o_Flow b" using os(2-4) by auto
  have "seq_window (\<lambda>_. 0) ?os" using os(2-4) f unfolding os(1) by (simp add: seq_window_def rank_def)
  moreover have "flow_fifo (\<lambda>_. 0) ?os" using os(2-4) f unfolding os(1) by (simp add: flow_fifo_def rank_def)
  moreover have "at_most_late (nat (max 1 1)) ?os"
    unfolding at_most_late_def rs(1) using os(2-4) f rs(5-10) unfolding os(1) by (auto simp: All_less_Suc)
  ultimately have "applied (j_trace (runStreams 1 demoFlows)) = replayOrder ?os"
    using session_applied_in_replay_order [where window = 1 and streams = demoFlows] by blast
  moreover have "map (\<lambda>x. (o_OrderID x, o_EffectiveT3 x)) (replayOrder ?os) = [(''b'', 10), (''a'', 20), (''c'', 20)]"
    using demoFlows_joined(2) unfolding rs(1) by simp
  ultimately show ?thesis by simp code_simp
qed

lemma BandPartition_in_set:
  assumes "n < 2 ^ 31"
  shows "BandPartition band oid n w \<in> bandPartitionSet band n w"
proof (cases "n \<le> 1")
  case True
  then show ?thesis by (simp add: BandPartition_def bandPartitionSet_def)
next
  case False
  let ?w = "clampWidth n w"
  have "1 \<le> ?w" "?w \<le> n" using clampWidth_bounds [of n w] False by auto
  then have "int32_of_int (uint (fnv1a64 oid mod of_int ?w)) \<in> {0..?w - 1}"
    using uint_mod_width [of ?w "fnv1a64 oid"] assms by auto
  then show ?thesis using False by (auto simp: BandPartition_def bandPartitionSet_def Let_def)
qed

text \<open>
  C13. A leased band isolates its session. The partition a producer picks for an order of a
  band is one of those the validator reads for that band, for every band, width and number
  of partitions; and bands that fit into the topic are disjoint intervals of its partitions.
\<close>

theorem bands_isolate_sessions:
  assumes "n < 2 ^ 31"
  shows "BandPartition band oid n w \<in> bandPartitionSet band n w \<and>
    (1 < n \<and> 1 \<le> w \<and> (uint band + 1) * w \<le> n \<longrightarrow>
       bandPartitionSet band n w = {uint band * w ..< (uint band + 1) * w} \<and>
       (\<forall>band'. band' \<noteq> band \<and> (uint band' + 1) * w \<le> n \<longrightarrow> bandPartitionSet band n w \<inter> bandPartitionSet band' n w = {}))"
proof (intro conjI impI allI)
  show "BandPartition band oid n w \<in> bandPartitionSet band n w" by (rule BandPartition_in_set [OF assms])
  assume a: "1 < n \<and> 1 \<le> w \<and> (uint band + 1) * w \<le> n"
  show "bandPartitionSet band n w = {uint band * w ..< (uint band + 1) * w}"
    using a assms by (intro bandPartitionSet_interval) auto
  fix band' assume b: "band' \<noteq> band \<and> (uint band' + 1) * w \<le> n"
  then have "uint band \<noteq> uint band'" using word_uint_eqI by blast
  then have "uint band + 1 \<le> uint band' \<or> uint band' + 1 \<le> uint band" by linarith
  then have "(uint band + 1) * w \<le> uint band' * w \<or> (uint band' + 1) * w \<le> uint band * w"
    using a by (auto intro: mult_right_mono)
  then show "bandPartitionSet band n w \<inter> bandPartitionSet band' n w = {}"
    using a b assms bandPartitionSet_interval [of n w band] bandPartitionSet_interval [of n w band'] by auto
qed

theorem bands_isolate_sessions_witness:
  "bandPartitionSet 2 16 4 = {8 ..< 12} \<and> bandPartitionSet 2 16 4 \<inter> bandPartitionSet 3 16 4 = {} \<and>
   BandPartition 2 ''order-1'' 16 4 \<in> {8 ..< 12}"
proof -
  have n: "(16 :: int) < 2 ^ 31" by simp
  note b = bands_isolate_sessions [OF n, of 2 "''order-1''" 4]
  have "1 < (16 :: int) \<and> 1 \<le> (4 :: int) \<and> (uint (2 :: u32) + 1) * 4 \<le> 16" by simp
  with b have c: "bandPartitionSet 2 16 4 = {uint (2 :: u32) * 4 ..< (uint (2 :: u32) + 1) * 4}"
    "\<And>band'. band' \<noteq> 2 \<and> (uint band' + 1) * 4 \<le> 16 \<Longrightarrow> bandPartitionSet 2 16 4 \<inter> bandPartitionSet band' 16 4 = {}" by blast+
  have eq: "bandPartitionSet 2 16 4 = {8 ..< 12}" using c(1) by simp
  moreover have "bandPartitionSet 2 16 4 \<inter> bandPartitionSet 3 16 4 = {}" by (rule c(2)) simp
  moreover have "BandPartition 2 ''order-1'' 16 4 \<in> bandPartitionSet 2 16 4" using b by blast
  ultimately show ?thesis by simp
qed

text \<open>
  C14. Reading a session ends, and reads all of it. On a broker that serves the partitions as logs, where a
  read beyond the last record blocks for ever, every partition reader stops at
  the record before the end offset it was given and the session source returns, with an error or with its counts;
  and a reader none of whose calls fails delivers exactly the batches decoded from the records from its start
  offset up to that end offset, in order.
\<close>

theorem StreamSession_returns:
  assumes "serves K log"
  shows "(\<exists>r. StreamSession K brokers sessionID window orderBand bandWidth = Some r) \<and>
    (\<forall>broker topic part ack start l. partitionOffsets K broker topic part sessionID = Inr (start, l) \<and> k_SetOffset K topic part start = None \<and>
       (\<forall>n e. k_ReadMessage K topic part start n \<noteq> Some (Inl e)) \<longrightarrow>
       streamPartition K broker topic part sessionID ack = Some
         (List.map_filter (\<lambda>m. decodeBatch K m sessionID ack) (filter (\<lambda>m. start \<le> m_Offset m \<and> m_Offset m < l) (log topic part)), None))"
proof -
  have "those (map (\<lambda>p. streamPartition K b TopicOrdersSent p sessionID False) ps @
      map (\<lambda>p. streamPartition K b TopicOrdersAcked p sessionID True) qs) \<noteq> None" (is "those ?xs \<noteq> None") for b ps qs
  proof -
    have "x \<noteq> None" if "x \<in> set ?xs" for x using that streamPartition_log [OF assms] by fastforce
    from those_Some [OF this] show ?thesis by fastforce
  qed
  then have "StreamSession K brokers sessionID window orderBand bandWidth \<noteq> None"
    unfolding StreamSession_def Let_def by (auto split: option.split sum.split list.split simp: option.map_disc_iff)
  moreover have "streamPartition K broker topic part sessionID ack = Some
      (List.map_filter (\<lambda>m. decodeBatch K m sessionID ack) (filter (\<lambda>m. start \<le> m_Offset m \<and> m_Offset m < l) (log topic part)), None)"
    if "partitionOffsets K broker topic part sessionID = Inr (start, l)" "k_SetOffset K topic part start = None"
      "\<forall>n e. k_ReadMessage K topic part start n \<noteq> Some (Inl e)" for broker topic part ack start l
    using streamPartition_log [OF assms, of broker topic part sessionID ack] that by blast
  ultimately show ?thesis by blast
qed

text \<open>A broker with one partition per topic, which holds two copies of one sent batch.\<close>

definition demoBatchV2 :: OrderSentBatchV2 where
  "demoBatchV2 = \<lparr>sb_SessionID = ''s'', sb_SubmissionID = [], sb_WorkerID = [], sb_Events =
     [\<lparr>sf_TaskID = 0, sf_OrderID = ''a'', sf_TargetSendTSNS = 1, sf_SendTSNS = 1, sf_RecvDoneTSNS = 0, sf_TimedOut = True,
       sf_Price = 1, sf_Qty = 1, sf_Side = ''BUY'', sf_PayloadType = ''NEW'', sf_OrdType = ''LIMIT'', sf_OrigOrderID = [],
       sf_BarrierEpochNs = 0, sf_SMPID = 0\<rparr>]\<rparr>"

definition demoLog :: "unit Message list" where
  "demoLog = [\<lparr>m_Offset = 5, m_Value = ()\<rparr>, \<lparr>m_Offset = 6, m_Value = ()\<rparr>]"

definition demoKafka :: "(unit, string) kafka_ops" where
  "demoKafka = \<lparr>k_Dial = (\<lambda>_. None), k_ReadPartitions = (\<lambda>_ _. Inr [0]), k_DialLeader = (\<lambda>_ _ _. None),
     k_ReadOffset = (\<lambda>_ _ _. Inr 5), k_ReadLastOffset = (\<lambda>_ _. Inr 7), k_ReadFirstOffset = (\<lambda>_ _. Inr 5),
     k_SetOffset = (\<lambda>_ _ _. None),
     k_ReadMessage = (\<lambda>_ _ start n. let recs = filter (\<lambda>m. start \<le> m_Offset m) demoLog in
       if n < length recs then Some (Inr (recs ! n)) else None),
     k_UnmarshalAcked = (\<lambda>_. None), k_UnmarshalSent = (\<lambda>_. Some demoBatchV2)\<rparr>"

theorem StreamSession_returns_witness:
  "(\<exists>r. StreamSession demoKafka [''b''] ''s'' 0 OrderBandUnset 1 = Some r) \<and>
   map_option (map b_ts \<circ> fst) (streamPartition demoKafka ''b'' TopicOrdersSent 0 ''s'' False) = Some [1, 1]"
proof -
  have s: "serves demoKafka (\<lambda>_ _. demoLog)"
    unfolding serves_def Let_def by (auto simp: demoKafka_def demoLog_def)
  have h: "partitionOffsets demoKafka ''b'' TopicOrdersSent 0 ''s'' = Inr (5, 7)" "k_SetOffset demoKafka TopicOrdersSent 0 5 = None"
    "\<forall>n e. k_ReadMessage demoKafka TopicOrdersSent 0 5 n \<noteq> Some (Inl e)"
    by code_simp (simp_all add: demoKafka_def Let_def)
  have b: "map b_ts (List.map_filter (\<lambda>m. decodeBatch demoKafka m ''s'' False) (filter (\<lambda>m. 5 \<le> m_Offset m \<and> m_Offset m < 7) demoLog)) = [1, 1]"
    by code_simp
  show ?thesis using StreamSession_returns [OF s, of "[''b'']" "''s''" 0 OrderBandUnset 1] h b by auto
qed

end
