(* ===== verification/Report.thy ===== *)
theory Report
  imports Book GoFloat
begin

text \<open>
  The report vocabulary shared by the two validation modes
  (\<open>correctness-validator/internal/validate/validate.go\<close>): the classes of violations, the
  report with its exact counters and its bounded examples, and the order-level score.

  A message built by \<open>fmt.Sprintf\<close> is a constructor for its format, with its arguments. A nil
  map of the source is an empty one.
\<close>

section \<open>Definitions\<close>

datatype ViolationType = Overfill | MissedFill | Price | Time | SelfTrade | CancelReplaceLoss | LostOrder | LostCancel

datatype detail =
    Detail string
  | DetailOverfill u64 u64
  | DetailRefQty u64 u64
  | DetailMissed u64 u64
  | DetailReprice string
  | DetailTime string

datatype taintReason =
    NoReason
  | CaptureLostScore u64 u64 float64
  | CaptureLostGrading u64 u64 float64
  | T7Unreliable u64 u64 u64 float64

record Violation =
  vi_Type :: ViolationType
  vi_OrderID :: string
  vi_ReportedQty :: u64
  vi_ReportedPrice :: i64
  vi_Detail :: detail

record ReportedFill =
  rf_OrderID :: string
  rf_Qty :: u64
  rf_Price :: i64

record JitterStats =
  js_Count :: u64
  js_InversionRate :: float64
  js_P50Us :: float64
  js_P99Us :: float64
  js_P999Us :: float64
  js_MaxUs :: float64

definition zeroJitter :: JitterStats where
  "zeroJitter = \<lparr>js_Count = 0, js_InversionRate = Fin 0, js_P50Us = Fin 0, js_P99Us = Fin 0, js_P999Us = Fin 0, js_MaxUs = Fin 0\<rparr>"

record Report =
  TotalFills :: u64
  ValidFills :: u64
  PhantomFills :: u64
  Overfills :: u64
  PriceViolations :: u64
  TimeViolations :: u64
  CancelReplaceLosses :: u64
  SelfTrades :: u64
  MissedFills :: u64
  Violations :: "Violation list"
  totalViolations :: u64
  violationExamplesByType :: "ViolationType \<Rightarrow> nat"
  rep_LostOrders :: u64
  LostCancels :: u64
  rep_CaptureGaps :: u64
  Jitter :: JitterStats
  T7ReorderLate :: u64
  T7Anomalies :: u64
  Tainted :: bool
  TaintReason :: taintReason
  ScoredFills :: u64
  ScoredOrders :: u64
  DirtyOrders :: u64
  dirtyByOrder :: "string set"

definition zeroReport :: Report where
  "zeroReport = \<lparr>TotalFills = 0, ValidFills = 0, PhantomFills = 0, Overfills = 0, PriceViolations = 0,
     TimeViolations = 0, CancelReplaceLosses = 0, SelfTrades = 0, MissedFills = 0, Violations = [],
     totalViolations = 0, violationExamplesByType = (\<lambda>_. 0), rep_LostOrders = 0, LostCancels = 0,
     rep_CaptureGaps = 0, Jitter = zeroJitter, T7ReorderLate = 0, T7Anomalies = 0, Tainted = False,
     TaintReason = NoReason, ScoredFills = 0, ScoredOrders = 0, DirtyOrders = 0, dirtyByOrder = {}\<rparr>"

definition MarkDirty :: "Report \<Rightarrow> string \<Rightarrow> Report" where
  "MarkDirty r orderID = (if orderID \<in> dirtyByOrder r then r
     else r\<lparr>dirtyByOrder := insert orderID (dirtyByOrder r), DirtyOrders := DirtyOrders r + 1\<rparr>)"

definition CorrectnessScore :: "Report \<Rightarrow> float64" where
  "CorrectnessScore r = (if ScoredOrders r = 0 then Fin 1
     else let
       clean0 = ScoredOrders r - DirtyOrders r;
       clean = (if DirtyOrders r > ScoredOrders r then 0 else clean0)
     in fdiv (f64_of_u64 clean) (f64_of_u64 (ScoredOrders r)))"

definition ViolationCount :: "Report \<Rightarrow> u64" where
  "ViolationCount r = totalViolations r"

definition maxViolationExamplesPerType :: nat where
  "maxViolationExamplesPerType = 100"

definition isFill :: "string \<Rightarrow> u64 \<Rightarrow> bool" where
  "isFill execType qty \<longleftrightarrow> qty > 0 \<and> (execType = ''1'' \<or> execType = ''2'' \<or> execType = ''F'')"

definition add :: "ViolationType \<Rightarrow> string \<Rightarrow> u64 \<Rightarrow> i64 \<Rightarrow> detail \<Rightarrow> Report \<Rightarrow> Report" where
  "add t orderID qty price det r = (let
       r1 = MarkDirty (r\<lparr>totalViolations := totalViolations r + 1\<rparr>) orderID
     in if violationExamplesByType r1 t \<ge> maxViolationExamplesPerType then r1
        else r1\<lparr>violationExamplesByType := (violationExamplesByType r1)(t := violationExamplesByType r1 t + 1),
          Violations := Violations r1 @ [\<lparr>vi_Type = t, vi_OrderID = orderID, vi_ReportedQty = qty,
            vi_ReportedPrice = price, vi_Detail = det\<rparr>]\<rparr>)"

definition flagJump :: "'t Engine \<Rightarrow> Order \<Rightarrow> string \<Rightarrow> u64 \<Rightarrow> i64 \<Rightarrow> Report \<Rightarrow> Report" where
  "flagJump e o' jumper qty price r = (let r1 = r\<lparr>TimeViolations := TimeViolations r + 1\<rparr> in
     if Repriced e (o_OrderID o')
     then add CancelReplaceLoss (o_OrderID o') qty price (DetailReprice jumper)
       (r1\<lparr>CancelReplaceLosses := CancelReplaceLosses r1 + 1\<rparr>)
     else add Time (o_OrderID o') qty price (DetailTime jumper) r1)"

definition hasPrice :: "i64 set \<Rightarrow> i64 \<Rightarrow> bool" where
  "hasPrice m p \<longleftrightarrow> p \<in> m"

definition lostViolationType :: "Kind \<Rightarrow> ViolationType" where
  "lostViolationType k = (if k = Cancel then LostCancel else LostOrder)"

section \<open>What add and MarkDirty change\<close>

named_theorems report \<open>field equations of the report operations\<close>

lemma MarkDirty_fields [report]:
  "dirtyByOrder (MarkDirty r i) = insert i (dirtyByOrder r)"
  "DirtyOrders (MarkDirty r i) = (if i \<in> dirtyByOrder r then DirtyOrders r else DirtyOrders r + 1)"
  "ScoredOrders (MarkDirty r i) = ScoredOrders r" "TotalFills (MarkDirty r i) = TotalFills r"
  "ValidFills (MarkDirty r i) = ValidFills r" "Overfills (MarkDirty r i) = Overfills r"
  "PriceViolations (MarkDirty r i) = PriceViolations r" "TimeViolations (MarkDirty r i) = TimeViolations r"
  "SelfTrades (MarkDirty r i) = SelfTrades r" "MissedFills (MarkDirty r i) = MissedFills r"
  "totalViolations (MarkDirty r i) = totalViolations r" "Violations (MarkDirty r i) = Violations r"
  "violationExamplesByType (MarkDirty r i) = violationExamplesByType r"
  "rep_LostOrders (MarkDirty r i) = rep_LostOrders r" "LostCancels (MarkDirty r i) = LostCancels r"
  "CancelReplaceLosses (MarkDirty r i) = CancelReplaceLosses r" "PhantomFills (MarkDirty r i) = PhantomFills r"
  "T7ReorderLate (MarkDirty r i) = T7ReorderLate r" "T7Anomalies (MarkDirty r i) = T7Anomalies r"
  by (auto simp: MarkDirty_def)

lemma add_fields [report]:
  "dirtyByOrder (add t i q p d r) = insert i (dirtyByOrder r)"
  "DirtyOrders (add t i q p d r) = (if i \<in> dirtyByOrder r then DirtyOrders r else DirtyOrders r + 1)"
  "ScoredOrders (add t i q p d r) = ScoredOrders r" "TotalFills (add t i q p d r) = TotalFills r"
  "ValidFills (add t i q p d r) = ValidFills r" "Overfills (add t i q p d r) = Overfills r"
  "PriceViolations (add t i q p d r) = PriceViolations r" "TimeViolations (add t i q p d r) = TimeViolations r"
  "SelfTrades (add t i q p d r) = SelfTrades r" "MissedFills (add t i q p d r) = MissedFills r"
  "totalViolations (add t i q p d r) = totalViolations r + 1"
  "rep_LostOrders (add t i q p d r) = rep_LostOrders r" "LostCancels (add t i q p d r) = LostCancels r"
  "CancelReplaceLosses (add t i q p d r) = CancelReplaceLosses r" "PhantomFills (add t i q p d r) = PhantomFills r"
  "T7ReorderLate (add t i q p d r) = T7ReorderLate r" "T7Anomalies (add t i q p d r) = T7Anomalies r"
  by (simp_all add: add_def Let_def report)

lemma flagJump_fields [report]:
  "dirtyByOrder (flagJump e x j q p r) = insert (o_OrderID x) (dirtyByOrder r)"
  "DirtyOrders (flagJump e x j q p r) = (if o_OrderID x \<in> dirtyByOrder r then DirtyOrders r else DirtyOrders r + 1)"
  "ScoredOrders (flagJump e x j q p r) = ScoredOrders r" "TotalFills (flagJump e x j q p r) = TotalFills r"
  "ValidFills (flagJump e x j q p r) = ValidFills r" "Overfills (flagJump e x j q p r) = Overfills r"
  "PriceViolations (flagJump e x j q p r) = PriceViolations r" "TimeViolations (flagJump e x j q p r) = TimeViolations r + 1"
  "SelfTrades (flagJump e x j q p r) = SelfTrades r" "MissedFills (flagJump e x j q p r) = MissedFills r"
  "totalViolations (flagJump e x j q p r) = totalViolations r + 1"
  by (simp_all add: flagJump_def Let_def report)

text \<open>
  The invariant of a report: the number of dirty orders is the number of different ids, and
  the retained examples of a class are counted and at most a hundred.
\<close>

definition report_inv :: "Report \<Rightarrow> bool" where
  "report_inv r \<longleftrightarrow> finite (dirtyByOrder r) \<and> DirtyOrders r = of_nat (card (dirtyByOrder r)) \<and>
     violationExamplesByType r = (\<lambda>t. length (filter (\<lambda>v. vi_Type v = t) (Violations r))) \<and>
     (\<forall>t. length (filter (\<lambda>v. vi_Type v = t) (Violations r)) \<le> maxViolationExamplesPerType)"

lemma report_inv_zero: "report_inv zeroReport"
  by (simp add: report_inv_def zeroReport_def)

lemma report_inv_MarkDirty: "report_inv r \<Longrightarrow> report_inv (MarkDirty r i)"
  by (cases "i \<in> dirtyByOrder r") (simp_all add: report_inv_def report insert_absorb)

lemma report_inv_add: "report_inv r \<Longrightarrow> report_inv (add t i q p d r)"
proof -
  assume r: "report_inv r"
  let ?r = "MarkDirty (r\<lparr>totalViolations := totalViolations r + 1\<rparr>) i"
  have "report_inv (r\<lparr>totalViolations := totalViolations r + 1\<rparr>)" using r by (simp add: report_inv_def)
  then have "report_inv ?r" by (rule report_inv_MarkDirty)
  then have I: "finite (dirtyByOrder ?r)" "DirtyOrders ?r = of_nat (card (dirtyByOrder ?r))"
    "violationExamplesByType ?r = (\<lambda>t. length (filter (\<lambda>v. vi_Type v = t) (Violations ?r)))"
    "\<And>t. length (filter (\<lambda>v. vi_Type v = t) (Violations ?r)) \<le> maxViolationExamplesPerType" unfolding report_inv_def by blast+
  show ?thesis
  proof (cases "violationExamplesByType ?r t \<ge> maxViolationExamplesPerType")
    case True
    then show ?thesis using \<open>report_inv ?r\<close> by (simp add: add_def Let_def)
  next
    case False
    then have "add t i q p d r = ?r\<lparr>violationExamplesByType := (violationExamplesByType ?r)(t := violationExamplesByType ?r t + 1),
      Violations := Violations ?r @ [\<lparr>vi_Type = t, vi_OrderID = i, vi_ReportedQty = q, vi_ReportedPrice = p, vi_Detail = d\<rparr>]\<rparr>"
      by (simp add: add_def Let_def)
    then show ?thesis using I(1,2,4) I(3) [THEN fun_cong] False unfolding report_inv_def
      by (auto simp: fun_eq_iff)
  qed
qed

section \<open>The score\<close>

lemma CorrectnessScore_cases:
  assumes "ScoredOrders r \<noteq> 0"
  shows "DirtyOrders r = 0 \<Longrightarrow> CorrectnessScore r = Fin 1"
    "DirtyOrders r \<ge> ScoredOrders r \<Longrightarrow> CorrectnessScore r = Fin 0"
    "DirtyOrders r < ScoredOrders r \<Longrightarrow> CorrectnessScore r = fdiv (f64_of_u64 (ScoredOrders r - DirtyOrders r)) (f64_of_u64 (ScoredOrders r))"
  using assms by (auto simp: CorrectnessScore_def Let_def f64_ratio_one f64_ratio_zero)

lemma dirty_below_one:
  assumes "DirtyOrders r \<noteq> 0" "DirtyOrders r < ScoredOrders r" "uint (ScoredOrders r) < 2 ^ 53"
  obtains x where "CorrectnessScore r = Fin x" "0 \<le> x" "x < 1"
proof -
  let ?c = "ScoredOrders r - DirtyOrders r"
  have le: "?c \<le> ScoredOrders r" using assms(2) by (simp add: word_sub_le)
  have "?c \<noteq> ScoredOrders r" using assms(1) by (metis add_diff_cancel_left' diff_add_cancel diff_self)
  with le have lt: "?c < ScoredOrders r" by (rule le_neq_trans)
  have ne: "ScoredOrders r \<noteq> 0" using assms(2) by auto
  obtain x where x: "fdiv (f64_of_u64 ?c) (f64_of_u64 (ScoredOrders r)) = Fin x" "0 \<le> x"
    using f64_ratio [OF le ne] by metis
  obtain y where "fdiv (f64_of_u64 ?c) (f64_of_u64 (ScoredOrders r)) = Fin y" "y < 1"
    using f64_ratio_less_one [OF lt assms(3)] by metis
  then show ?thesis using that [of x] x CorrectnessScore_cases(3) [OF ne assms(2)] by simp
qed

text \<open>
  The order-level score. It is a finite number between 0 and 1; it is 1 exactly when no
  order is dirty (or nothing was scored), as long as fewer than 2^53 orders are scored, and
  it is 0 when every scored order is dirty.
\<close>

lemma CorrectnessScore_meaning:
  assumes "uint (ScoredOrders r) < 2 ^ 53"
  shows "\<exists>x. CorrectnessScore r = Fin x \<and> 0 \<le> x \<and> x \<le> 1 \<and>
    (x = 1 \<longleftrightarrow> ScoredOrders r = 0 \<or> DirtyOrders r = 0) \<and>
    (ScoredOrders r \<noteq> 0 \<and> DirtyOrders r \<ge> ScoredOrders r \<longrightarrow> x = 0)"
proof (cases "ScoredOrders r = 0")
  case True
  then show ?thesis by (simp add: CorrectnessScore_def)
next
  case ne: False
  consider "DirtyOrders r = 0" | "DirtyOrders r \<ge> ScoredOrders r" "DirtyOrders r \<noteq> 0" | "DirtyOrders r \<noteq> 0" "DirtyOrders r < ScoredOrders r"
    by fastforce
  then show ?thesis
  proof cases
    case 1
    moreover have "\<not> ScoredOrders r \<le> 0" using ne by simp
    ultimately show ?thesis using CorrectnessScore_cases(1) [OF ne] ne by simp
  next
    case 2
    then show ?thesis using CorrectnessScore_cases(2) [OF ne] ne by simp
  next
    case 3
    obtain x where "CorrectnessScore r = Fin x" "0 \<le> x" "x < 1" by (rule dirty_below_one [OF 3 assms])
    then show ?thesis using 3 by auto
  qed
qed

definition addAll :: "(ViolationType \<times> string) list \<Rightarrow> Report \<Rightarrow> Report" where
  "addAll vs r = foldl (\<lambda>r (t, i). add t i 0 0 (Detail []) r) r vs"

lemma addAll_fields:
  "report_inv r \<Longrightarrow> report_inv (addAll vs r) \<and> totalViolations (addAll vs r) = totalViolations r + of_nat (length vs) \<and>
     dirtyByOrder (addAll vs r) = snd ` set vs \<union> dirtyByOrder r \<and>
     violationExamplesByType (addAll vs r) t = min maxViolationExamplesPerType (violationExamplesByType r t + count_list (map fst vs) t)"
proof (induction vs arbitrary: r)
  case Nil
  moreover from Nil have "violationExamplesByType r t \<le> maxViolationExamplesPerType" by (simp add: report_inv_def)
  ultimately show ?case by (simp add: addAll_def min_absorb2)
next
  case (Cons v vs)
  obtain t' i where v: "v = (t', i)" by fastforce
  have cap: "violationExamplesByType r t \<le> maxViolationExamplesPerType" for t
    using Cons.prems by (simp add: report_inv_def)
  have "violationExamplesByType (add t' i 0 0 (Detail []) r) t =
      (if t = t' then min maxViolationExamplesPerType (violationExamplesByType r t + 1) else violationExamplesByType r t)"
    using cap [of t] by (auto simp: add_def Let_def report min_def)
  then show ?case
    using Cons.IH [OF report_inv_add [OF Cons.prems, of t' i 0 0 "Detail []"]] v
    by (auto simp: addAll_def report)
qed

text \<open>
  Exact counts, bounded examples. After any sequence of violations reported to an empty
  report, the violation count is the length of the sequence, the dirty orders are the
  different ids in it (as machine integers), and of every class the report retains the
  first hundred examples: memory does not grow with the session and no counter is capped.
\<close>

lemma add_counts_exactly:
  "totalViolations (addAll vs zeroReport) = of_nat (length vs) \<and>
   DirtyOrders (addAll vs zeroReport) = of_nat (card (snd ` set vs)) \<and>
   length (filter (\<lambda>v. vi_Type v = t) (Violations (addAll vs zeroReport))) = min 100 (count_list (map fst vs) t)"
proof -
  have "report_inv (addAll vs zeroReport)" "totalViolations (addAll vs zeroReport) = of_nat (length vs)"
    "dirtyByOrder (addAll vs zeroReport) = snd ` set vs"
    "violationExamplesByType (addAll vs zeroReport) t = min 100 (count_list (map fst vs) t)"
    using addAll_fields [OF report_inv_zero, of vs t] by (simp_all add: zeroReport_def maxViolationExamplesPerType_def)
  then show ?thesis unfolding report_inv_def by metis
qed

end
