(* ===== verification/StreamVal.thy ===== *)
theory StreamVal
  imports Report Replay "HOL-Library.AList"
begin

text \<open>
  The full-mode validator (\<open>correctness-validator/internal/validate/stream.go\<close>): the orders of a
  session are fed to the reference engine in replay order; an order is scored against the
  reference fills of its id when it leaves the reference book, or at the end.

  The map \<open>pending\<close>, which the code also iterates over, is an association list with different
  keys; neither of the two iterations depends on its order. The validator holds pointers to
  the orders it was given, and \<open>evict\<close> compares them, so an order is kept with the number of
  the call of \<open>Apply\<close> it came with.
\<close>

section \<open>The evidence of queue jumps\<close>

record orderRef =
  or_qty :: u64
  or_prices :: "i64 set"

type_synonym levelKey = "Side \<times> i64"

definition shortedCapacity :: int where
  "shortedCapacity = 65536"

record shortedOrder =
  so_ptr :: nat
  so_o :: Order
  so_seq :: u64

record shortedIndex =
  si_byLevel :: "levelKey \<rightharpoonup> shortedOrder list"
  si_ring :: "shortedOrder list"
  si_pos :: nat

definition newShortedIndex :: shortedIndex where
  "newShortedIndex = \<lparr>si_byLevel = Map.empty, si_ring = [], si_pos = 0\<rparr>"

definition levelAt :: "shortedIndex \<Rightarrow> Side \<Rightarrow> i64 \<Rightarrow> shortedOrder list" where
  "levelAt s side price = (case si_byLevel s (side, price) of None \<Rightarrow> [] | Some l \<Rightarrow> l)"

fun dropPtr :: "nat \<Rightarrow> shortedOrder list \<Rightarrow> shortedOrder list" where
  "dropPtr p [] = []"
| "dropPtr p (e # es) = (if so_ptr e = p then es else e # dropPtr p es)"

definition evict :: "shortedOrder \<Rightarrow> shortedIndex \<Rightarrow> shortedIndex" where
  "evict e s = (let
       k = (o_Side (so_o e), o_Price (so_o e));
       lvl = dropPtr (so_ptr e) (levelAt s (fst k) (snd k))
     in s\<lparr>si_byLevel := (if lvl = [] then (si_byLevel s)(k := None) else (si_byLevel s)(k \<mapsto> lvl))\<rparr>)"

definition push :: "nat \<Rightarrow> Order \<Rightarrow> u64 \<Rightarrow> shortedIndex \<Rightarrow> shortedIndex" where
  "push ptr o' sq s = (let
       e = \<lparr>so_ptr = ptr, so_o = o', so_seq = sq\<rparr>;
       s1 = (if int (length (si_ring s)) < shortedCapacity then s\<lparr>si_ring := si_ring s @ [e]\<rparr>
         else (evict (si_ring s ! si_pos s) s)\<lparr>si_ring := (si_ring s)[si_pos s := e],
           si_pos := nat ((int (si_pos s) + 1) mod shortedCapacity)\<rparr>);
       k = (o_Side o', o_Price o')
     in s1\<lparr>si_byLevel := (si_byLevel s1)(k \<mapsto> levelAt s1 (fst k) (snd k) @ [e])\<rparr>)"

section \<open>The validator\<close>

record 't StreamValidator =
  sv_engine :: "'t Engine"
  sv_pending :: "(string \<times> nat \<times> Order) list"
  sv_ref :: "string \<rightharpoonup> orderRef"
  sv_shorted :: shortedIndex
  sv_captureGaps :: u64
  sv_rep :: Report
  sv_next :: nat

definition DefaultCaptureGapTaintRate :: float64 where
  "DefaultCaptureGapTaintRate = f64 (1 / 100)"

definition NewStreamValidator :: "'t level_ops \<Rightarrow> 't StreamValidator" where
  "NewStreamValidator B = \<lparr>sv_engine = NewEngine B, sv_pending = [], sv_ref = Map.empty,
     sv_shorted = newShortedIndex, sv_captureGaps = 0, sv_rep = zeroReport, sv_next = 0\<rparr>"

definition oppositeOf :: "Side \<Rightarrow> Side" where
  "oppositeOf s = (if s = Buy then Sell else Buy)"

definition selfMatchedAgainstBook :: "'t level_ops \<Rightarrow> 't StreamValidator \<Rightarrow> Order \<Rightarrow> i64 \<Rightarrow> bool" where
  "selfMatchedAgainstBook B v o' price = (if \<not> o_HasSMPID o' then False
     else RestingSMPMatch B (sv_engine v) (oppositeOf (o_Side o')) price (o_SMPID o'))"

definition considerOther :: "Order \<Rightarrow> i64 \<Rightarrow> u64 \<Rightarrow> (string \<times> u64) option \<Rightarrow> string \<times> Order \<times> u64 \<Rightarrow> (string \<times> u64) option" where
  "considerOther o' price mySeq best c = (case c of (oid, other, otherSeq) \<Rightarrow>
     if oid = o_OrderID o' \<or> o_Side other \<noteq> o_Side o' \<or> o_Price other \<noteq> price then best
     else if otherSeq \<ge> mySeq then best
     else if CrossFlowTie o' other then best
     else (case best of
         None \<Rightarrow> Some (oid, otherSeq)
       | Some (b, bestSeq) \<Rightarrow> if otherSeq < bestSeq \<or> otherSeq = bestSeq \<and> oid < b then Some (oid, otherSeq) else best))"

definition queueJump :: "'t StreamValidator \<Rightarrow> Order \<Rightarrow> i64 \<Rightarrow> string option" where
  "queueJump v o' price = (case SeqOf (sv_engine v) (o_OrderID o') of
     None \<Rightarrow> None
   | Some mySeq \<Rightarrow> let
       live = List.map_filter (\<lambda>(oid, ptr, other). map_option (\<lambda>s. (oid, other, s)) (SeqOf (sv_engine v) oid)) (sv_pending v);
       gone = map (\<lambda>e. (o_OrderID (so_o e), so_o e, so_seq e)) (levelAt (sv_shorted v) (o_Side o') price)
     in map_option fst (foldl (considerOther o' price mySeq) None (live @ gone)))"

definition classifyUnexplained :: "'t level_ops \<Rightarrow> 't StreamValidator \<Rightarrow> Order \<Rightarrow> i64 \<Rightarrow> u64 \<Rightarrow> detail \<Rightarrow> Report \<Rightarrow> Report" where
  "classifyUnexplained B v o' price qty det r =
     (if selfMatchedAgainstBook B v o' price
      then add SelfTrade (o_OrderID o') qty price
        (Detail ''filled against a resting order carrying the same self-match-prevention id'')
        (r\<lparr>SelfTrades := SelfTrades r + 1\<rparr>)
      else case queueJump v o' price of
        Some jumper \<Rightarrow> flagJump (sv_engine v) o' jumper qty price r
      | None \<Rightarrow> add Price (o_OrderID o') qty price det (r\<lparr>PriceViolations := PriceViolations r + 1\<rparr>))"

text \<open>One response of the loop in \<open>scoreOrder\<close>: the running sum and the report.\<close>

definition scoreFill :: "'t level_ops \<Rightarrow> 't StreamValidator \<Rightarrow> Order \<Rightarrow> orderRef option \<Rightarrow> u64 \<times> Report \<Rightarrow> Response \<Rightarrow> u64 \<times> Report" where
  "scoreFill B v o' r st resp = (let (cum, rep) = st in
     if \<not> isFill (ExecType resp) (FillQty resp) then (cum, rep)
     else let
       rep1 = rep\<lparr>TotalFills := TotalFills rep + 1\<rparr>;
       cumReported = cum + FillQty resp;
       price = int64 (FillPrice resp)
     in (cumReported,
       if cumReported > o_Qty o' then add Overfill (o_OrderID o') (FillQty resp) price (DetailOverfill cumReported (o_Qty o'))
         (rep1\<lparr>Overfills := Overfills rep1 + 1\<rparr>)
       else case r of
         None \<Rightarrow> classifyUnexplained B v o' price (FillQty resp) (Detail ''reference engine produced no fill for this order'') rep1
       | Some rf \<Rightarrow>
           if \<not> hasPrice (or_prices rf) price
           then classifyUnexplained B v o' price (FillQty resp)
             (Detail ''reported fill price not produced by the reference engine for this order'') rep1
           else if cumReported > or_qty rf
           then classifyUnexplained B v o' price (FillQty resp) (DetailRefQty cumReported (or_qty rf)) rep1
           else rep1\<lparr>ValidFills := ValidFills rep1 + 1\<rparr>))"

definition scoreOrder :: "'t level_ops \<Rightarrow> 't StreamValidator \<Rightarrow> Order \<Rightarrow> orderRef option \<Rightarrow> bool \<times> Report" where
  "scoreOrder B v o' r = (let
       (cumReported, rep) = foldl (scoreFill B v o' r) (0, sv_rep v) (o_Responses o')
     in case r of
       Some rf \<Rightarrow> if cumReported < or_qty rf
         then (True, add MissedFill (o_OrderID o') cumReported 0 (DetailMissed (or_qty rf) cumReported)
           (rep\<lparr>MissedFills := MissedFills rep + 1\<rparr>))
         else (False, rep)
     | None \<Rightarrow> (False, rep))"

definition finalize :: "'t level_ops \<Rightarrow> string \<Rightarrow> 't StreamValidator \<Rightarrow> 't StreamValidator" where
  "finalize B oid v = (case map_of (sv_pending v) oid of
     None \<Rightarrow> v
   | Some (ptr, o') \<Rightarrow> let
       v1 = v\<lparr>sv_pending := AList.delete oid (sv_pending v), sv_ref := (sv_ref v)(oid := None)\<rparr>;
       (shorted, rep) = scoreOrder B v1 o' (sv_ref v oid);
       v2 = v1\<lparr>sv_rep := rep\<rparr>;
       v3 = (if shorted then (case SeqOf (sv_engine v2) oid of
                Some sq \<Rightarrow> v2\<lparr>sv_shorted := push ptr o' sq (sv_shorted v2)\<rparr>
              | None \<Rightarrow> v2) else v2)
     in v3\<lparr>sv_engine := Forget (sv_engine v3) oid\<rparr>)"

definition addFill :: "(string \<rightharpoonup> orderRef) \<Rightarrow> Fill \<Rightarrow> (string \<rightharpoonup> orderRef)" where
  "addFill ref f = (let r = (case ref (f_OrderID f) of None \<Rightarrow> \<lparr>or_qty = 0, or_prices = {}\<rparr> | Some r \<Rightarrow> r) in
     ref(f_OrderID f \<mapsto> \<lparr>or_qty = or_qty r + f_Qty f, or_prices = insert (f_Price f) (or_prices r)\<rparr>))"

definition Apply_full :: "'t level_ops \<Rightarrow> 't StreamValidator \<Rightarrow> Order \<Rightarrow> 't StreamValidator option" where
  "Apply_full B v o' = (let
       v1 = v\<lparr>sv_rep := (sv_rep v)\<lparr>ScoredOrders := ScoredOrders (sv_rep v) + 1\<rparr>,
          sv_pending := AList.update (o_OrderID o') (sv_next v, o') (sv_pending v), sv_next := sv_next v + 1\<rparr>
     in do {
       e1 \<leftarrow> Process B (sv_engine v1) o';
       let (fs, e2) = DrainFills e1;
       let v2 = v1\<lparr>sv_ref := foldl addFill (sv_ref v1) fs\<rparr>;
       let (ts, e3) = DrainTrades e2;
       let (ids, e4) = DrainEvicted e3;
       let v3 = fold (finalize B) ids (v2\<lparr>sv_engine := e4\<rparr>);
       Some (if map_of (sv_pending v3) (o_OrderID o') \<noteq> None \<and> \<not> IsResting (sv_engine v3) (o_OrderID o')
             then finalize B (o_OrderID o') v3 else v3)})"

definition AddPhantom_full :: "'t StreamValidator \<Rightarrow> ReportedFill \<Rightarrow> 't StreamValidator" where
  "AddPhantom_full v f = v\<lparr>sv_rep := (sv_rep v)\<lparr>PhantomFills := PhantomFills (sv_rep v) + 1\<rparr>\<rparr>"

definition AddCaptureGap_full :: "'t StreamValidator \<Rightarrow> 't StreamValidator" where
  "AddCaptureGap_full v = v\<lparr>sv_captureGaps := sv_captureGaps v + 1\<rparr>"

definition AddLost_full :: "'t StreamValidator \<Rightarrow> string \<Rightarrow> Kind \<Rightarrow> 't StreamValidator" where
  "AddLost_full v oid kind = (let
       r = (sv_rep v)\<lparr>ScoredOrders := ScoredOrders (sv_rep v) + 1\<rparr>;
       r1 = (if kind = Cancel then r\<lparr>LostCancels := LostCancels r + 1\<rparr> else r\<lparr>rep_LostOrders := rep_LostOrders r + 1\<rparr>)
     in v\<lparr>sv_rep := add (lostViolationType kind) oid 0 0
       (Detail ''order/cancel sent but never received any response'') r1\<rparr>)"

text \<open>The taint of a session whose capture lost too large a share of the responses.\<close>

definition gapTaint :: "(u64 \<Rightarrow> u64 \<Rightarrow> float64 \<Rightarrow> taintReason) \<Rightarrow> u64 \<Rightarrow> Report \<Rightarrow> Report" where
  "gapTaint reason gaps r = (let total = ScoredOrders r + gaps in
     if total > 0 \<and> flt DefaultCaptureGapTaintRate (fdiv (f64_of_u64 gaps) (f64_of_u64 total))
     then r\<lparr>Tainted := True, TaintReason := reason gaps total (fdiv (fmul (f64 100) (f64_of_u64 gaps)) (f64_of_u64 total))\<rparr>
     else r)"

definition Finish_full :: "'t level_ops \<Rightarrow> 't StreamValidator \<Rightarrow> Report" where
  "Finish_full B v = (let
       rest = sort_stable Less (map (\<lambda>(_, _, o'). o') (sv_pending v));
       v1 = fold (\<lambda>o'. finalize B (o_OrderID o')) rest v;
       r = (sv_rep v1)\<lparr>ScoredFills := TotalFills (sv_rep v1), rep_CaptureGaps := sv_captureGaps v1\<rparr>
     in gapTaint CaptureLostScore (sv_captureGaps v1) r)"

end
