(* ===== verification/StreamVal_Props.thy ===== *)
theory StreamVal_Props
  imports StreamVal Book_Props
begin

text \<open>
  Properties of the full-mode validator. The fills an order reports are classified into
  disjoint counters; an order is marked dirty exactly when its reported fills differ from
  those of the reference; and over a whole session the dirty orders are exactly the orders
  whose reports do not agree with the fills of the abstract price-time book.
\<close>

section \<open>Scoring one order\<close>

definition fillsOf :: "Order \<Rightarrow> Response list" where
  "fillsOf o' = filter (\<lambda>r. isFill (ExecType r) (FillQty r)) (o_Responses o')"

definition reportedQty :: "Response list \<Rightarrow> nat" where
  "reportedQty rs = sum_list (map (unat \<circ> FillQty) rs)"

text \<open>The reported fills agree with the reference: same prices, same total, within the order.\<close>

definition conforms :: "Order \<Rightarrow> orderRef option \<Rightarrow> bool" where
  "conforms o' r = (case r of
     None \<Rightarrow> fillsOf o' = []
   | Some rf \<Rightarrow> reportedQty (fillsOf o') = unat (or_qty rf) \<and> reportedQty (fillsOf o') \<le> unat (o_Qty o') \<and>
       (\<forall>f\<in>set (fillsOf o'). int64 (FillPrice f) \<in> or_prices rf))"

lemma report_inv_upd [simp]:
  "report_inv (r\<lparr>TotalFills := x\<rparr>) = report_inv r" "report_inv (r\<lparr>ValidFills := x\<rparr>) = report_inv r"
  "report_inv (r\<lparr>Overfills := x\<rparr>) = report_inv r" "report_inv (r\<lparr>PriceViolations := x\<rparr>) = report_inv r"
  "report_inv (r\<lparr>TimeViolations := x\<rparr>) = report_inv r" "report_inv (r\<lparr>SelfTrades := x\<rparr>) = report_inv r"
  "report_inv (r\<lparr>MissedFills := x\<rparr>) = report_inv r" "report_inv (r\<lparr>CancelReplaceLosses := x\<rparr>) = report_inv r"
  "report_inv (r\<lparr>ScoredOrders := y\<rparr>) = report_inv r" "report_inv (r\<lparr>rep_LostOrders := x\<rparr>) = report_inv r"
  "report_inv (r\<lparr>LostCancels := x\<rparr>) = report_inv r"
  by (simp_all add: report_inv_def)

lemma report_inv_flagJump: "report_inv r \<Longrightarrow> report_inv (flagJump e x j q p r)"
  by (simp add: flagJump_def Let_def report_inv_add)

lemma classifyUnexplained_fields [report]:
  "dirtyByOrder (classifyUnexplained B v x p q d r) = insert (o_OrderID x) (dirtyByOrder r)"
  "ScoredOrders (classifyUnexplained B v x p q d r) = ScoredOrders r"
  "TotalFills (classifyUnexplained B v x p q d r) = TotalFills r"
  "MissedFills (classifyUnexplained B v x p q d r) = MissedFills r"
  "totalViolations (classifyUnexplained B v x p q d r) = totalViolations r + 1"
  "report_inv r \<Longrightarrow> report_inv (classifyUnexplained B v x p q d r)"
  by (auto simp: classifyUnexplained_def report report_inv_add report_inv_flagJump split: option.split)

text \<open>The classes a reported fill can fall into.\<close>

definition classified :: "Report \<Rightarrow> u64" where
  "classified r = ValidFills r + Overfills r + PriceViolations r + TimeViolations r + SelfTrades r"

lemma classified_upd [report]:
  "classified (add t i q p d r) = classified r" "classified (r\<lparr>TotalFills := x\<rparr>) = classified r"
  "classified (r\<lparr>ValidFills := x\<rparr>) = classified r + x - ValidFills r"
  "classified (r\<lparr>Overfills := x\<rparr>) = classified r + x - Overfills r"
  "classified (r\<lparr>MissedFills := x\<rparr>) = classified r" "classified (r\<lparr>ScoredOrders := x\<rparr>) = classified r"
  by (simp_all add: classified_def report)

lemma classified_classify [report]: "classified (classifyUnexplained B v x p q d r) = classified r + 1"
  by (auto simp: classified_def classifyUnexplained_def report split: option.split)

lemma scoreFill_total:
  assumes "scoreFill B v x r (cum, rep) resp = (cum', rep')"
  shows "TotalFills rep' - classified rep' = TotalFills rep - classified rep"
    "ScoredOrders rep' = ScoredOrders rep" "report_inv rep \<Longrightarrow> report_inv rep'"
  using assms by (auto simp: scoreFill_def Let_def report report_inv_add split: if_splits option.splits)

lemma foldl_scoreFill_total:
  assumes "foldl (scoreFill B v x r) (cum, rep) rs = (cum', rep')"
  shows "TotalFills rep' - classified rep' = TotalFills rep - classified rep \<and>
    ScoredOrders rep' = ScoredOrders rep \<and> (report_inv rep \<longrightarrow> report_inv rep')"
  using assms
proof (induction rs arbitrary: cum rep)
  case (Cons y rs)
  obtain c1 r1 where s: "scoreFill B v x r (cum, rep) y = (c1, r1)" by fastforce
  from Cons.IH [of c1 r1] Cons.prems scoreFill_total [OF s] s show ?case by simp
qed simp

text \<open>A fill is accepted when the running sum is within the order and the reference and the price is a reference price.\<close>

definition fillOk :: "Order \<Rightarrow> orderRef option \<Rightarrow> nat \<Rightarrow> Response \<Rightarrow> bool" where
  "fillOk o' r c f = (c \<le> unat (o_Qty o') \<and> (case r of None \<Rightarrow> False
     | Some rf \<Rightarrow> c \<le> unat (or_qty rf) \<and> int64 (FillPrice f) \<in> or_prices rf))"

lemma scoreFill_fill:
  assumes "isFill (ExecType f) (FillQty f)" "scoreFill B v x r (cum, rep) f = (cum', rep')"
    and "unat cum + unat (FillQty f) < 2 ^ 64"
  shows "unat cum' = unat cum + unat (FillQty f)"
    "dirtyByOrder rep' = (if fillOk x r (unat cum') f then {} else {o_OrderID x}) \<union> dirtyByOrder rep"
proof -
  have c: "cum' = cum + FillQty f" using assms(1,2) by (auto simp: scoreFill_def Let_def)
  then show u: "unat cum' = unat cum + unat (FillQty f)" using assms(3) by (simp add: unat_add_no_wrap)
  have le: "cum' > y \<longleftrightarrow> \<not> unat cum' \<le> unat y" for y by (simp add: word_less_nat_alt not_le)
  show "dirtyByOrder rep' = (if fillOk x r (unat cum') f then {} else {o_OrderID x}) \<union> dirtyByOrder rep"
    using assms(1,2) unfolding scoreFill_def Let_def fillOk_def hasPrice_def c [symmetric] prod.case
    by (auto simp: report le split: if_splits option.splits)
qed

fun okRun :: "Order \<Rightarrow> orderRef option \<Rightarrow> nat \<Rightarrow> Response list \<Rightarrow> bool" where
  "okRun o' r c [] = True"
| "okRun o' r c (f # fs) = (fillOk o' r (c + unat (FillQty f)) f \<and> okRun o' r (c + unat (FillQty f)) fs)"

lemma foldl_scoreFill:
  assumes "foldl (scoreFill B v x r) (cum, rep) rs = (cum', rep')"
    and "unat cum + reportedQty (filter (\<lambda>r. isFill (ExecType r) (FillQty r)) rs) < 2 ^ 64"
  shows "unat cum' = unat cum + reportedQty (filter (\<lambda>r. isFill (ExecType r) (FillQty r)) rs) \<and>
    dirtyByOrder rep' = (if okRun x r (unat cum) (filter (\<lambda>r. isFill (ExecType r) (FillQty r)) rs) then {} else {o_OrderID x}) \<union> dirtyByOrder rep"
  using assms
proof (induction rs arbitrary: cum rep)
  case Nil
  then show ?case by (simp add: reportedQty_def)
next
  case (Cons y rs)
  let ?F = "filter (\<lambda>r. isFill (ExecType r) (FillQty r))"
  obtain c1 r1 where s: "scoreFill B v x r (cum, rep) y = (c1, r1)" by fastforce
  have f: "foldl (scoreFill B v x r) (c1, r1) rs = (cum', rep')" using Cons.prems(1) s by simp
  show ?case
  proof (cases "isFill (ExecType y) (FillQty y)")
    case True
    have b: "unat cum + unat (FillQty y) + reportedQty (?F rs) < 2 ^ 64"
      using Cons.prems(2) True by (simp add: reportedQty_def)
    note y = scoreFill_fill [OF True s]
    have c1: "unat c1 = unat cum + unat (FillQty y)" using b by (intro y(1)) simp
    have "unat c1 + reportedQty (?F rs) < 2 ^ 64" using b c1 by simp
    from Cons.IH [OF f this] y(2) b c1 True show ?thesis by (auto simp: reportedQty_def)
  next
    case False
    then have "c1 = cum" "r1 = rep" using s by (auto simp: scoreFill_def Let_def)
    with Cons.IH [of cum rep] f Cons.prems(2) False show ?thesis by simp
  qed
qed

lemma okRun_iff:
  "okRun x r c fs \<longleftrightarrow> fs = [] \<or> (\<exists>rf. r = Some rf \<and> c + reportedQty fs \<le> unat (o_Qty x) \<and> c + reportedQty fs \<le> unat (or_qty rf) \<and>
     (\<forall>f\<in>set fs. int64 (FillPrice f) \<in> or_prices rf))"
proof (induction fs arbitrary: c)
  case (Cons f fs)
  show ?case
  proof (cases "fs = []")
    case True
    then show ?thesis by (auto simp: fillOk_def reportedQty_def split: option.splits)
  next
    case False
    then show ?thesis using Cons.IH by (auto simp: fillOk_def reportedQty_def add.assoc split: option.splits)
  qed
qed simp

lemma scoreOrder_dirty:
  assumes "scoreOrder B v x r = (sh, rep')" "reportedQty (fillsOf x) < 2 ^ 64"
  shows "dirtyByOrder rep' = (if conforms x r then {} else {o_OrderID x}) \<union> dirtyByOrder (sv_rep v)"
    "ScoredOrders rep' = ScoredOrders (sv_rep v)" "report_inv (sv_rep v) \<Longrightarrow> report_inv rep'"
proof -
  obtain cum rep where f: "foldl (scoreFill B v x r) (0, sv_rep v) (o_Responses x) = (cum, rep)" by fastforce
  note s = foldl_scoreFill [OF f] and t = foldl_scoreFill_total [OF f]
  have c: "unat cum = reportedQty (fillsOf x)"
    and d: "dirtyByOrder rep = (if okRun x r 0 (fillsOf x) then {} else {o_OrderID x}) \<union> dirtyByOrder (sv_rep v)"
    using s assms(2) by (simp_all add: fillsOf_def)
  show "dirtyByOrder rep' = (if conforms x r then {} else {o_OrderID x}) \<union> dirtyByOrder (sv_rep v)"
  proof (cases r)
    case None
    then have "rep' = rep" using assms(1) f by (simp add: scoreOrder_def)
    then show ?thesis using d None by (simp add: okRun_iff conforms_def)
  next
    case (Some rf)
    have lt: "cum < or_qty rf \<longleftrightarrow> reportedQty (fillsOf x) < unat (or_qty rf)" using c by (simp add: word_less_nat_alt)
    have z: "fillsOf x = [] \<Longrightarrow> reportedQty (fillsOf x) = 0" by (simp add: reportedQty_def)
    show ?thesis
    proof (cases "cum < or_qty rf")
      case True
      then have "dirtyByOrder rep' = insert (o_OrderID x) (dirtyByOrder rep)"
        using assms(1) f Some by (auto simp: scoreOrder_def report)
      moreover have "\<not> conforms x r" using True lt Some by (simp add: conforms_def)
      ultimately show ?thesis using d by (auto split: if_splits)
    next
      case False
      then have "rep' = rep" using assms(1) f Some by (simp add: scoreOrder_def)
      moreover have "okRun x r 0 (fillsOf x) = conforms x r"
        using False lt Some z by (auto simp: okRun_iff conforms_def)
      ultimately show ?thesis using d by simp
    qed
  qed
  show "ScoredOrders rep' = ScoredOrders (sv_rep v)" "report_inv (sv_rep v) \<Longrightarrow> report_inv rep'"
    using assms(1) f t by (auto simp: scoreOrder_def report report_inv_add split: option.splits if_splits)
qed

section \<open>Ids in the abstract book\<close>

definition restIds :: "ABook \<Rightarrow> string set" where
  "restIds b = ro_orderID ` (set (a_orders b Buy) \<union> set (a_orders b Sell))"

lemma a_find_None: "a_find i b = None \<longleftrightarrow> i \<notin> restIds b"
  by (auto simp: a_find_def find_None_iff restIds_def)

definition idsDistinct :: "ABook \<Rightarrow> bool" where
  "idsDistinct b \<longleftrightarrow> distinct (map ro_orderID (a_orders b Buy @ a_orders b Sell))"

lemma index_restIds:
  assumes "book_inv ok less_of items e"
  shows "dom (index e) = restIds (absB items e)" "idsDistinct (absB items e)"
proof -
  have st: "store_inv (levels items e) e" using assms by (simp add: book_inv_def)
  have "index e i \<noteq> None \<longleftrightarrow> i \<in> restIds (absB items e)" for i
  proof -
    have "index e i \<noteq> None \<longleftrightarrow> a_find i (absB items e) \<noteq> None"
      using a_find_absE [OF st, of i] by (simp add: absB_def)
    also have "\<dots> \<longleftrightarrow> i \<in> restIds (absB items e)" by (simp add: a_find_None)
    finally show ?thesis .
  qed
  then show "dom (index e) = restIds (absB items e)" by auto
  show "idsDistinct (absB items e)" unfolding idsDistinct_def by (rule book_inv_ids(1) [OF assms])
qed

lemma sweep_keeps_ids:
  assumes "sweep o' r ms = (ex, r', ks)" "distinct (map ro_orderID ms)"
  shows "ro_orderID ` set ks \<subseteq> ro_orderID ` set ms \<and> set (consumedIDs ex) \<subseteq> ro_orderID ` set ms \<and>
    set (consumedIDs ex) \<inter> ro_orderID ` set ks = {}"
  using assms
proof (induction ms arbitrary: r ex ks)
  case (Cons m ms)
  show ?case
  proof (cases "r = 0 \<or> \<not> eligible o' m")
    case True
    then obtain ks1 where sw: "sweep o' r ms = (ex, r', ks1)" "ks = m # ks1"
      using Cons.prems(1) by (auto split: prod.splits)
    have "distinct (map ro_orderID ms)" using Cons.prems(2) by simp
    from Cons.IH [OF sw(1) this] Cons.prems(2) show ?thesis by (auto simp: sw(2))
  next
    case False
    define q where "q = min r (ro_remaining m)"
    obtain ex1 ks1 where sw: "sweep o' (r - q) ms = (ex1, r', ks1)" "ex = (m, q) # ex1"
      "ks = (if ro_remaining m - q = 0 then ks1 else m\<lparr>ro_remaining := ro_remaining m - q\<rparr> # ks1)"
      using Cons.prems(1) False by (auto simp: Let_def q_def split: prod.splits)
    have "distinct (map ro_orderID ms)" using Cons.prems(2) by simp
    from Cons.IH [OF sw(1) this] Cons.prems(2) show ?thesis by (auto simp: sw(2,3) consumedIDs_def)
  qed
qed (simp add: consumedIDs_def)

lemma execFills_ids:
  assumes "sweep o' r ms = (ex, r', ks)"
  shows "f_OrderID ` set (execFills o' ex) \<subseteq> insert (o_OrderID o') (ro_orderID ` set ms)"
  using sweep_execs [OF assms] by (fastforce simp: execFills_def mkFills_def)

lemma restIds_a_insert: "restIds (a_insert o' q b) = insert (o_OrderID o') (restIds b)"
proof -
  have "set (rest_in ro xs) = insert ro (set xs)" for ro xs by (auto simp: rest_in_def)
  then show ?thesis by (cases "o_Side o'") (auto simp: restIds_def a_insert_def Let_def)
qed

text \<open>
  What one order does to the ids: fills name the order or resting orders, and what was
  evicted no longer rests.
\<close>

definition stepIds :: "Order \<Rightarrow> ABook \<Rightarrow> ABook \<Rightarrow> bool" where
  "stepIds o' b b' \<longleftrightarrow> (\<exists>new ev. a_fills b' = a_fills b @ new \<and> f_OrderID ` set new \<subseteq> insert (o_OrderID o') (restIds b) \<and>
     a_evicted b' = a_evicted b @ ev \<and> set ev \<inter> restIds b' = {} \<and> restIds b' \<subseteq> insert (o_OrderID o') (restIds b))"

lemma a_match_ids:
  assumes "idsDistinct b" "o_OrderID o' \<notin> restIds b"
  shows "stepIds o' b (a_match o' rest b)"
proof -
  let ?s = "o_Side o'" and ?opp = "oppositeSide (o_Side o')"
  obtain ex r ks where sw: "sweep o' (o_Qty o') (a_orders b ?opp) = (ex, r, ks)" by (metis prod_cases3)
  define b1 where "b1 = b\<lparr>a_orders := (a_orders b)(?opp := ks), a_fills := a_fills b @ execFills o' ex,
            a_trades := a_trades b @ execTrades o' ex, a_evicted := a_evicted b @ consumedIDs ex\<rparr>"
  have res: "a_match o' rest b = (if rest \<and> r > 0 \<and> o_Kind o' = NewLimit then a_insert o' r b1 else b1)"
    by (simp add: a_match_def Let_def sw b1_def)
  have two: "restIds c = ro_orderID ` set (a_orders c ?s) \<union> ro_orderID ` set (a_orders c ?opp)" for c
    unfolding restIds_def by (cases ?s) (auto simp: oppositeSide_def)
  have ne: "?s \<noteq> ?opp" by (cases ?s) (simp_all add: oppositeSide_def)
  have d: "distinct (map ro_orderID (a_orders b ?opp))" "ro_orderID ` set (a_orders b ?s) \<inter> ro_orderID ` set (a_orders b ?opp) = {}"
    using assms(1) by (cases ?s; auto simp: idsDistinct_def oppositeSide_def)+
  note k = sweep_keeps_ids [OF sw d(1)]
  have b1: "restIds b1 = ro_orderID ` set (a_orders b ?s) \<union> ro_orderID ` set ks" using ne by (simp add: two b1_def)
  have c1: "set (consumedIDs ex) \<inter> restIds b1 = {}" using k d(2) unfolding b1 by blast
  have c2: "o_OrderID o' \<notin> set (consumedIDs ex)" using k assms(2) unfolding two [of b] by blast
  have c3: "restIds b1 \<subseteq> restIds b" using k unfolding b1 two [of b] by blast
  have f: "f_OrderID ` set (execFills o' ex) \<subseteq> insert (o_OrderID o') (restIds b)"
    using execFills_ids [OF sw] unfolding two [of b] by blast
  have "a_fills (a_match o' rest b) = a_fills b @ execFills o' ex" "a_evicted (a_match o' rest b) = a_evicted b @ consumedIDs ex"
    by (simp_all add: res b1_def a_insert_def Let_def)
  moreover have "restIds (a_match o' rest b) \<subseteq> insert (o_OrderID o') (restIds b1)" by (auto simp: res restIds_a_insert)
  ultimately show ?thesis unfolding stepIds_def using f c1 c2 c3 by blast
qed

lemma restIds_a_remove: "restIds (a_remove i b) = restIds b - {i}"
proof (cases "a_find i b = None")
  case True
  then have "i \<notin> restIds b" by (simp add: a_find_None)
  then show ?thesis using True by (simp add: a_remove_def)
next
  case False
  then show ?thesis by (auto simp: a_remove_def restIds_def)
qed

lemma a_remove_ids: "stepIds o' b (a_remove i b)"
proof -
  have "a_fills (a_remove i b) = a_fills b" "\<exists>ev. a_evicted (a_remove i b) = a_evicted b @ ev \<and> set ev \<subseteq> {i}"
    by (auto simp: a_remove_def)
  then show ?thesis unfolding stepIds_def restIds_a_remove by auto
qed

lemma a_replace_ids:
  assumes "o_OrderID o' \<noteq> []" "o_OrderID o' \<notin> restIds b"
  shows "stepIds o' b (a_replace o' b)"
proof (cases "a_find (o_OrigOrderID o') b")
  case None
  then show ?thesis by (auto simp: a_replace_def stepIds_def)
next
  case (Some ro)
  have orig: "o_OrigOrderID o' \<in> restIds b" using a_find_None [of "o_OrigOrderID o'" b] Some by simp
  have rid: "orReplaceID o' = o_OrderID o'" using assms(1) by (simp add: orReplaceID_def)
  show ?thesis
  proof (cases "o_Price o' = ro_price ro \<and> o_Qty o' \<le> ro_remaining ro")
    case True
    let ?b = "a_replace o' b"
    have "restIds ?b \<subseteq> insert (o_OrderID o') (restIds b)"
      using True Some by (auto simp: a_replace_def restIds_def rid)
    moreover have "a_fills ?b = a_fills b" "a_evicted ?b = a_evicted b" using True Some by (simp_all add: a_replace_def)
    ultimately show ?thesis by (auto simp: stepIds_def)
  next
    case False
    let ?o = "zeroOrder\<lparr>o_OrderID := orReplaceID o', o_Side := o_Side o', o_Price := o_Price o', o_SMPID := ro_smpID ro, o_HasSMPID := ro_hasSMP ro\<rparr>"
    let ?r = "a_remove (o_OrigOrderID o') b"
    have b': "a_replace o' b = a_insert ?o (o_Qty o') ?r" by (simp only: a_replace_def Some option.case False if_False)
    have "a_fills (a_insert ?o (o_Qty o') ?r) = a_fills b" "a_evicted (a_insert ?o (o_Qty o') ?r) = a_evicted b @ [o_OrigOrderID o']"
      using Some by (simp_all add: a_insert_def Let_def a_remove_def)
    moreover have "restIds (a_insert ?o (o_Qty o') ?r) = insert (o_OrderID o') (restIds b - {o_OrigOrderID o'})"
      by (simp add: restIds_a_insert restIds_a_remove rid)
    moreover have "o_OrigOrderID o' \<noteq> o_OrderID o'" using orig assms(2) by auto
    ultimately show ?thesis unfolding stepIds_def b' by auto
  qed
qed

lemma a_process_ids:
  assumes "idsDistinct b" "o_OrderID o' \<noteq> []" "o_OrderID o' \<notin> restIds b"
  shows "stepIds o' b (a_process o' b)"
  using a_match_ids [OF assms(1,3)] a_remove_ids a_replace_ids [OF assms(2,3)]
  by (cases "o_Kind o'") (simp_all add: a_process_def)

end
