(* ===== verification/StreamVal_Session.thy ===== *)
theory StreamVal_Session
  imports StreamVal_Props
begin

text \<open>
  The full-mode validator over a whole session: a simulation between the validator's state
  and the abstract price-time book that saw the same orders. The reference fills collected
  for an order until it is scored are all the fills the abstract book ever gives it, so the
  orders marked dirty are exactly those whose reports disagree with that book.
\<close>

section \<open>Reference fills by id\<close>

definition refOf :: "Fill list \<Rightarrow> string \<Rightarrow> orderRef option" where
  "refOf fs i = (let gs = filter (\<lambda>f. f_OrderID f = i) fs in
     if gs = [] then None else Some \<lparr>or_qty = sum_list (map f_Qty gs), or_prices = f_Price ` set gs\<rparr>)"

lemma addFill_refOf: "ref i = refOf g i \<Longrightarrow> addFill ref f i = refOf (g @ [f]) i"
  by (cases "f_OrderID f = i"; cases "filter (\<lambda>f. f_OrderID f = i) g = []")
    (auto simp: addFill_def refOf_def Let_def simp del: set_filter)

lemma foldl_addFill: "ref i = refOf g i \<Longrightarrow> foldl addFill ref fs i = refOf (g @ fs) i"
proof (induction fs arbitrary: ref g)
  case (Cons f fs)
  have "addFill ref f i = refOf (g @ [f]) i" using Cons.prems by (rule addFill_refOf)
  from Cons.IH [of "addFill ref f" "g @ [f]", OF this] show ?case by simp
qed simp

lemma foldl_addFill_other: "i \<notin> f_OrderID ` set fs \<Longrightarrow> foldl addFill ref fs i = ref i"
  by (induction fs arbitrary: ref) (auto simp: addFill_def Let_def)

lemma refOf_append_other: "i \<notin> f_OrderID ` set fs \<Longrightarrow> refOf (g @ fs) i = refOf g i"
proof -
  assume "i \<notin> f_OrderID ` set fs"
  then have "filter (\<lambda>f. f_OrderID f = i) fs = []" by (auto simp: filter_empty_conv)
  then show ?thesis by (simp add: refOf_def)
qed

section \<open>The abstract book without its logs\<close>

definition strip :: "ABook \<Rightarrow> ABook" where
  "strip b = b\<lparr>a_fills := [], a_trades := [], a_evicted := []\<rparr>"

lemma strip_simps [simp]:
  "a_orders (strip b) = a_orders b" "a_seq (strip b) = a_seq b" "a_fills (strip b) = []" "a_trades (strip b) = []"
  "a_evicted (strip b) = []" "strip (strip b) = strip b" "restIds (strip b) = restIds b" "a_find i (strip b) = a_find i b"
  "idsDistinct (strip b) = idsDistinct b"
  by (simp_all add: strip_def restIds_def a_find_def idsDistinct_def)

text \<open>\<open>logs c b b'\<close>: the step from \<open>b\<close> to \<open>b'\<close> appends to the logs what the step \<open>c\<close> without logs has.\<close>

definition logs :: "ABook \<Rightarrow> ABook \<Rightarrow> ABook \<Rightarrow> bool" where
  "logs c b b' \<longleftrightarrow> strip c = strip b' \<and> a_fills b' = a_fills b @ a_fills c \<and> a_evicted b' = a_evicted b @ a_evicted c"

lemma logs_insert: "logs c b b' \<Longrightarrow> logs (a_insert o' q c) b (a_insert o' q b')"
proof -
  assume l: "logs c b b'"
  then have "a_orders c = a_orders b'" "a_seq c = a_seq b'"
    unfolding logs_def by (metis strip_simps(1), metis strip_simps(2))
  then show ?thesis using l by (simp add: logs_def a_insert_def Let_def strip_def)
qed

lemma logs_match: "logs (a_match o' rest (strip b)) b (a_match o' rest b)"
proof -
  obtain ex r ks where sw: "sweep o' (o_Qty o') (a_orders b (oppositeSide (o_Side o'))) = (ex, r, ks)" by (metis prod_cases3)
  have "logs ((strip b)\<lparr>a_orders := (a_orders b)(oppositeSide (o_Side o') := ks), a_fills := a_fills (strip b) @ execFills o' ex,
            a_trades := a_trades (strip b) @ execTrades o' ex, a_evicted := a_evicted (strip b) @ consumedIDs ex\<rparr>)
     b (b\<lparr>a_orders := (a_orders b)(oppositeSide (o_Side o') := ks), a_fills := a_fills b @ execFills o' ex,
            a_trades := a_trades b @ execTrades o' ex, a_evicted := a_evicted b @ consumedIDs ex\<rparr>)"
    by (simp add: logs_def strip_def)
  then show ?thesis using logs_insert by (simp add: a_match_def sw Let_def)
qed

lemma logs_remove: "logs (a_remove i (strip b)) b (a_remove i b)"
  by (auto simp: a_remove_def logs_def)

lemma logs_process: "logs (a_process o' (strip b)) b (a_process o' b)"
proof (cases "o_Kind o'")
  case Replace
  have "logs (a_replace o' (strip b)) b (a_replace o' b)"
  proof (cases "a_find (o_OrigOrderID o') b")
    case None
    then show ?thesis by (simp add: a_replace_def logs_def)
  next
    case (Some ro)
    then show ?thesis
      using logs_insert [OF logs_remove [of "o_OrigOrderID o'" b]]
      by (auto simp: a_replace_def) (simp_all add: logs_def strip_def)
  qed
  then show ?thesis using Replace by (simp add: a_process_def)
qed (simp_all add: a_process_def logs_match logs_remove)

lemma restIds_process: "restIds (a_process o' (strip b)) = restIds (a_process o' b)"
  using logs_process [of o' b] unfolding logs_def by (metis strip_simps(7))

section \<open>The simulation\<close>

definition keys :: "'t StreamValidator \<Rightarrow> string set" where
  "keys v = fst ` set (sv_pending v)"

text \<open>
  \<open>L\<close> are the orders reported lost and \<open>D\<close> the orders applied so far, \<open>b\<close> the abstract book that processed them, and \<open>bad i\<close>
  says whether the order \<open>i\<close> has to be marked dirty when it is scored.
\<close>

definition svInv :: "('t \<Rightarrow> bool) \<Rightarrow> ('t \<Rightarrow> priceLevel \<Rightarrow> priceLevel \<Rightarrow> bool) \<Rightarrow> ('t \<Rightarrow> priceLevel list) \<Rightarrow>
    (string \<Rightarrow> bool) \<Rightarrow> string list \<Rightarrow> Order list \<Rightarrow> ABook \<Rightarrow> 't StreamValidator \<Rightarrow> bool" where
  "svInv ok less_of items bad L D b v \<longleftrightarrow>
     book_inv ok less_of items (sv_engine v) \<and> absB items (sv_engine v) = strip b \<and>
     distinct (map fst (sv_pending v)) \<and>
     (\<forall>i p x. (i, p, x) \<in> set (sv_pending v) \<longrightarrow> x \<in> set D \<and> o_OrderID x = i) \<and>
     (\<forall>i. sv_ref v i = (if i \<in> o_OrderID ` set D \<and> i \<notin> keys v then None else refOf (a_fills b) i)) \<and>
     restIds b \<subseteq> o_OrderID ` set D \<and> f_OrderID ` set (a_fills b) \<subseteq> o_OrderID ` set D \<and>
     report_inv (sv_rep v) \<and> ScoredOrders (sv_rep v) = of_nat (length D + length L) \<and>
     dirtyByOrder (sv_rep v) = {i \<in> o_OrderID ` set D - keys v. bad i} \<union> set L"

lemma absB_Forget [simp]: "absB items (Forget e i) = absB items e" "book_inv ok less_of items (Forget e i) = book_inv ok less_of items e"
  "index (Forget e i) = index e"
proof -
  have "tree (Forget e i) = tree e" by (simp add: tree_def Forget_def fun_eq_iff)
  moreover have "orders (Forget e i) = orders e" by (simp add: orders_def Forget_def fun_eq_iff)
  moreover have "orderHeap (Forget e i) = orderHeap e" "index (Forget e i) = index e" "seq (Forget e i) = seq e"
    "orderNext (Forget e i) = orderNext e" "levelNext (Forget e i) = levelNext e" "fills (Forget e i) = fills e"
    "trades (Forget e i) = trades e" "evicted (Forget e i) = evicted e"
    by (simp_all add: Forget_def)
  ultimately show "absB items (Forget e i) = absB items e" "book_inv ok less_of items (Forget e i) = book_inv ok less_of items e"
    "index (Forget e i) = index e"
    by (simp_all add: absB_def absE_def levels_def addrs_def book_inv_def trees_ok_def store_inv_def level_ok_def index_ok_def)
qed

lemma finalize_fields:
  assumes "map_of (sv_pending v) i = Some (p, x)"
    and "scoreOrder B (v\<lparr>sv_pending := AList.delete i (sv_pending v), sv_ref := (sv_ref v)(i := None)\<rparr>) x (sv_ref v i) = (sh, rep)"
  shows "sv_pending (finalize B i v) = AList.delete i (sv_pending v)" "sv_ref (finalize B i v) = (sv_ref v)(i := None)"
    "sv_rep (finalize B i v) = rep" "sv_engine (finalize B i v) = Forget (sv_engine v) i"
  using assms by (simp_all add: finalize_def Let_def split: option.split)

lemma set_delete: "set (AList.delete i xs) = {kv \<in> set xs. fst kv \<noteq> i}"
  by (auto simp: AList.delete_eq)

lemma finalize_inv:
  assumes inv: "svInv ok less_of items bad L D b v"
    and due: "\<And>p x. map_of (sv_pending v) i = Some (p, x) \<Longrightarrow>
      reportedQty (fillsOf x) < 2 ^ 64 \<and> (bad i \<longleftrightarrow> \<not> conforms x (refOf (a_fills b) i))"
  shows "svInv ok less_of items bad L D b (finalize B i v) \<and> keys (finalize B i v) = keys v - {i} \<and>
    index (sv_engine (finalize B i v)) = index (sv_engine v)"
proof (cases "map_of (sv_pending v) i")
  case None
  then have "i \<notin> keys v" by (simp add: keys_def map_of_eq_None_iff)
  moreover have "finalize B i v = v" using None by (simp add: finalize_def)
  ultimately show ?thesis using inv by simp
next
  case (Some px)
  then obtain p x where m: "map_of (sv_pending v) i = Some (p, x)" by (cases px) auto
  obtain sh rep where s: "scoreOrder B (v\<lparr>sv_pending := AList.delete i (sv_pending v), sv_ref := (sv_ref v)(i := None)\<rparr>) x (sv_ref v i) = (sh, rep)"
    by fastforce
  note f = finalize_fields [OF m s]
  have mem: "(i, p, x) \<in> set (sv_pending v)" using m by (rule map_of_SomeD)
  then have x: "x \<in> set D" "o_OrderID x = i" and k: "i \<in> keys v" using inv by (auto simp: svInv_def keys_def intro: rev_image_eqI)
  have ref: "sv_ref v i = refOf (a_fills b) i" using inv k by (simp add: svInv_def)
  have keys': "keys (finalize B i v) = keys v - {i}" by (auto simp: keys_def f(1) set_delete image_iff)
  note d = scoreOrder_dirty [OF s, unfolded ref x(2)] and du = due [OF m]
  have dirty: "dirtyByOrder rep = {i' \<in> o_OrderID ` set D - (keys v - {i}). bad i'} \<union> set L"
  proof -
    have "dirtyByOrder rep = (if bad i then {i} else {}) \<union> ({i' \<in> o_OrderID ` set D - keys v. bad i'} \<union> set L)"
      using d(1) du inv by (auto simp: svInv_def)
    then show ?thesis using x k by auto
  qed
  have iD: "i \<in> o_OrderID ` set D" using x by blast
  have refs: "((sv_ref v)(i := None)) i' = (if i' \<in> o_OrderID ` set D \<and> i' \<notin> keys v - {i} then None else refOf (a_fills b) i')" for i'
    using inv iD by (auto simp: svInv_def)
  have pend: "\<forall>i' p x. (i', p, x) \<in> set (AList.delete i (sv_pending v)) \<longrightarrow> x \<in> set D \<and> o_OrderID x = i'"
    "distinct (map fst (AList.delete i (sv_pending v)))"
    using inv by (auto simp: svInv_def set_delete distinct_delete)
  have "svInv ok less_of items bad L D b (finalize B i v)"
    unfolding svInv_def f keys' using inv dirty d(2,3) du refs pend by (simp add: svInv_def)
  then show ?thesis using keys' by (simp add: f(4))
qed

text \<open>An order of \<open>D\<close> may be scored now: its reference fills are complete.\<close>

definition due :: "(string \<Rightarrow> bool) \<Rightarrow> ABook \<Rightarrow> Order \<Rightarrow> bool" where
  "due bad b x \<longleftrightarrow> reportedQty (fillsOf x) < 2 ^ 64 \<and> (bad (o_OrderID x) \<longleftrightarrow> \<not> conforms x (refOf (a_fills b) (o_OrderID x)))"

lemma fold_finalize_inv:
  assumes "svInv ok less_of items bad L D b v" "\<And>x. x \<in> set D \<Longrightarrow> o_OrderID x \<in> set is \<Longrightarrow> due bad b x"
  shows "svInv ok less_of items bad L D b (fold (finalize B) is v) \<and> keys (fold (finalize B) is v) = keys v - set is \<and>
    index (sv_engine (fold (finalize B) is v)) = index (sv_engine v)"
  using assms
proof (induction "is" arbitrary: v)
  case (Cons i "is")
  have "reportedQty (fillsOf x) < 2 ^ 64 \<and> (bad i \<longleftrightarrow> \<not> conforms x (refOf (a_fills b) i))"
    if m: "map_of (sv_pending v) i = Some (p, x)" for p x
  proof -
    have "x \<in> set D" "o_OrderID x = i" using Cons.prems(1) map_of_SomeD [OF m] by (auto simp: svInv_def)
    then show ?thesis using Cons.prems(2) [of x] by (simp add: due_def)
  qed
  from finalize_inv [where B = B, OF Cons.prems(1) this] Cons.IH [of "finalize B i v"] Cons.prems(2)
  show ?case by auto
qed simp

lemma update_notin: "k \<notin> fst ` set al \<Longrightarrow> AList.update k v al = al @ [(k, v)]"
  by (induction al) auto

lemma drained:
  fixes e1 :: "'t Engine"
  assumes "book_inv ok less_of items e1"
  defines "e4 \<equiv> e1\<lparr>fills := [], trades := [], evicted := []\<rparr>"
  shows "book_inv ok less_of items e4" "absB items e4 = strip (absB items e1)" "index e4 = index e1"
proof -
  have "tree e4 = tree e1" by (simp add: tree_def e4_def fun_eq_iff)
  moreover have "orders e4 = orders e1" by (simp add: orders_def e4_def fun_eq_iff)
  ultimately show "book_inv ok less_of items e4" "absB items e4 = strip (absB items e1)" "index e4 = index e1"
    using assms(1)
    by (simp_all add: absB_def absE_def levels_def addrs_def book_inv_def trees_ok_def store_inv_def level_ok_def index_ok_def e4_def strip_def)
qed

text \<open>The state of \<open>Apply\<close> after the engine has processed the order and its fills are recorded.\<close>

definition recorded :: "'t StreamValidator \<Rightarrow> Order \<Rightarrow> 't Engine \<Rightarrow> 't StreamValidator" where
  "recorded v o' e1 = v\<lparr>sv_rep := (sv_rep v)\<lparr>ScoredOrders := ScoredOrders (sv_rep v) + 1\<rparr>,
     sv_pending := AList.update (o_OrderID o') (sv_next v, o') (sv_pending v), sv_next := sv_next v + 1,
     sv_ref := foldl addFill (sv_ref v) (fills e1), sv_engine := e1\<lparr>fills := [], trades := [], evicted := []\<rparr>\<rparr>"

lemma Apply_recorded:
  assumes "Process B (sv_engine v) o' = Some e1"
  shows "Apply_full B v o' = (let v3 = fold (finalize B) (evicted e1) (recorded v o' e1) in
     Some (if map_of (sv_pending v3) (o_OrderID o') \<noteq> None \<and> \<not> IsResting (sv_engine v3) (o_OrderID o')
       then finalize B (o_OrderID o') v3 else v3))"
proof -
  have "e1\<lparr>fills := [], trades := []\<rparr>\<lparr>evicted := []\<rparr> = e1\<lparr>fills := [], trades := [], evicted := []\<rparr>" by simp
  then show ?thesis
    using assms by (simp add: Apply_full_def recorded_def DrainFills_def DrainTrades_def DrainEvicted_def Let_def)
qed

lemma recorded_inv:
  assumes inv: "svInv ok less_of items bad L D b v"
    and fin: "\<And>i. i \<in> o_OrderID ` set D - keys v \<Longrightarrow> i \<notin> restIds b"
    and id: "o_OrderID o' \<noteq> []" "o_OrderID o' \<notin> o_OrderID ` set D"
    and e1: "book_inv ok less_of items e1" "absB items e1 = a_process o' (strip b)"
  shows "svInv ok less_of items bad L (D @ [o']) (a_process o' b) (recorded v o' e1)" (is "svInv _ _ _ _ _ ?D ?b ?v")
    "keys (recorded v o' e1) = insert (o_OrderID o') (keys v)"
    "index (sv_engine (recorded v o' e1)) = index e1" "set (evicted e1) \<inter> restIds (a_process o' b) = {}"
    "restIds (a_process o' b) \<subseteq> insert (o_OrderID o') (restIds b)"
proof -
  let ?i = "o_OrderID o'"
  have I: "book_inv ok less_of items (sv_engine v)" "absB items (sv_engine v) = strip b" "distinct (map fst (sv_pending v))"
    "\<And>i p x. (i, p, x) \<in> set (sv_pending v) \<Longrightarrow> x \<in> set D \<and> o_OrderID x = i"
    "\<And>i. sv_ref v i = (if i \<in> o_OrderID ` set D \<and> i \<notin> keys v then None else refOf (a_fills b) i)"
    "restIds b \<subseteq> o_OrderID ` set D" "f_OrderID ` set (a_fills b) \<subseteq> o_OrderID ` set D"
    "report_inv (sv_rep v)" "ScoredOrders (sv_rep v) = of_nat (length D + length L)"
    "dirtyByOrder (sv_rep v) = {i \<in> o_OrderID ` set D - keys v. bad i} \<union> set L"
    using inv by (simp_all add: svInv_def)
  have kD: "keys v \<subseteq> o_OrderID ` set D" using I(4) by (force simp: keys_def)
  then have new: "?i \<notin> keys v" using id(2) by blast
  have pend: "sv_pending ?v = sv_pending v @ [(?i, sv_next v, o')]"
    using new update_notin [of ?i "sv_pending v"] by (simp add: recorded_def keys_def)
  show k: "keys ?v = insert ?i (keys v)" by (simp add: keys_def pend)
  have ids: "o_OrderID ` set ?D = insert ?i (o_OrderID ` set D)" by simp
  have "idsDistinct (strip b)" using index_restIds(2) [OF I(1)] I(2) by simp
  then have st: "stepIds o' (strip b) (a_process o' (strip b))"
    using id I(6) by (intro a_process_ids) auto
  note l = logs_process [of o' b, unfolded logs_def]
  have f: "fills e1 = a_fills (a_process o' (strip b))" "evicted e1 = a_evicted (a_process o' (strip b))"
    using e1(2) [symmetric] by (simp_all add: absB_def absE_def)
  from st have fI: "f_OrderID ` set (fills e1) \<subseteq> insert ?i (restIds b)"
    and ev: "set (evicted e1) \<inter> restIds ?b = {}" and rs: "restIds ?b \<subseteq> insert ?i (restIds b)"
    unfolding stepIds_def f restIds_process by auto
  show "set (evicted e1) \<inter> restIds ?b = {}" "restIds ?b \<subseteq> insert ?i (restIds b)" by (fact ev, fact rs)
  have fb: "a_fills ?b = a_fills b @ fills e1" using l f by simp
  have ref: "foldl addFill (sv_ref v) (fills e1) i =
      (if i \<in> o_OrderID ` set ?D \<and> i \<notin> keys ?v then None else refOf (a_fills ?b) i)" for i
  proof (cases "i \<in> o_OrderID ` set D \<and> i \<notin> keys v")
    case True
    then have "i \<notin> restIds b" "i \<noteq> ?i" using fin [of i] id(2) by blast+
    then have "i \<notin> f_OrderID ` set (fills e1)" using fI by blast
    then show ?thesis using True \<open>i \<noteq> ?i\<close> by (simp add: foldl_addFill_other I(5) ids k)
  next
    case False
    then have "sv_ref v i = refOf (a_fills b) i" unfolding I(5) [of i] by (rule if_not_P)
    then have "foldl addFill (sv_ref v) (fills e1) i = refOf (a_fills b @ fills e1) i" by (rule foldl_addFill)
    moreover have "\<not> (i \<in> o_OrderID ` set ?D \<and> i \<notin> keys ?v)" using False unfolding ids k by blast
    ultimately show ?thesis by (simp only: fb if_False)
  qed
  note dr = drained [OF e1(1)]
  have eng: "sv_engine ?v = e1\<lparr>fills := [], trades := [], evicted := []\<rparr>" by (simp add: recorded_def)
  show "index (sv_engine ?v) = index e1" by (simp add: eng dr(3))
  have "absB items (sv_engine ?v) = strip ?b" using dr(2) e1(2) l by (simp add: eng)
  moreover have "dirtyByOrder (sv_rep ?v) = {i \<in> o_OrderID ` set ?D - keys ?v. bad i} \<union> set L"
    using I(10) id(2) unfolding ids k by (auto simp: recorded_def)
  moreover have "sv_ref ?v = foldl addFill (sv_ref v) (fills e1)" "report_inv (sv_rep ?v)"
    "ScoredOrders (sv_rep ?v) = of_nat (length ?D + length L)" using I(8,9) by (simp_all add: recorded_def)
  moreover have "distinct (map fst (sv_pending ?v))" "\<forall>i p x. (i, p, x) \<in> set (sv_pending ?v) \<longrightarrow> x \<in> set ?D \<and> o_OrderID x = i"
    using I(3,4) new unfolding pend by (auto simp: keys_def)
  moreover have "restIds ?b \<subseteq> o_OrderID ` set ?D" "f_OrderID ` set (a_fills ?b) \<subseteq> o_OrderID ` set ?D"
    using rs I(6,7) fI unfolding fb ids by auto
  ultimately show "svInv ok less_of items bad L ?D ?b ?v"
    unfolding svInv_def using ref dr(1) by (simp only: eng) blast
qed

text \<open>One order through \<open>Apply\<close>: every order that is no longer resting is scored now.\<close>

definition scoredGone :: "Order list \<Rightarrow> ABook \<Rightarrow> 't StreamValidator \<Rightarrow> bool" where
  "scoredGone D b v \<longleftrightarrow> (\<forall>i \<in> o_OrderID ` set D - keys v. i \<notin> restIds b)"

lemma gone_set:
  assumes "R' \<subseteq> insert i R" "E \<inter> R' = {}" "\<forall>j \<in> I - K. j \<notin> R" "insert i K - E - (if i \<in> R' then {} else {i}) \<subseteq> W"
  shows "\<forall>j \<in> insert i I - W. j \<notin> R'"
proof (intro ballI notI)
  fix j assume j: "j \<in> insert i I - W" "j \<in> R'"
  then have "j \<in> insert i K" using assms(1,3) by blast
  moreover have "j \<notin> E" "j \<noteq> i \<or> i \<in> R'" using assms(2) j(2) by blast+
  ultimately have "j \<in> W" using assms(4) by (auto split: if_splits)
  then show False using j(1) by simp
qed

lemma Apply_inv:
  assumes laws: "btree_laws B ok less_of items" and inv: "svInv ok less_of items bad L D b v" and fin: "scoredGone D b v"
    and id: "o_OrderID o' \<noteq> []" "o_OrderID o' \<notin> o_OrderID ` set D"
    and due: "\<And>x. x \<in> set (D @ [o']) \<Longrightarrow> o_OrderID x \<notin> restIds (a_process o' b) \<Longrightarrow> due bad (a_process o' b) x"
  shows "\<exists>v'. Apply_full B v o' = Some v' \<and> svInv ok less_of items bad L (D @ [o']) (a_process o' b) v' \<and>
    scoredGone (D @ [o']) (a_process o' b) v'"
proof -
  let ?i = "o_OrderID o'" and ?b = "a_process o' b"
  have e: "book_inv ok less_of items (sv_engine v)" "absB items (sv_engine v) = strip b" "restIds b \<subseteq> o_OrderID ` set D"
    using inv by (simp_all add: svInv_def)
  have "?i \<notin> dom (index (sv_engine v))" using index_restIds(1) [OF e(1)] e(2,3) id(2) by auto
  then have "fresh_id (sv_engine v) o'" using id(1) by (simp add: fresh_id_def orReplaceID_def domIff split: Kind.split)
  from book_btree.Process_refines [OF book_btreeI [OF laws] e(1) this] obtain e1 where
    p: "Process B (sv_engine v) o' = Some e1" and e1: "book_inv ok less_of items e1" "absB items e1 = a_process o' (strip b)"
    unfolding e(2) by blast
  have "\<And>i. i \<in> o_OrderID ` set D - keys v \<Longrightarrow> i \<notin> restIds b" using fin by (simp add: scoredGone_def)
  note r = recorded_inv [OF inv this id e1]
  let ?w = "recorded v o' e1" and ?v3 = "fold (finalize B) (evicted e1) (recorded v o' e1)"
  have "due bad ?b x" if "x \<in> set (D @ [o'])" "o_OrderID x \<in> set (evicted e1)" for x using due that r(4) by blast
  then have f: "svInv ok less_of items bad L (D @ [o']) ?b ?v3" "keys ?v3 = keys ?w - set (evicted e1)"
    "index (sv_engine ?v3) = index (sv_engine ?w)"
    using fold_finalize_inv [where B = B and v = ?w, OF r(1)] by blast+
  have ix: "index (sv_engine ?v3) = index e1" using f r(3) by simp
  have dom: "dom (index e1) = restIds ?b"
    using index_restIds(1) [OF e1(1)] e1(2) by (simp add: restIds_process)
  have rest: "IsResting (sv_engine ?v3) ?i \<longleftrightarrow> ?i \<in> restIds ?b"
    using ix dom by (auto simp: IsResting_def)
  have gone: "scoredGone (D @ [o']) ?b w" if "insert ?i (keys v) - set (evicted e1) - (if ?i \<in> restIds ?b then {} else {?i}) \<subseteq> keys w" for w :: "'a StreamValidator"
  proof -
    have "o_OrderID ` set (D @ [o']) = insert ?i (o_OrderID ` set D)" by simp
    then show ?thesis using gone_set [OF r(5,4) fin [unfolded scoredGone_def] that] by (simp add: scoredGone_def)
  qed
  show ?thesis
  proof (cases "map_of (sv_pending ?v3) ?i \<noteq> None \<and> \<not> IsResting (sv_engine ?v3) ?i")
    case True
    have "reportedQty (fillsOf x) < 2 ^ 64 \<and> (bad ?i \<longleftrightarrow> \<not> conforms x (refOf (a_fills ?b) ?i))"
      if m: "map_of (sv_pending ?v3) ?i = Some (p, x)" for p x
    proof -
      have "x \<in> set (D @ [o'])" "o_OrderID x = ?i" using f map_of_SomeD [OF m] by (auto simp: svInv_def)
      then show ?thesis using due [of x] rest True by (simp add: due_def)
    qed
    then have g: "svInv ok less_of items bad L (D @ [o']) ?b (finalize B ?i ?v3)" "keys (finalize B ?i ?v3) = keys ?v3 - {?i}"
      using finalize_inv [where B = B and i = ?i, OF f(1)] by blast+
    have "Apply_full B v o' = Some (finalize B ?i ?v3)" unfolding Apply_recorded [OF p] Let_def if_P [OF True] ..
    moreover have "scoredGone (D @ [o']) ?b (finalize B ?i ?v3)"
      by (rule gone) (use g f r(2) True rest in auto)
    ultimately show ?thesis using g by blast
  next
    case False
    have "Apply_full B v o' = Some ?v3" unfolding Apply_recorded [OF p] Let_def if_not_P [OF False] ..
    moreover have "scoredGone (D @ [o']) ?b ?v3"
    proof (rule gone)
      have "?i \<in> restIds ?b \<or> ?i \<notin> keys ?v3" using False rest by (auto simp: keys_def map_of_eq_None_iff)
      then show "insert ?i (keys v) - set (evicted e1) - (if ?i \<in> restIds ?b then {} else {?i}) \<subseteq> keys ?v3"
        using f r(2) by auto
    qed
    ultimately show ?thesis using f by blast
  qed
qed

end
