(* ===== verification/FullMode.thy ===== *)
theory FullMode
  imports StreamVal_Session Source_Props
begin

text \<open>
  Full mode end to end: the calls of the session source (\<open>source.StreamSession\<close>) drive the
  streaming validator as \<open>validateSession\<close> of \<open>main.go\<close> wires them (\<open>handleFull\<close>, \<open>runFull\<close>).
  The properties say what the published report of a whole session means: which orders are
  dirty, how many are scored, and that every reported fill is counted in exactly one class.
\<close>

definition handleFull :: "'t level_ops \<Rightarrow> 't StreamValidator \<Rightarrow> Callback \<Rightarrow> 't StreamValidator option" where
  "handleFull B v c = (case c of
     Apply o' \<Rightarrow> Apply_full B v o'
   | AddPhantom i q p \<Rightarrow> Some (AddPhantom_full v \<lparr>rf_OrderID = i, rf_Qty = q, rf_Price = p\<rparr>)
   | AddLost i k \<Rightarrow> Some (AddLost_full v i k)
   | AddCaptureGap \<Rightarrow> Some (AddCaptureGap_full v))"

fun runFull :: "'t level_ops \<Rightarrow> 't StreamValidator \<Rightarrow> Callback list \<Rightarrow> 't StreamValidator option" where
  "runFull B v [] = Some v"
| "runFull B v (c # cs) = (case handleFull B v c of None \<Rightarrow> None | Some v' \<Rightarrow> runFull B v' cs)"

section \<open>The reference run\<close>

text \<open>The abstract book after the orders of a session, and the reference fills of an order.\<close>

definition refBook :: "Order list \<Rightarrow> ABook" where
  "refBook os = fold a_process os emptyBook"

definition refFor :: "Order list \<Rightarrow> string \<Rightarrow> orderRef option" where
  "refFor os i = refOf (a_fills (refBook os)) i"

definition validIds :: "Order list \<Rightarrow> bool" where
  "validIds os \<longleftrightarrow> distinct (map o_OrderID os) \<and> list_all (\<lambda>x. o_OrderID x \<noteq> []) os"

lemma refBook_snoc: "refBook (os @ [x]) = a_process x (refBook os)"
  by (simp add: refBook_def)

lemma validIds_append: "validIds (xs @ ys) \<Longrightarrow> validIds xs"
  by (simp add: validIds_def)

lemma refBook_ids: "validIds os \<Longrightarrow> idsDistinct (refBook os) \<and> restIds (refBook os) \<subseteq> o_OrderID ` set os"
proof (induction os rule: rev_induct)
  case Nil
  then show ?case by (simp add: refBook_def emptyBook_def restIds_def idsDistinct_def)
next
  case (snoc x os)
  then have v: "validIds os" and x: "o_OrderID x \<noteq> []" "o_OrderID x \<notin> o_OrderID ` set os" by (auto simp: validIds_def)
  note IH = snoc.IH [OF v]
  have "stepIds x (refBook os) (refBook (os @ [x]))"
    unfolding refBook_snoc using IH x by (intro a_process_ids) auto
  then have "restIds (refBook (os @ [x])) \<subseteq> o_OrderID ` set (os @ [x])" using IH by (auto simp: stepIds_def)
  moreover have "idsDistinct (refBook (os @ [x]))"
  proof -
    have "\<exists>e. book_inv LB_wf fst snd e \<and> absB snd e = refBook (os @ [x])"
      using lbk.processAll_refines [OF lbk.NewEngine_inv(1), of "os @ [x]"] snoc.prems
      by (auto simp: validIds_def list_all_iff refBook_def lbk.NewEngine_inv(2,3))
    then show ?thesis using index_restIds(2) by metis
  qed
  ultimately show ?case by blast
qed

text \<open>The reference fills of an order that left the book do not change any more.\<close>

lemma refFor_final:
  assumes "validIds (D @ os)" "i \<notin> restIds (refBook D)" "i \<notin> o_OrderID ` set os"
  shows "refFor (D @ os) i = refFor D i \<and> i \<notin> restIds (refBook (D @ os))"
  using assms(1,3)
proof (induction os rule: rev_induct)
  case (snoc x os)
  have v: "validIds (D @ os)" using snoc.prems(1) by (auto simp: validIds_def)
  have IH: "refFor (D @ os) i = refFor D i" "i \<notin> restIds (refBook (D @ os))" using snoc.IH [OF v] snoc.prems by auto
  have x: "o_OrderID x \<noteq> []" "o_OrderID x \<notin> o_OrderID ` set (D @ os)" using snoc.prems by (auto simp: validIds_def)
  have "stepIds x (refBook (D @ os)) (refBook (D @ os @ [x]))"
    unfolding append_assoc [symmetric] refBook_snoc using refBook_ids [OF v] x by (intro a_process_ids) auto
  then obtain new where n: "a_fills (refBook (D @ os @ [x])) = a_fills (refBook (D @ os)) @ new"
    "f_OrderID ` set new \<subseteq> insert (o_OrderID x) (restIds (refBook (D @ os)))"
    "restIds (refBook (D @ os @ [x])) \<subseteq> insert (o_OrderID x) (restIds (refBook (D @ os)))"
    unfolding stepIds_def by blast
  have i: "i \<notin> insert (o_OrderID x) (restIds (refBook (D @ os)))" using IH(2) snoc.prems(2) by auto
  then have "i \<notin> f_OrderID ` set new" using n(2) by blast
  then show ?case using IH(1) n i by (auto simp: refFor_def refOf_append_other)
qed (use assms in \<open>simp add: refFor_def\<close>)

section \<open>The validator on a trace\<close>

lemma svInv_phantom: "svInv ok less_of items bad L D b (AddPhantom_full v f) = svInv ok less_of items bad L D b v"
  by (simp add: svInv_def AddPhantom_full_def keys_def report_inv_def)

lemma svInv_gap: "svInv ok less_of items bad L D b (AddCaptureGap_full v) = svInv ok less_of items bad L D b v"
  by (simp add: svInv_def AddCaptureGap_full_def keys_def)

lemma svInv_lost:
  assumes "svInv ok less_of items bad L D b v"
  shows "svInv ok less_of items bad (L @ [i]) D b (AddLost_full v i k)"
proof -
  let ?r = "sv_rep (AddLost_full v i k)"
  have I: "report_inv (sv_rep v)" "ScoredOrders (sv_rep v) = of_nat (length D + length L)"
    "dirtyByOrder (sv_rep v) = {i \<in> o_OrderID ` set D - keys v. bad i} \<union> set L" using assms by (simp_all add: svInv_def)
  have "report_inv ?r" using I(1) by (simp add: AddLost_full_def Let_def report_inv_add)
  moreover have "ScoredOrders ?r = of_nat (length D + length (L @ [i]))"
    using I(2) by (simp add: AddLost_full_def Let_def report)
  moreover have "dirtyByOrder ?r = {i \<in> o_OrderID ` set D - keys v. bad i} \<union> set (L @ [i])"
    using I(3) by (auto simp: AddLost_full_def Let_def report keys_def)
  moreover have "sv_engine (AddLost_full v i k) = sv_engine v" "sv_pending (AddLost_full v i k) = sv_pending v"
    "sv_ref (AddLost_full v i k) = sv_ref v" by (simp_all add: AddLost_full_def Let_def)
  moreover from this have "keys (AddLost_full v i k) = keys v" by (simp add: keys_def)
  ultimately show ?thesis using assms unfolding svInv_def by simp
qed

lemma scoredGone_other [simp]:
  "scoredGone D b (AddPhantom_full v f) = scoredGone D b v" "scoredGone D b (AddLost_full v i k) = scoredGone D b v"
  "scoredGone D b (AddCaptureGap_full v) = scoredGone D b v"
  by (simp_all add: scoredGone_def keys_def AddPhantom_full_def AddLost_full_def AddCaptureGap_full_def Let_def)

lemma runFull_inv:
  assumes "btree_laws B ok less_of items"
    and "svInv ok less_of items bad L D (refBook D) v" "scoredGone D (refBook D) v" "validIds (D @ applied tr)"
    and "\<And>x. x \<in> set (D @ applied tr) \<Longrightarrow> due bad (refBook (D @ applied tr)) x"
  shows "\<exists>v'. runFull B v tr = Some v' \<and>
    svInv ok less_of items bad (L @ lostIds tr) (D @ applied tr) (refBook (D @ applied tr)) v'"
  using assms(2-)
proof (induction tr arbitrary: L D v)
  case (Cons c cs)
  show ?case
  proof (cases c)
    case (Apply x)
    let ?D = "D @ [x]"
    have v: "validIds (?D @ applied cs)" using Cons.prems(3) Apply by simp
    have x: "o_OrderID x \<noteq> []" "o_OrderID x \<notin> o_OrderID ` set D" using v by (auto simp: validIds_def)
    have due: "due bad (a_process x (refBook D)) y" if "y \<in> set ?D" "o_OrderID y \<notin> restIds (a_process x (refBook D))" for y
    proof -
      have "o_OrderID y \<notin> o_OrderID ` set (applied cs)" using v that(1) by (auto simp: validIds_def)
      moreover have "o_OrderID y \<notin> restIds (refBook ?D)" using that(2) by (simp add: refBook_snoc)
      ultimately have "refFor (?D @ applied cs) (o_OrderID y) = refFor ?D (o_OrderID y)" using refFor_final [OF v] by blast
      then show ?thesis using Cons.prems(4) [of y] that(1) Apply by (auto simp: due_def refFor_def refBook_snoc)
    qed
    from Apply_inv [OF assms(1) Cons.prems(1,2) x due] obtain v1 where
      v1: "Apply_full B v x = Some v1" "svInv ok less_of items bad L ?D (refBook ?D) v1" "scoredGone ?D (refBook ?D) v1"
      unfolding refBook_snoc by blast
    from Cons.IH [OF v1(2,3) v] Cons.prems(4) show ?thesis using v1(1) Apply by (simp add: handleFull_def)
  next
    case (AddLost i k)
    from Cons.IH [OF svInv_lost [OF Cons.prems(1), of i k]] Cons.prems(2-) AddLost show ?thesis by (simp add: handleFull_def)
  next
    case (AddPhantom i q p)
    from Cons.IH [of L D "AddPhantom_full v \<lparr>rf_OrderID = i, rf_Qty = q, rf_Price = p\<rparr>"] Cons.prems AddPhantom
    show ?thesis by (simp add: handleFull_def svInv_phantom)
  next
    case AddCaptureGap
    from Cons.IH [of L D "AddCaptureGap_full v"] Cons.prems AddCaptureGap show ?thesis by (simp add: handleFull_def svInv_gap)
  qed
qed simp

lemma NewStreamValidator_inv:
  assumes "btree_laws B ok less_of items"
  shows "svInv ok less_of items bad [] [] (refBook []) (NewStreamValidator B)" "scoredGone [] (refBook []) (NewStreamValidator B)"
proof -
  note n = book_btree.NewEngine_inv [OF book_btreeI [OF assms]]
  show "svInv ok less_of items bad [] [] (refBook []) (NewStreamValidator B)"
    using n by (simp add: svInv_def NewStreamValidator_def refBook_def emptyBook_def strip_def keys_def restIds_def refOf_def
        report_inv_zero zeroReport_def [THEN arg_cong [of _ _ ScoredOrders]] zeroReport_def [THEN arg_cong [of _ _ dirtyByOrder]])
  show "scoredGone [] (refBook []) (NewStreamValidator B)" by (simp add: scoredGone_def)
qed

lemma gapTaint_fields [simp]:
  "dirtyByOrder (gapTaint f g r) = dirtyByOrder r" "ScoredOrders (gapTaint f g r) = ScoredOrders r"
  "DirtyOrders (gapTaint f g r) = DirtyOrders r" "TotalFills (gapTaint f g r) = TotalFills r"
  "classified (gapTaint f g r) = classified r" "report_inv (gapTaint f g r) = report_inv r"
  by (simp_all add: gapTaint_def Let_def classified_def report_inv_def)

lemma report_inv_finish [simp]: "report_inv (r\<lparr>ScoredFills := x, rep_CaptureGaps := y\<rparr>) = report_inv r"
  by (simp add: report_inv_def)

lemma Finish_inv:
  assumes inv: "svInv ok less_of items bad L D b v" and due: "\<And>x. x \<in> set D \<Longrightarrow> due bad b x"
  shows "dirtyByOrder (Finish_full B v) = {i \<in> o_OrderID ` set D. bad i} \<union> set L"
    "ScoredOrders (Finish_full B v) = of_nat (length D + length L)" "report_inv (Finish_full B v)"
proof -
  let ?rest = "sort_stable Less (map (\<lambda>(_, _, o'). o') (sv_pending v))"
  let ?v = "fold (\<lambda>o'. finalize B (o_OrderID o')) ?rest v"
  have eq: "?v = fold (finalize B) (map o_OrderID ?rest) v" by (simp add: fold_map comp_def)
  have k: "set (map o_OrderID ?rest) = keys v"
  proof -
    have "o_OrderID ` (\<lambda>(_, _, o'). o') ` set (sv_pending v) = fst ` set (sv_pending v)"
      using inv unfolding image_image svInv_def by (intro image_cong) auto
    then show ?thesis by (simp add: keys_def)
  qed
  have f: "svInv ok less_of items bad L D b ?v" "keys ?v = {}"
    using fold_finalize_inv [where B = B, OF inv due, of "map o_OrderID ?rest"] k unfolding eq by auto
  show "dirtyByOrder (Finish_full B v) = {i \<in> o_OrderID ` set D. bad i} \<union> set L"
    "ScoredOrders (Finish_full B v) = of_nat (length D + length L)" "report_inv (Finish_full B v)"
    using f by (simp_all add: Finish_full_def Let_def svInv_def)
qed

text \<open>The marks of a session: orders that do not conform to the reference run.\<close>

definition nonconforming :: "Order list \<Rightarrow> string set" where
  "nonconforming os = o_OrderID ` {x \<in> set os. \<not> conforms x (refFor os (o_OrderID x))}"

definition reportable :: "Order list \<Rightarrow> bool" where
  "reportable os \<longleftrightarrow> validIds os \<and> list_all (\<lambda>x. int (reportedQty (fillsOf x)) < 2 ^ 64) os"

lemma runFull_report:
  assumes "btree_laws B ok less_of items" "reportable (applied tr)"
  shows "\<exists>v. runFull B (NewStreamValidator B) tr = Some v \<and>
    dirtyByOrder (Finish_full B v) = nonconforming (applied tr) \<union> set (lostIds tr) \<and>
    ScoredOrders (Finish_full B v) = of_nat (length (applied tr) + length (lostIds tr)) \<and> report_inv (Finish_full B v)"
proof -
  let ?os = "applied tr" and ?bad = "\<lambda>i. i \<in> nonconforming (applied tr)"
  have v: "validIds ?os" and q: "\<And>x. x \<in> set ?os \<Longrightarrow> reportedQty (fillsOf x) < 2 ^ 64"
    using assms(2) by (auto simp: reportable_def list_all_iff)
  have due: "due ?bad (refBook ?os) x" if x: "x \<in> set ?os" for x
  proof -
    have "y = x" if "y \<in> set ?os" "o_OrderID y = o_OrderID x" for y
      using v x that by (auto simp: validIds_def distinct_map dest: inj_onD)
    then show ?thesis using x q by (auto simp: due_def nonconforming_def refFor_def)
  qed
  from runFull_inv [OF assms(1) NewStreamValidator_inv [OF assms(1)], of tr ?bad] v due obtain w where
    w: "runFull B (NewStreamValidator B) tr = Some w" "svInv ok less_of items ?bad (lostIds tr) ?os (refBook ?os) w" by auto
  have "{i \<in> o_OrderID ` set ?os. ?bad i} = nonconforming ?os" by (auto simp: nonconforming_def)
  with Finish_inv [OF w(2) due, of B] w(1) show ?thesis by auto
qed

lemma score_one_iff:
  assumes "ScoredOrders r \<noteq> 0" "uint (ScoredOrders r) < 2 ^ 53"
  shows "CorrectnessScore r = Fin 1 \<longleftrightarrow> DirtyOrders r = 0"
proof (cases "DirtyOrders r = 0")
  case True
  then show ?thesis using CorrectnessScore_cases(1) [OF assms(1)] by simp
next
  case dirty: False
  show ?thesis
  proof (cases "DirtyOrders r \<ge> ScoredOrders r")
    case True
    then show ?thesis using CorrectnessScore_cases(2) [OF assms(1)] dirty by simp
  next
    case False
    then have "DirtyOrders r < ScoredOrders r" by simp
    from dirty_below_one [OF dirty this assms(2)] dirty show ?thesis by force
  qed
qed

section \<open>Every fill is counted in one class\<close>

definition unbalanced :: "'t StreamValidator \<Rightarrow> u64" where
  "unbalanced v = TotalFills (sv_rep v) - classified (sv_rep v)"

lemma scoreOrder_total:
  assumes "scoreOrder B v x r = (sh, rep)"
  shows "TotalFills rep - classified rep = TotalFills (sv_rep v) - classified (sv_rep v)"
proof -
  obtain cum rp where f: "foldl (scoreFill B v x r) (0, sv_rep v) (o_Responses x) = (cum, rp)" by fastforce
  have "TotalFills rep = TotalFills rp" "classified rep = classified rp"
    using assms by (auto simp: scoreOrder_def f report split: option.splits if_splits)
  then show ?thesis using foldl_scoreFill_total [OF f] by simp
qed

lemma finalize_balance [simp]: "unbalanced (finalize B i v) = unbalanced v"
proof (cases "map_of (sv_pending v) i")
  case (Some px)
  then obtain p x where m: "map_of (sv_pending v) i = Some (p, x)" by (cases px) auto
  obtain sh rep where s: "scoreOrder B (v\<lparr>sv_pending := AList.delete i (sv_pending v), sv_ref := (sv_ref v)(i := None)\<rparr>) x (sv_ref v i) = (sh, rep)"
    by fastforce
  show ?thesis using scoreOrder_total [OF s] by (simp add: unbalanced_def finalize_fields(3) [OF m s])
qed (simp add: finalize_def)

lemma fold_finalize_balance [simp]: "unbalanced (fold (finalize B) is v) = unbalanced v"
  by (induction "is" arbitrary: v) simp_all

lemma handle_balance:
  assumes "handleFull B v c = Some v'"
  shows "unbalanced v' = unbalanced v"
proof (cases c)
  case (Apply x)
  then have a: "Apply_full B v x = Some v'" using assms by (simp add: handleFull_def)
  then obtain e1 where p: "Process B (sv_engine v) x = Some e1"
    by (cases "Process B (sv_engine v) x") (simp_all add: Apply_full_def Let_def)
  have "unbalanced (recorded v x e1) = unbalanced v" by (simp add: recorded_def unbalanced_def classified_upd)
  moreover have "unbalanced v' = unbalanced (recorded v x e1)"
    using a unfolding Apply_recorded [OF p] Let_def by (auto split: if_splits)
  ultimately show ?thesis by simp
qed (use assms in \<open>auto simp: handleFull_def AddPhantom_full_def AddLost_full_def AddCaptureGap_full_def unbalanced_def Let_def
      report classified_def\<close>)

lemma runFull_balance: "runFull B v tr = Some v' \<Longrightarrow> unbalanced v' = unbalanced v"
  by (induction tr arbitrary: v) (auto split: option.splits dest: handle_balance)

lemma mset_distinct_sub: "mset xs \<subseteq># mset ys \<Longrightarrow> distinct ys \<Longrightarrow> distinct xs"
proof -
  assume "mset xs \<subseteq># mset ys" "distinct ys"
  moreover obtain zs where "mset ys = mset (xs @ zs)" using calculation(1) by (metis ex_mset mset_append mset_subset_eq_exists_conv)
  ultimately have "distinct (xs @ zs)" using mset_eq_imp_distinct_iff by blast
  then show ?thesis by simp
qed

lemma card_marks: "card (nonconforming (applied tr) \<union> set (lostIds tr)) \<le> length (applied tr) + length (lostIds tr)"
proof -
  have "nonconforming (applied tr) \<union> set (lostIds tr) \<subseteq> set (map o_OrderID (applied tr) @ lostIds tr)"
    by (auto simp: nonconforming_def)
  from card_mono [OF _ this] show ?thesis
    using card_length [of "map o_OrderID (applied tr) @ lostIds tr"] by simp
qed

lemma score_when:
  assumes "report_inv r" "ScoredOrders r = of_nat n" "dirtyByOrder r = M" "int n < 2 ^ 53" "card M \<le> n"
  shows "CorrectnessScore r = Fin 1 \<longleftrightarrow> M = {}"
proof -
  have fin: "finite M" and d: "DirtyOrders r = of_nat (card M)" using assms(1,3) by (auto simp: report_inv_def)
  have u: "uint (of_nat k :: u64) = int k" if "k \<le> n" for k
    using assms(4) that by (simp add: unsigned_of_nat take_bit_int_eq_self of_nat_take_bit)
  show ?thesis
  proof (cases "n = 0")
    case True
    then show ?thesis using assms(2,5) fin by (simp add: CorrectnessScore_def)
  next
    case False
    have "(of_nat k :: u64) = 0 \<longleftrightarrow> k = 0" if "k \<le> n" for k using u [OF that] by (auto simp: uint_0_iff [symmetric])
    then have "ScoredOrders r \<noteq> 0" "DirtyOrders r = 0 \<longleftrightarrow> M = {}" using False assms(2,5) d fin by auto
    moreover have "uint (ScoredOrders r) < 2 ^ 53" using u [of n] assms(2,4) by simp
    ultimately show ?thesis using score_one_iff by blast
  qed
qed

section \<open>Properties\<close>

text \<open>A session of two matched orders, the second filled at a wrong price, one lost order and one capture gap.\<close>

definition demoFill :: "u64 \<Rightarrow> u64 \<Rightarrow> Response" where
  "demoFill q p = \<lparr>ExecType = ''F'', FillQty = q, FillPrice = p, T7Ns = 9\<rparr>"

definition demoTrace :: "Callback list" where
  "demoTrace = [Apply ((demo ''a'' Sell 100 5 NewLimit [] None)\<lparr>o_Responses := [demoFill 5 100]\<rparr>), AddLost ''l'' NewLimit,
     Apply ((demo ''b'' Buy 100 5 NewLimit [] None)\<lparr>o_Responses := [demoFill 5 101]\<rparr>), AddCaptureGap]"

lemma demoTrace_facts:
  "reportable (applied demoTrace)" "lostIds demoTrace = [''l'']" "length (applied demoTrace) = 2" "nonconforming (applied demoTrace) = {''b''}"
proof -
  show "reportable (applied demoTrace)"
    by (simp add: reportable_def validIds_def demoTrace_def demo_def demoFill_def reportedQty_def fillsOf_def isFill_def)
  show "lostIds demoTrace = [''l'']" "length (applied demoTrace) = 2" by (simp_all add: demoTrace_def)
  show "nonconforming (applied demoTrace) = {''b''}" by code_simp
qed

text \<open>
  C15. What full mode marks. On every trace of the source in which order ids are distinct and
  not empty and the fills of one order add up below 2^64, the validator returns, and its
  report is exact although every order is scored and forgotten as soon as it leaves the
  book: the dirty orders are the lost ones and those whose reported fills do not agree
  (same total, only reference prices) with the fills the abstract book produces for them
  over the whole session; every applied or lost order is scored once.
\<close>

theorem full_mode_marks_exactly:
  assumes "btree_laws B ok less_of items" "reportable (applied tr)"
  shows "\<exists>v. runFull B (NewStreamValidator B) tr = Some v \<and>
    dirtyByOrder (Finish_full B v) = nonconforming (applied tr) \<union> set (lostIds tr) \<and>
    DirtyOrders (Finish_full B v) = of_nat (card (nonconforming (applied tr) \<union> set (lostIds tr))) \<and>
    ScoredOrders (Finish_full B v) = of_nat (length (applied tr) + length (lostIds tr))"
proof -
  obtain v where v: "runFull B (NewStreamValidator B) tr = Some v"
    "dirtyByOrder (Finish_full B v) = nonconforming (applied tr) \<union> set (lostIds tr)"
    "ScoredOrders (Finish_full B v) = of_nat (length (applied tr) + length (lostIds tr))" "report_inv (Finish_full B v)"
    using runFull_report [OF assms] by blast
  have "DirtyOrders (Finish_full B v) = of_nat (card (dirtyByOrder (Finish_full B v)))" using v(4) by (simp only: report_inv_def)
  then show ?thesis using v by (auto simp del: of_nat_add)
qed

theorem full_mode_marks_exactly_witness:
  "\<exists>v. runFull LB (NewStreamValidator LB) demoTrace = Some v \<and>
    dirtyByOrder (Finish_full LB v) = {''b'', ''l''} \<and> ScoredOrders (Finish_full LB v) = 3"
  using full_mode_marks_exactly [OF lb.btree_laws_axioms demoTrace_facts(1)] by (auto simp: demoTrace_facts)

text \<open>
  C16. A full-mode session from the topics to the score. When the sent events carry distinct
  order ids, none empty, and the session stays below 2^53 orders, reading the partitions,
  joining, reordering and replaying returns a report, and its score is 1 exactly when no
  order is lost and every applied order agrees with the reference book.
\<close>

theorem full_session_scores_one_iff_correct:
  fixes streams window
  defines "tr \<equiv> j_trace (runStreams window streams)"
  assumes "btree_laws B ok less_of items"
    and "distinct (map s_OrderID (sentEvents streams))" "[] \<notin> s_OrderID ` set (sentEvents streams)"
    and "int (length (sentEvents streams)) < 2 ^ 53" "\<And>x. x \<in> set (applied tr) \<Longrightarrow> int (reportedQty (fillsOf x)) < 2 ^ 64"
  shows "\<exists>v. runFull B (NewStreamValidator B) tr = Some v \<and>
    (CorrectnessScore (Finish_full B v) = Fin 1 \<longleftrightarrow>
      lostIds tr = [] \<and> (\<forall>x\<in>set (applied tr). conforms x (refFor (applied tr) (o_OrderID x))))"
proof -
  obtain gs where m: "mset (map o_OrderID (applied tr)) + mset (lostIds tr) + mset gs = mset (map s_OrderID (sentEvents streams))"
    using runStreams_ids [OF assms(3), of window] unfolding tr_def by blast
  then have sub: "mset (map o_OrderID (applied tr)) \<subseteq># mset (map s_OrderID (sentEvents streams))"
    by (metis add.assoc mset_subset_eq_add_left)
  have "set (map o_OrderID (applied tr)) \<subseteq> set (map s_OrderID (sentEvents streams))" using set_mset_mono [OF sub] by simp
  then have "[] \<notin> o_OrderID ` set (applied tr)" using assms(4) by auto
  then have "list_all (\<lambda>x. o_OrderID x \<noteq> []) (applied tr)" unfolding list_all_iff by (metis imageI)
  then have "validIds (applied tr)" using assms(3) mset_distinct_sub [OF sub] by (simp add: validIds_def)
  then have rep: "reportable (applied tr)" using assms(6) by (auto simp: reportable_def list_all_iff)
  obtain v where v: "runFull B (NewStreamValidator B) tr = Some v"
    "dirtyByOrder (Finish_full B v) = nonconforming (applied tr) \<union> set (lostIds tr)"
    "ScoredOrders (Finish_full B v) = of_nat (length (applied tr) + length (lostIds tr))" "report_inv (Finish_full B v)"
    using runFull_report [OF assms(2) rep] by blast
  let ?n = "length (applied tr) + length (lostIds tr)"
  have n: "int ?n < 2 ^ 53" using arg_cong [OF m, of size] assms(5) by simp
  have fin: "nonconforming (applied tr) \<union> set (lostIds tr) = {} \<longleftrightarrow>
      lostIds tr = [] \<and> (\<forall>x\<in>set (applied tr). conforms x (refFor (applied tr) (o_OrderID x)))"
    by (auto simp: nonconforming_def)
  have "CorrectnessScore (Finish_full B v) = Fin 1 \<longleftrightarrow> nonconforming (applied tr) \<union> set (lostIds tr) = {}"
    using score_when [OF v(4,3,2) n card_marks] by simp
  then show ?thesis using v(1) fin by blast
qed

theorem full_session_scores_one_iff_correct_witness:
  "\<exists>v. runFull LB (NewStreamValidator LB) (j_trace (runStreams 4 demoStreams)) = Some v \<and>
    CorrectnessScore (Finish_full LB v) \<noteq> Fin 1"
proof -
  let ?tr = "j_trace (runStreams 4 demoStreams)"
  have ids: "map s_OrderID (sentEvents demoStreams) = [''a'', ''b'', ''d'']" by code_simp
  then have h: "distinct (map s_OrderID (sentEvents demoStreams))" "[] \<notin> s_OrderID ` set (sentEvents demoStreams)"
    using arg_cong [OF ids, of set] by (simp, metis (no_types, lifting) list.distinct(1) list.set_map set_ConsD set_empty2 empty_iff)
  have n: "int (length (sentEvents demoStreams)) < 2 ^ 53" using arg_cong [OF ids, of length] by simp
  have q: "int (reportedQty (fillsOf x)) < 2 ^ 64" if "x \<in> set (applied ?tr)" for x
    using that by (auto simp: demoStreams_run reportedQty_def fillsOf_def isFill_def)
  have "lostIds ?tr \<noteq> []" by (simp add: demoStreams_run)
  with full_session_scores_one_iff_correct [OF lb.btree_laws_axioms h n q] show ?thesis by auto
qed

text \<open>
  Every reported fill of a scored order is counted in exactly one class: at the end of a
  session the total number of fills is the sum of the valid ones, the overfills and the
  price, time and self-trade violations, and the phantom fills of unknown orders are in none
  of them.
\<close>

lemma full_mode_fills_partition:
  assumes "runFull B (NewStreamValidator B) tr = Some v"
  shows "let r = Finish_full B v in
    TotalFills r = ValidFills r + Overfills r + PriceViolations r + TimeViolations r + SelfTrades r \<and> ScoredFills r = TotalFills r"
proof -
  let ?v = "fold (finalize B) (map o_OrderID (sort_stable Less (map (\<lambda>(_, _, o'). o') (sv_pending v)))) v"
  have "unbalanced (NewStreamValidator B) = 0" by (simp add: unbalanced_def NewStreamValidator_def classified_def zeroReport_def)
  then have "unbalanced ?v = 0" using runFull_balance [OF assms] by (simp del: map_map)
  then have "TotalFills (sv_rep ?v) = classified (sv_rep ?v)" by (simp add: unbalanced_def)
  then show ?thesis
    by (simp add: Finish_full_def Let_def fold_map comp_def gapTaint_def classified_def)
qed

end
