(* ===== verification/Invariants.thy ===== *)
theory Invariants
  imports Report StreamVal Source
begin

text \<open>
  The book-free validator of \<open>validate/invariants.go\<close>: the cross-flow predicate, the jitter
  histogram, the bounded reorder window keyed by the first response time, and the validator
  with its callbacks \<open>Apply\<close>, \<open>AddUnmatched\<close>, \<open>AddLost\<close>, \<open>AddCaptureGap\<close> and \<open>Finish\<close>. The
  functions \<open>emit\<close> and \<open>late\<close> given to the window touch only the validator, so the window
  returns what it emits and whether a record was late, and the validator handles them in
  the same order.
\<close>

definition DefaultCrossFlowWindowUs :: u64 where
  "DefaultCrossFlowWindowUs = 500"

definition DefaultT7ReorderWindow :: int where
  "DefaultT7ReorderWindow = 65536"

definition CrossFlowPredicate :: "u64 \<Rightarrow> u64 \<Rightarrow> u64 \<Rightarrow> bool \<times> bool \<times> u64" where
  "CrossFlowPredicate t3ANs t3BNs windowUs = (if t3ANs \<ge> t3BNs then (False, False, 0)
     else let jitterNs = t3BNs - t3ANs in (True, jitterNs > windowUs * 1000, jitterNs))"

section \<open>The jitter histogram\<close>

text \<open>\<open>bits.Len64\<close>: the number of bits needed to write the number.\<close>

definition bits_Len64 :: "u64 \<Rightarrow> nat" where
  "bits_Len64 w = length (takeWhile (\<lambda>i. 2 ^ i \<le> uint w) [0..<64])"

record jitterHistogram =
  jh_buckets :: "u64 list"
  jh_count :: u64
  jh_maxNs :: u64

definition newJitterHistogram :: jitterHistogram where
  "newJitterHistogram = \<lparr>jh_buckets = replicate 65 0, jh_count = 0, jh_maxNs = 0\<rparr>"

definition jh_record :: "u64 \<Rightarrow> jitterHistogram \<Rightarrow> jitterHistogram" where
  "jh_record ns h = (let idx = bits_Len64 ns in
     \<lparr>jh_buckets = (jh_buckets h)[idx := jh_buckets h ! idx + 1], jh_count = jh_count h + 1,
      jh_maxNs = (if ns > jh_maxNs h then ns else jh_maxNs h)\<rparr>)"

fun bucketAt :: "u64 \<Rightarrow> nat \<Rightarrow> u64 \<Rightarrow> u64 list \<Rightarrow> nat option" where
  "bucketAt rk i cum [] = None"
| "bucketAt rk i cum (c # cs) = (if cum + c > rk then Some i else bucketAt rk (i + 1) (cum + c) cs)"

definition percentileNs :: "jitterHistogram \<Rightarrow> float64 \<Rightarrow> u64" where
  "percentileNs h p = (if jh_count h = 0 then 0
     else let rk = u64_of_f64 (fmul p (f64_of_u64 (jh_count h - 1))) in
       case bucketAt rk 0 0 (jh_buckets h) of
         None \<Rightarrow> jh_maxNs h
       | Some i \<Rightarrow> if i = 0 then 0 else push_bit (i - 1) 1)"

definition stats :: "jitterHistogram \<Rightarrow> u64 \<Rightarrow> JitterStats" where
  "stats h totalProcessed = (if jh_count h = 0 then zeroJitter
     else let rate = (if totalProcessed > 0 then fdiv (f64_of_u64 (jh_count h)) (f64_of_u64 totalProcessed) else Fin 0) in
     \<lparr>js_Count = jh_count h, js_InversionRate = rate,
      js_P50Us = fdiv (f64_of_u64 (percentileNs h (f64 (1 / 2)))) (f64 1000),
      js_P99Us = fdiv (f64_of_u64 (percentileNs h (f64 (99 / 100)))) (f64 1000),
      js_P999Us = fdiv (f64_of_u64 (percentileNs h (f64 (999 / 1000)))) (f64 1000),
      js_MaxUs = fdiv (f64_of_u64 (jh_maxNs h)) (f64 1000)\<rparr>)"

definition DefaultT7AnomalyCapNs :: u64 where
  "DefaultT7AnomalyCapNs = 15000000000"

definition DefaultLateTaintRate :: float64 where
  "DefaultLateTaintRate = f64 (1 / 1000)"

section \<open>The reorder window\<close>

record invRec =
  ir_orderID :: string
  ir_flow :: Flow
  ir_tcpSeq :: u32
  ir_t3Ns :: u64
  ir_minT7Ns :: u64

record t7Reorderer =
  t7_window :: int
  t7_buf :: "invRec list"
  t7_watermark :: u64
  t7_started :: bool

definition newT7Reorderer :: "int \<Rightarrow> t7Reorderer" where
  "newT7Reorderer window = \<lparr>t7_window = (if window < 1 then 1 else window), t7_buf = [], t7_watermark = 0, t7_started = False\<rparr>"

definition sortInvRecs :: "invRec list \<Rightarrow> invRec list" where
  "sortInvRecs buf = sort_stable (\<lambda>a b. ir_minT7Ns a < ir_minT7Ns b) buf"

definition t7_advance :: "t7Reorderer \<Rightarrow> invRec \<Rightarrow> t7Reorderer" where
  "t7_advance r rec = (if ir_minT7Ns rec > t7_watermark r \<or> \<not> t7_started r
     then r\<lparr>t7_watermark := ir_minT7Ns rec, t7_started := True\<rparr> else r)"

definition t7_release :: "t7Reorderer \<Rightarrow> int \<Rightarrow> invRec list \<times> t7Reorderer" where
  "t7_release r n = (if n \<le> 0 \<or> t7_buf r = [] then ([], r)
     else let
       n1 = nat (if n > int (length (t7_buf r)) then int (length (t7_buf r)) else n);
       buf = sortInvRecs (t7_buf r)
     in (take n1 buf, (foldl t7_advance r (take n1 buf))\<lparr>t7_buf := drop n1 buf\<rparr>))"

definition t7_push :: "t7Reorderer \<Rightarrow> invRec \<Rightarrow> invRec list \<times> bool \<times> t7Reorderer" where
  "t7_push r rec = (if t7_started r \<and> ir_minT7Ns rec < t7_watermark r then ([], True, r)
     else let r1 = r\<lparr>t7_buf := t7_buf r @ [rec]\<rparr> in
       if int (length (t7_buf r1)) \<ge> 2 * t7_window r1
       then let (out, r2) = t7_release r1 (t7_window r1) in (out, False, r2)
       else ([], False, r1))"

definition t7_flush :: "t7Reorderer \<Rightarrow> invRec list \<times> t7Reorderer" where
  "t7_flush r = t7_release r (int (length (t7_buf r)))"

section \<open>The validator\<close>

record InvariantsValidator =
  iv_windowUs :: u64
  iv_rep :: Report
  iv_window :: t7Reorderer
  iv_lastSeq :: "Flow \<Rightarrow> u32"
  iv_lastSeqSet :: "Flow \<Rightarrow> bool"
  iv_max1T3 :: u64
  iv_max2T3 :: u64
  iv_max1Flow :: Flow
  iv_max1Set :: bool
  iv_max2Set :: bool
  iv_jitter :: jitterHistogram
  iv_processed :: u64
  iv_anomalyCapNs :: u64
  iv_lateTaintRate :: float64
  iv_applied :: u64
  iv_captureGaps :: u64

definition NewInvariantsValidatorWithWindow :: "u64 \<Rightarrow> int \<Rightarrow> InvariantsValidator" where
  "NewInvariantsValidatorWithWindow windowUs t7Window =
     \<lparr>iv_windowUs = (if windowUs = 0 then DefaultCrossFlowWindowUs else windowUs), iv_rep = zeroReport,
      iv_window = newT7Reorderer (if t7Window \<le> 0 then DefaultT7ReorderWindow else t7Window),
      iv_lastSeq = (\<lambda>_. 0), iv_lastSeqSet = (\<lambda>_. False), iv_max1T3 = 0, iv_max2T3 = 0, iv_max1Flow = zeroFlow,
      iv_max1Set = False, iv_max2Set = False, iv_jitter = newJitterHistogram, iv_processed = 0,
      iv_anomalyCapNs = DefaultT7AnomalyCapNs, iv_lateTaintRate = DefaultLateTaintRate, iv_applied = 0, iv_captureGaps = 0\<rparr>"

definition NewInvariantsValidator :: "u64 \<Rightarrow> InvariantsValidator" where
  "NewInvariantsValidator windowUs = NewInvariantsValidatorWithWindow windowUs DefaultT7ReorderWindow"

definition SetT7AnomalyCapNs :: "u64 \<Rightarrow> InvariantsValidator \<Rightarrow> InvariantsValidator" where
  "SetT7AnomalyCapNs capNs v = (if capNs > 0 then v\<lparr>iv_anomalyCapNs := capNs\<rparr> else v)"

definition SetLateTaintRate :: "float64 \<Rightarrow> InvariantsValidator \<Rightarrow> InvariantsValidator" where
  "SetLateTaintRate rate v = (if flt (Fin 0) rate then v\<lparr>iv_lateTaintRate := rate\<rparr> else v)"

definition seqLE :: "u32 \<Rightarrow> u32 \<Rightarrow> bool" where
  "seqLE a b \<longleftrightarrow> a = b \<or> int32 (a - b) < 0"

definition fifoCheck :: "invRec \<Rightarrow> InvariantsValidator \<Rightarrow> InvariantsValidator" where
  "fifoCheck rec v = (let
       v1 = (if iv_lastSeqSet v (ir_flow rec) \<and> seqLE (ir_tcpSeq rec) (iv_lastSeq v (ir_flow rec))
         then v\<lparr>iv_rep := add Time (ir_orderID rec) 0 0 (Detail ''out-of-order TCPSeq within one flow'')
           ((iv_rep v)\<lparr>TimeViolations := TimeViolations (iv_rep v) + 1\<rparr>)\<rparr>
         else v)
     in v1\<lparr>iv_lastSeq := (iv_lastSeq v1)(ir_flow rec := ir_tcpSeq rec), iv_lastSeqSet := (iv_lastSeqSet v1)(ir_flow rec := True)\<rparr>)"

definition candidate :: "InvariantsValidator \<Rightarrow> Flow \<Rightarrow> u64 \<times> bool" where
  "candidate v f = (if iv_max1Set v \<and> f = iv_max1Flow v then (iv_max2T3 v, iv_max2Set v) else (iv_max1T3 v, iv_max1Set v))"

definition crossCheck :: "invRec \<Rightarrow> InvariantsValidator \<Rightarrow> InvariantsValidator" where
  "crossCheck rec v = (let (candT3, candSet) = candidate v (ir_flow rec) in
     if candSet then
       let (isInv, violation, jitterNs) = CrossFlowPredicate (ir_t3Ns rec) candT3 (iv_windowUs v) in
       if isInv then
         let v1 = v\<lparr>iv_jitter := jh_record jitterNs (iv_jitter v)\<rparr> in
         if violation then v1\<lparr>iv_rep := add Time (ir_orderID rec) 0 0
             (Detail ''cross-flow processed after a later-arriving order beyond window W'')
             ((iv_rep v1)\<lparr>TimeViolations := TimeViolations (iv_rep v1) + 1\<rparr>)\<rparr>
         else v1
       else v
     else v)"

definition trackMax :: "invRec \<Rightarrow> InvariantsValidator \<Rightarrow> InvariantsValidator" where
  "trackMax rec v = (if \<not> iv_max1Set v \<or> ir_t3Ns rec > iv_max1T3 v
     then let v1 = (if iv_max1Set v \<and> iv_max1Flow v \<noteq> ir_flow rec \<and> (\<not> iv_max2Set v \<or> iv_max1T3 v > iv_max2T3 v)
           then v\<lparr>iv_max2T3 := iv_max1T3 v, iv_max2Set := True\<rparr> else v)
       in v1\<lparr>iv_max1T3 := ir_t3Ns rec, iv_max1Flow := ir_flow rec, iv_max1Set := True\<rparr>
     else if ir_flow rec \<noteq> iv_max1Flow v \<and> (\<not> iv_max2Set v \<or> ir_t3Ns rec > iv_max2T3 v)
     then v\<lparr>iv_max2T3 := ir_t3Ns rec, iv_max2Set := True\<rparr>
     else v)"

definition onEmit :: "InvariantsValidator \<Rightarrow> invRec \<Rightarrow> InvariantsValidator" where
  "onEmit v rec = trackMax rec (crossCheck rec (fifoCheck rec (v\<lparr>iv_processed := iv_processed v + 1\<rparr>)))"

definition onLate :: "InvariantsValidator \<Rightarrow> InvariantsValidator" where
  "onLate v = v\<lparr>iv_rep := (iv_rep v)\<lparr>T7ReorderLate := T7ReorderLate (iv_rep v) + 1\<rparr>\<rparr>"

text \<open>The two loops over the responses of an order in \<open>Apply\<close>.\<close>

definition countFill :: "Order \<Rightarrow> u64 \<times> Report \<Rightarrow> Response \<Rightarrow> u64 \<times> Report" where
  "countFill o' = (\<lambda>(cumFilled, rep) resp. if \<not> isFill (ExecType resp) (FillQty resp) then (cumFilled, rep)
     else let rep1 = rep\<lparr>TotalFills := TotalFills rep + 1\<rparr>; cum1 = cumFilled + FillQty resp in
       (cum1, if cum1 > o_Qty o'
         then add Overfill (o_OrderID o') (FillQty resp) (int64 (FillPrice resp))
           (Detail ''cumulative reported fill qty exceeds order qty (book-free own-qty check)'')
           (rep1\<lparr>Overfills := Overfills rep1 + 1\<rparr>)
         else rep1\<lparr>ValidFills := ValidFills rep1 + 1\<rparr>))"

definition firstT7 :: "u64 \<Rightarrow> u64 \<Rightarrow> u64 option \<times> u64 \<Rightarrow> Response \<Rightarrow> u64 option \<times> u64" where
  "firstT7 t3Ns capNs = (\<lambda>(minT7, anomalies) resp.
     if T7Ns resp = 0 then (minT7, anomalies)
     else if T7Ns resp < t3Ns \<or> T7Ns resp - t3Ns > capNs then (minT7, anomalies + 1)
     else (case minT7 of None \<Rightarrow> (Some (T7Ns resp), anomalies)
       | Some mt \<Rightarrow> (if T7Ns resp < mt then (Some (T7Ns resp), anomalies) else (minT7, anomalies))))"

definition Apply_iv :: "InvariantsValidator \<Rightarrow> Order \<Rightarrow> InvariantsValidator" where
  "Apply_iv v o' = (let
       (cumFilled, rep) = foldl (countFill o') (0, iv_rep v) (o_Responses o');
       (minT7, anomalies) = foldl (firstT7 (o_T3Ns o') (iv_anomalyCapNs v)) (None, T7Anomalies rep) (o_Responses o');
       rep1 = rep\<lparr>T7Anomalies := anomalies\<rparr>
     in case minT7 of
       None \<Rightarrow> let rep2 = add (lostViolationType (o_Kind o')) (o_OrderID o') 0 0
             (Detail ''order/cancel sent but never received any response'') rep1 in
           v\<lparr>iv_rep := (if o_Kind o' = Cancel then rep2\<lparr>LostCancels := LostCancels rep2 + 1\<rparr>
             else rep2\<lparr>rep_LostOrders := rep_LostOrders rep2 + 1\<rparr>)\<rparr>
     | Some mt \<Rightarrow> let
         v1 = v\<lparr>iv_rep := rep1, iv_applied := iv_applied v + 1\<rparr>;
         (out, late, w) = t7_push (iv_window v1) \<lparr>ir_orderID = o_OrderID o', ir_flow = o_Flow o', ir_tcpSeq = o_TCPSeq o',
            ir_t3Ns = o_T3Ns o', ir_minT7Ns = mt\<rparr>;
         v2 = v1\<lparr>iv_window := w\<rparr>
       in if late then onLate v2 else foldl onEmit v2 out)"

definition AddUnmatched :: "InvariantsValidator \<Rightarrow> string \<Rightarrow> u64 \<Rightarrow> i64 \<Rightarrow> InvariantsValidator" where
  "AddUnmatched v i q p = v\<lparr>iv_rep := (iv_rep v)\<lparr>PhantomFills := PhantomFills (iv_rep v) + 1\<rparr>\<rparr>"

definition AddCaptureGap_iv :: "InvariantsValidator \<Rightarrow> InvariantsValidator" where
  "AddCaptureGap_iv v = v\<lparr>iv_captureGaps := iv_captureGaps v + 1\<rparr>"

definition AddLost_iv :: "InvariantsValidator \<Rightarrow> string \<Rightarrow> Kind \<Rightarrow> InvariantsValidator" where
  "AddLost_iv v oid kind = (let r = iv_rep v;
       r1 = (if kind = Cancel then r\<lparr>LostCancels := LostCancels r + 1\<rparr> else r\<lparr>rep_LostOrders := rep_LostOrders r + 1\<rparr>)
     in v\<lparr>iv_rep := add (lostViolationType kind) oid 0 0 (Detail ''order/cancel sent but never received any response'') r1\<rparr>)"

definition Finish_iv :: "InvariantsValidator \<Rightarrow> Report" where
  "Finish_iv v = (let
       (out, w) = t7_flush (iv_window v);
       v1 = foldl onEmit (v\<lparr>iv_window := w\<rparr>) out;
       r = (iv_rep v1)\<lparr>Jitter := stats (iv_jitter v1) (iv_processed v1), ScoredFills := TotalFills (iv_rep v1),
          ScoredOrders := iv_applied v1 + rep_LostOrders (iv_rep v1) + LostCancels (iv_rep v1)\<rparr>;
       suspect = T7ReorderLate r + T7Anomalies r;
       r1 = (if iv_applied v1 > 0 \<and> flt (iv_lateTaintRate v1) (fdiv (f64_of_u64 suspect) (f64_of_u64 (iv_applied v1)))
         then r\<lparr>Tainted := True, TaintReason := T7Unreliable (T7ReorderLate r) (T7Anomalies r) (iv_applied v1) (iv_lateTaintRate v1)\<rparr>
         else r)
     in gapTaint CaptureLostGrading (iv_captureGaps v1) (r1\<lparr>rep_CaptureGaps := iv_captureGaps v1\<rparr>))"

text \<open>The calls of the session source in invariants mode.\<close>

definition handleInv :: "InvariantsValidator \<Rightarrow> Callback \<Rightarrow> InvariantsValidator" where
  "handleInv v c = (case c of
     Apply o' \<Rightarrow> Apply_iv v o'
   | AddPhantom i q p \<Rightarrow> AddUnmatched v i q p
   | AddLost i k \<Rightarrow> AddLost_iv v i k
   | AddCaptureGap \<Rightarrow> AddCaptureGap_iv v)"

end
