(* ===== verification/Invariants_Props.thy ===== *)
theory Invariants_Props
  imports Invariants FullMode
begin

text \<open>
  Correctness of the book-free validator. The window emits a stable sort by first response
  time (\<open>t7inv\<close>), the constant-size cross-flow tracker equals the maximum over all other
  flows (\<open>trackInv\<close>), the histogram's percentiles are bucket bounds of the true order
  statistics, and the report of a whole session is characterised exactly.
\<close>

section \<open>The reorder window\<close>

abbreviation t7le :: "invRec \<Rightarrow> invRec \<Rightarrow> bool" where
  "t7le a b \<equiv> ir_minT7Ns a \<le> ir_minT7Ns b"

lemma sortInvRecs_facts [simp]: "set (sortInvRecs xs) = set xs" "length (sortInvRecs xs) = length xs" "mset (sortInvRecs xs) = mset xs"
  by (simp_all add: sortInvRecs_def)

lemma sorted_sortInvRecs: "sorted_wrt t7le (sortInvRecs xs)"
proof -
  have "strict_weak_on (set xs) (\<lambda>a b. ir_minT7Ns a < ir_minT7Ns b)" by (auto simp: strict_weak_on_def)
  from sorted_sort_stable [OF this] show ?thesis by (simp add: sortInvRecs_def not_less)
qed

lemma sortInvRecs_id: "sorted_wrt t7le xs \<Longrightarrow> sortInvRecs xs = xs"
  by (simp add: sortInvRecs_def sort_stable_id not_less)

lemma foldl_t7_advance:
  assumes "sorted_wrt t7le xs" "t7_started r \<Longrightarrow> \<forall>x\<in>set xs. t7_watermark r \<le> ir_minT7Ns x" "xs \<noteq> []"
  shows "t7_started (foldl t7_advance r xs) \<and> t7_watermark (foldl t7_advance r xs) = ir_minT7Ns (last xs) \<and>
    t7_window (foldl t7_advance r xs) = t7_window r"
  using assms
proof (induction xs arbitrary: r)
  case (Cons x xs)
  have a: "t7_started (t7_advance r x)" "t7_watermark (t7_advance r x) = ir_minT7Ns x" "t7_window (t7_advance r x) = t7_window r"
    using Cons.prems(2) by (auto simp: t7_advance_def)
  show ?case using Cons.IH [of "t7_advance r x"] Cons.prems(1) a by (cases "xs = []") auto
qed simp

text \<open>After accepting \<open>acc\<close> and emitting \<open>out\<close>.\<close>

definition t7inv :: "invRec list \<Rightarrow> invRec list \<Rightarrow> t7Reorderer \<Rightarrow> bool" where
  "t7inv acc out r \<longleftrightarrow> 1 \<le> t7_window r \<and> int (length (t7_buf r)) < 2 * t7_window r \<and>
     sortInvRecs acc = out @ sortInvRecs (t7_buf r) \<and> (t7_started r \<longleftrightarrow> out \<noteq> []) \<and>
     (out \<noteq> [] \<longrightarrow> t7_watermark r = ir_minT7Ns (last out) \<and> t7_window r \<le> int (length (t7_buf r)))"

lemma t7inv_sorted:
  assumes "t7inv acc out r"
  shows "sorted_wrt t7le out" "\<And>a b. a \<in> set out \<Longrightarrow> b \<in> set (t7_buf r) \<Longrightarrow> t7le a b" "\<And>a. a \<in> set out \<Longrightarrow> t7le a (last out)"
proof -
  have s: "sorted_wrt t7le (out @ sortInvRecs (t7_buf r))" using assms sorted_sortInvRecs [of acc] by (simp add: t7inv_def)
  then show "sorted_wrt t7le out" "\<And>a b. a \<in> set out \<Longrightarrow> b \<in> set (t7_buf r) \<Longrightarrow> t7le a b" by (auto simp: sorted_wrt_append)
  fix a assume "a \<in> set out"
  then have "out = butlast out @ [last out]" by (metis append_butlast_last_id empty_iff empty_set)
  moreover have "sorted_wrt t7le (butlast out @ [last out])" using calculation \<open>sorted_wrt t7le out\<close> by simp
  ultimately show "t7le a (last out)" using \<open>a \<in> set out\<close>
    by (metis (no_types, lifting) Un_iff list.set_intros(1) order_refl set_ConsD set_append sorted_wrt_append empty_iff empty_set)
qed

lemma t7_release_inv:
  assumes inv: "sortInvRecs acc = out @ sortInvRecs (t7_buf r)" "t7_started r \<longleftrightarrow> out \<noteq> []"
      "out \<noteq> [] \<longrightarrow> t7_watermark r = ir_minT7Ns (last out)"
    and n: "0 < n" "n \<le> int (length (t7_buf r))" and rel: "t7_release r n = (o1, r1)"
  shows "length o1 = nat n" "sortInvRecs acc = (out @ o1) @ sortInvRecs (t7_buf r1)" "t7_started r1"
    "t7_watermark r1 = ir_minT7Ns (last (out @ o1))" "t7_window r1 = t7_window r" "length (t7_buf r1) = length (t7_buf r) - nat n"
proof -
  let ?s = "sortInvRecs (t7_buf r)"
  have ne: "t7_buf r \<noteq> []" using n by auto
  have o1: "o1 = take (nat n) ?s" and r1: "r1 = (foldl t7_advance r o1)\<lparr>t7_buf := drop (nat n) ?s\<rparr>"
    using rel n ne by (auto simp: t7_release_def Let_def)
  have len: "length o1 = nat n" using o1 n by simp
  have o1ne: "o1 \<noteq> []" using len n by auto
  have all: "sorted_wrt t7le (out @ ?s)" using sorted_sortInvRecs [of acc] inv(1) by simp
  have s: "sorted_wrt t7le o1" "sorted_wrt t7le (drop (nat n) ?s)"
    using sorted_sortInvRecs [of "t7_buf r"] o1 by (auto simp: sorted_wrt_take sorted_wrt_drop)
  have "\<forall>x\<in>set o1. t7_watermark r \<le> ir_minT7Ns x" if "t7_started r"
    using all that inv(2,3) last_in_set [of out] by (auto simp: o1 sorted_wrt_append dest!: in_set_takeD)
  note adv = foldl_t7_advance [OF s(1) this o1ne]
  show "length o1 = nat n" by (fact len)
  show "sortInvRecs acc = (out @ o1) @ sortInvRecs (t7_buf r1)" using inv(1) s(2) by (simp add: r1 o1 sortInvRecs_id)
  show "t7_started r1" "t7_watermark r1 = ir_minT7Ns (last (out @ o1))" "t7_window r1 = t7_window r"
    using adv o1ne by (simp_all add: r1)
  show "length (t7_buf r1) = length (t7_buf r) - nat n" by (simp add: r1)
qed

lemma t7_push_inv:
  assumes inv: "t7inv acc out r" and p: "t7_push r x = (o1, late, r1)"
  shows "if late then o1 = [] \<and> r1 = r \<and> t7_window r < int (length (filter (\<lambda>y. ir_minT7Ns x < ir_minT7Ns y) acc))
    else t7inv (acc @ [x]) (out @ o1) r1" "t7_window r1 = t7_window r"
proof -
  note I = inv [unfolded t7inv_def]
  have *: "(if late then o1 = [] \<and> r1 = r \<and> t7_window r < int (length (filter (\<lambda>y. ir_minT7Ns x < ir_minT7Ns y) acc))
    else t7inv (acc @ [x]) (out @ o1) r1) \<and> t7_window r1 = t7_window r"
  proof (cases "t7_started r \<and> ir_minT7Ns x < t7_watermark r")
    case True
    let ?P = "\<lambda>y. ir_minT7Ns x < ir_minT7Ns y"
    have out: "out \<noteq> []" "?P (last out)" using True I by auto
    then have "?P y" if "y \<in> set (t7_buf r)" for y using t7inv_sorted(2) [OF inv _ that, of "last out"] by auto
    then have b: "filter ?P (t7_buf r) = t7_buf r" by (simp add: filter_id_conv)
    have "size (filter_mset ?P (mset acc)) = size (filter_mset ?P (mset out + mset (t7_buf r)))"
      using arg_cong [OF conjunct1 [OF conjunct2 [OF conjunct2 [OF I]]], of mset] by simp
    then have "length (filter ?P acc) = length (filter ?P out) + length (t7_buf r)"
      using b by (simp flip: mset_filter)
    moreover have "filter ?P out \<noteq> []" using out by (auto simp: filter_empty_conv intro: last_in_set)
    ultimately have "t7_window r < int (length (filter ?P acc))" using I out(1) by (cases "filter ?P out") auto
    then show ?thesis using p True by (auto simp: t7_push_def)
  next
    case False
    let ?r = "r\<lparr>t7_buf := t7_buf r @ [x]\<rparr>"
    have "\<not> ir_minT7Ns x < ir_minT7Ns e" if "e \<in> set out" for e
      using that False I t7inv_sorted(3) [OF inv that] by auto
    then have s: "sortInvRecs (acc @ [x]) = out @ sortInvRecs (t7_buf ?r)"
      using sort_stable_snoc [of "\<lambda>a b. ir_minT7Ns a < ir_minT7Ns b" acc out "t7_buf r" x] I by (simp add: sortInvRecs_def)
    show ?thesis
    proof (cases "int (length (t7_buf ?r)) \<ge> 2 * t7_window ?r")
      case full: True
      obtain o2 r2 where rel: "t7_release ?r (t7_window ?r) = (o2, r2)" by fastforce
      have eq: "o1 = o2" "late = False" "r1 = r2" using p False full rel by (auto simp: t7_push_def Let_def)
      have len: "int (length (t7_buf ?r)) = 2 * t7_window r" using full I by simp
      note R = t7_release_inv [OF s _ _ _ _ rel]
      have "t7inv (acc @ [x]) (out @ o2) r2"
        using R I len by (auto simp: t7inv_def)
      then show ?thesis using eq R I len by auto
    next
      case False
      then show ?thesis using p \<open>\<not> (t7_started r \<and> ir_minT7Ns x < t7_watermark r)\<close> s I by (auto simp: t7_push_def Let_def t7inv_def)
    qed
  qed
  then show "if late then o1 = [] \<and> r1 = r \<and> t7_window r < int (length (filter (\<lambda>y. ir_minT7Ns x < ir_minT7Ns y) acc))
    else t7inv (acc @ [x]) (out @ o1) r1" "t7_window r1 = t7_window r" by blast+
qed

section \<open>The order checks\<close>

text \<open>
  The reference semantics over the whole processing order \<open>xs\<close>: the order at position \<open>i\<close>
  breaches per-flow order when its sequence number does not exceed that of the order of its
  flow processed last, and cross-flow order when an order of another flow that arrived more
  than the window later was processed before it.
\<close>

definition others :: "Flow \<Rightarrow> invRec list \<Rightarrow> u64 set" where
  "others f xs = ir_t3Ns ` {y \<in> set xs. ir_flow y \<noteq> f}"

definition lastSeqOf :: "Flow \<Rightarrow> invRec list \<Rightarrow> u32 option" where
  "lastSeqOf f xs = map_option ir_tcpSeq (find (\<lambda>y. ir_flow y = f) (rev xs))"

definition fifoBreach :: "invRec list \<Rightarrow> invRec \<Rightarrow> bool" where
  "fifoBreach xs x = (case lastSeqOf (ir_flow x) xs of None \<Rightarrow> False | Some s \<Rightarrow> seqLE (ir_tcpSeq x) s)"

definition crossBreach :: "u64 \<Rightarrow> invRec list \<Rightarrow> invRec \<Rightarrow> bool" where
  "crossBreach W xs x = (\<exists>t\<in>others (ir_flow x) xs. ir_t3Ns x < t \<and> W * 1000 < t - ir_t3Ns x)"

definition gapOf :: "invRec list \<Rightarrow> invRec \<Rightarrow> u64 list" where
  "gapOf xs x = (let A = others (ir_flow x) xs in
     if A \<noteq> {} \<and> ir_t3Ns x < Max A then [Max A - ir_t3Ns x] else [])"

definition breachOf :: "u64 \<Rightarrow> invRec list \<Rightarrow> invRec \<Rightarrow> string list" where
  "breachOf W xs x = (if fifoBreach xs x then [ir_orderID x] else []) @ (if crossBreach W xs x then [ir_orderID x] else [])"

definition overPrefixes :: "('a list \<Rightarrow> 'a \<Rightarrow> 'b list) \<Rightarrow> 'a list \<Rightarrow> 'b list" where
  "overPrefixes f xs = concat (map (\<lambda>i. f (take i xs) (xs ! i)) [0..<length xs])"

definition breaches :: "u64 \<Rightarrow> invRec list \<Rightarrow> string list" where
  "breaches W xs = overPrefixes (breachOf W) xs"

definition gaps :: "invRec list \<Rightarrow> u64 list" where
  "gaps xs = overPrefixes gapOf xs"

lemma overPrefixes_snoc: "overPrefixes f (xs @ [x]) = overPrefixes f xs @ f xs x"
proof -
  have eq: "map (\<lambda>i. f (take i (xs @ [x])) ((xs @ [x]) ! i)) [0..<length xs] = map (\<lambda>i. f (take i xs) (xs ! i)) [0..<length xs]"
    by (rule map_cong) (auto simp: nth_append)
  show ?thesis unfolding overPrefixes_def length_append_singleton upt_Suc_append [OF le0] map_append concat_append eq by simp
qed

lemma overPrefixes_Nil [simp]: "overPrefixes f [] = []"
  by (simp add: overPrefixes_def)

lemma others_snoc: "others f (xs @ [x]) = (if ir_flow x = f then others f xs else insert (ir_t3Ns x) (others f xs))"
  by (auto simp: others_def)

lemma others_Nil [simp]: "others f [] = {}"
  by (simp add: others_def)

lemma finite_others [simp]: "finite (others f xs)"
  by (simp add: others_def)

lemma lastSeqOf_snoc: "lastSeqOf f (xs @ [x]) = (if ir_flow x = f then Some (ir_tcpSeq x) else lastSeqOf f xs)"
  by (simp add: lastSeqOf_def)

text \<open>A flag and a value that together hold the maximum of a set.\<close>

definition isMax :: "bool \<Rightarrow> u64 \<Rightarrow> u64 set \<Rightarrow> bool" where
  "isMax b m A \<longleftrightarrow> (if b then m \<in> A \<and> (\<forall>a\<in>A. a \<le> m) else A = {})"

definition trackInv :: "invRec list \<Rightarrow> InvariantsValidator \<Rightarrow> bool" where
  "trackInv xs v \<longleftrightarrow>
     (\<forall>f. lastSeqOf f xs = (if iv_lastSeqSet v f then Some (iv_lastSeq v f) else None)) \<and>
     (if iv_max1Set v then (\<exists>y\<in>set xs. ir_flow y = iv_max1Flow v \<and> ir_t3Ns y = iv_max1T3 v) \<and> (\<forall>y\<in>set xs. ir_t3Ns y \<le> iv_max1T3 v)
        \<and> isMax (iv_max2Set v) (iv_max2T3 v) (others (iv_max1Flow v) xs)
      else xs = [] \<and> \<not> iv_max2Set v)"

lemma candidate_max:
  assumes "trackInv xs v"
  shows "isMax (snd (candidate v f)) (fst (candidate v f)) (others f xs)"
proof (cases "iv_max1Set v")
  case True
  show ?thesis
  proof (cases "f = iv_max1Flow v")
    case False
    obtain y where y: "y \<in> set xs" "ir_flow y = iv_max1Flow v" "ir_t3Ns y = iv_max1T3 v" using assms True by (auto simp: trackInv_def)
    then have "iv_max1T3 v \<in> others f xs" using False unfolding others_def by (intro image_eqI [of _ _ y]) auto
    moreover have "\<forall>a\<in>others f xs. a \<le> iv_max1T3 v" using assms True by (auto simp: trackInv_def others_def)
    ultimately show ?thesis using True False by (simp add: candidate_def isMax_def)
  qed (use assms True in \<open>simp add: candidate_def trackInv_def\<close>)
next
  case False
  then show ?thesis using assms by (simp add: candidate_def trackInv_def isMax_def)
qed

lemma trackMax_inv:
  fixes x v
  assumes "if iv_max1Set v then (\<exists>y\<in>set xs. ir_flow y = iv_max1Flow v \<and> ir_t3Ns y = iv_max1T3 v) \<and> (\<forall>y\<in>set xs. ir_t3Ns y \<le> iv_max1T3 v)
        \<and> isMax (iv_max2Set v) (iv_max2T3 v) (others (iv_max1Flow v) xs)
      else xs = [] \<and> \<not> iv_max2Set v"
  defines "w \<equiv> trackMax x v"
  shows "iv_max1Set w \<and> (\<exists>y\<in>set (xs @ [x]). ir_flow y = iv_max1Flow w \<and> ir_t3Ns y = iv_max1T3 w) \<and>
    (\<forall>y\<in>set (xs @ [x]). ir_t3Ns y \<le> iv_max1T3 w) \<and> isMax (iv_max2Set w) (iv_max2T3 w) (others (iv_max1Flow w) (xs @ [x]))"
proof -
  consider "\<not> iv_max1Set v" | "iv_max1Set v" "ir_t3Ns x > iv_max1T3 v" "iv_max1Flow v = ir_flow x"
    | "iv_max1Set v" "ir_t3Ns x > iv_max1T3 v" "iv_max1Flow v \<noteq> ir_flow x"
    | "iv_max1Set v" "ir_t3Ns x \<le> iv_max1T3 v" "iv_max1Flow v = ir_flow x"
    | "iv_max1Set v" "ir_t3Ns x \<le> iv_max1T3 v" "iv_max1Flow v \<noteq> ir_flow x" by fastforce
  then show ?thesis
  proof cases
    case 3
    then obtain y where y: "y \<in> set xs" "ir_flow y = iv_max1Flow v" "ir_t3Ns y = iv_max1T3 v" using assms(1) by auto
    have "iv_max1T3 v \<in> others (ir_flow x) xs" using y 3 unfolding others_def by (intro image_eqI [of _ _ y]) auto
    moreover have "\<forall>a\<in>others (ir_flow x) xs. a \<le> iv_max1T3 v" using assms(1) 3 by (auto simp: others_def)
    moreover have "iv_max2Set v \<Longrightarrow> iv_max2T3 v \<le> iv_max1T3 v" using assms(1) 3 by (auto simp: isMax_def others_def)
    moreover have "\<forall>y\<in>set (xs @ [x]). ir_t3Ns y \<le> ir_t3Ns x" using assms(1) 3 by fastforce
    ultimately show ?thesis using 3 by (auto simp: w_def trackMax_def isMax_def others_snoc)
  next
    case 1
    then show ?thesis using assms(1) by (auto simp: w_def trackMax_def isMax_def others_def)
  next
    case 2
    moreover have "\<forall>y\<in>set (xs @ [x]). ir_t3Ns y \<le> ir_t3Ns x" using assms(1) 2 by fastforce
    ultimately show ?thesis using assms(1) by (auto simp: w_def trackMax_def isMax_def others_snoc)
  next
    case 4
    then show ?thesis using assms(1) by (auto simp: w_def trackMax_def others_snoc not_less)
  next
    case 5
    have "isMax True (ir_t3Ns x) (insert (ir_t3Ns x) (others (iv_max1Flow v) xs))" if "\<not> iv_max2Set v \<or> ir_t3Ns x > iv_max2T3 v"
      using assms(1) 5 that by (cases "iv_max2Set v") (fastforce simp: isMax_def)+
    then show ?thesis using assms(1) 5 by (auto simp: w_def trackMax_def others_snoc not_less) (auto simp: isMax_def split: if_splits)
  qed
qed

lemma crossCheck_cases:
  assumes "isMax (snd (candidate v (ir_flow x))) (fst (candidate v (ir_flow x))) (others (ir_flow x) xs)"
  shows "iv_jitter (crossCheck x v) = fold jh_record (gapOf xs x) (iv_jitter v)"
    "TimeViolations (iv_rep (crossCheck x v)) = TimeViolations (iv_rep v) + (if crossBreach (iv_windowUs v) xs x then 1 else 0)"
    "dirtyByOrder (iv_rep (crossCheck x v)) = (if crossBreach (iv_windowUs v) xs x then {ir_orderID x} else {}) \<union> dirtyByOrder (iv_rep v)"
    "report_inv (iv_rep v) \<Longrightarrow> report_inv (iv_rep (crossCheck x v))"
proof -
  let ?A = "others (ir_flow x) xs" and ?W = "iv_windowUs v"
  obtain m b where c: "candidate v (ir_flow x) = (m, b)" by fastforce
  have "iv_jitter (crossCheck x v) = fold jh_record (gapOf xs x) (iv_jitter v) \<and>
    TimeViolations (iv_rep (crossCheck x v)) = TimeViolations (iv_rep v) + (if crossBreach ?W xs x then 1 else 0) \<and>
    dirtyByOrder (iv_rep (crossCheck x v)) = (if crossBreach ?W xs x then {ir_orderID x} else {}) \<union> dirtyByOrder (iv_rep v) \<and>
    (report_inv (iv_rep v) \<longrightarrow> report_inv (iv_rep (crossCheck x v)))"
  proof (cases b)
    case False
    then have "?A = {}" using assms c by (simp add: isMax_def)
    then show ?thesis using c False by (simp add: crossCheck_def gapOf_def crossBreach_def)
  next
    case True
    then have m: "m \<in> ?A" "\<forall>a\<in>?A. a \<le> m" using assms c by (auto simp: isMax_def)
    have Max: "Max ?A = m" using m by (intro Max_eqI) auto
    have cross: "crossBreach ?W xs x \<longleftrightarrow> ir_t3Ns x < m \<and> ?W * 1000 < m - ir_t3Ns x"
    proof
      assume "crossBreach ?W xs x"
      then obtain t where t: "t \<in> ?A" "ir_t3Ns x < t" "?W * 1000 < t - ir_t3Ns x" by (auto simp: crossBreach_def)
      then have "t \<le> m" using m by blast
      moreover have "t - ir_t3Ns x \<le> m - ir_t3Ns x"
        using t(2) calculation by (simp add: word_le_nat_alt word_less_nat_alt unat_sub)
      ultimately show "ir_t3Ns x < m \<and> ?W * 1000 < m - ir_t3Ns x" using t by auto
    qed (use m in \<open>auto simp: crossBreach_def\<close>)
    show ?thesis
    proof (cases "ir_t3Ns x < m")
      case lt: True
      then have g: "gapOf xs x = [m - ir_t3Ns x]" using m Max by (auto simp: gapOf_def Let_def)
      have p: "CrossFlowPredicate (ir_t3Ns x) m ?W = (True, ?W * 1000 < m - ir_t3Ns x, m - ir_t3Ns x)"
        using lt by (simp add: CrossFlowPredicate_def Let_def leD)
      show ?thesis using lt True by (simp add: crossCheck_def c p g cross report report_inv_add)
    next
      case False
      then have "gapOf xs x = []" "CrossFlowPredicate (ir_t3Ns x) m ?W = (False, False, 0)"
        using Max by (simp_all add: gapOf_def Let_def CrossFlowPredicate_def not_less)
      then show ?thesis using True False by (simp add: crossCheck_def c cross)
    qed
  qed
  then show "iv_jitter (crossCheck x v) = fold jh_record (gapOf xs x) (iv_jitter v)"
    "TimeViolations (iv_rep (crossCheck x v)) = TimeViolations (iv_rep v) + (if crossBreach (iv_windowUs v) xs x then 1 else 0)"
    "dirtyByOrder (iv_rep (crossCheck x v)) = (if crossBreach (iv_windowUs v) xs x then {ir_orderID x} else {}) \<union> dirtyByOrder (iv_rep v)"
    "report_inv (iv_rep v) \<Longrightarrow> report_inv (iv_rep (crossCheck x v))" by blast+
qed

text \<open>What the checks leave alone.\<close>

lemma trackMax_frame [simp]:
  "iv_rep (trackMax x v) = iv_rep v" "iv_jitter (trackMax x v) = iv_jitter v" "iv_processed (trackMax x v) = iv_processed v"
  "iv_windowUs (trackMax x v) = iv_windowUs v" "iv_lastSeq (trackMax x v) = iv_lastSeq v" "iv_lastSeqSet (trackMax x v) = iv_lastSeqSet v"
  by (simp_all add: trackMax_def Let_def)

lemma crossCheck_frame [simp]:
  "iv_windowUs (crossCheck x v) = iv_windowUs v" "iv_lastSeq (crossCheck x v) = iv_lastSeq v" "iv_lastSeqSet (crossCheck x v) = iv_lastSeqSet v"
  "iv_max1T3 (crossCheck x v) = iv_max1T3 v" "iv_max2T3 (crossCheck x v) = iv_max2T3 v" "iv_max1Flow (crossCheck x v) = iv_max1Flow v"
  "iv_max1Set (crossCheck x v) = iv_max1Set v" "iv_max2Set (crossCheck x v) = iv_max2Set v" "iv_processed (crossCheck x v) = iv_processed v"
  by (simp_all add: crossCheck_def Let_def split: prod.split)

lemma fifoCheck_frame [simp]:
  "iv_windowUs (fifoCheck x v) = iv_windowUs v" "iv_max1T3 (fifoCheck x v) = iv_max1T3 v" "iv_max2T3 (fifoCheck x v) = iv_max2T3 v"
  "iv_max1Flow (fifoCheck x v) = iv_max1Flow v" "iv_max1Set (fifoCheck x v) = iv_max1Set v" "iv_max2Set (fifoCheck x v) = iv_max2Set v"
  "iv_processed (fifoCheck x v) = iv_processed v" "iv_jitter (fifoCheck x v) = iv_jitter v"
  "iv_lastSeq (fifoCheck x v) = (iv_lastSeq v)(ir_flow x := ir_tcpSeq x)" "iv_lastSeqSet (fifoCheck x v) = (iv_lastSeqSet v)(ir_flow x := True)"
  by (simp_all add: fifoCheck_def Let_def)

definition emInv :: "string set \<Rightarrow> u64 \<Rightarrow> invRec list \<Rightarrow> InvariantsValidator \<Rightarrow> bool" where
  "emInv D W xs v \<longleftrightarrow> trackInv xs v \<and> iv_windowUs v = W \<and> report_inv (iv_rep v) \<and>
     TimeViolations (iv_rep v) = of_nat (length (breaches W xs)) \<and> dirtyByOrder (iv_rep v) = D \<union> set (breaches W xs) \<and>
     iv_jitter v = fold jh_record (gaps xs) newJitterHistogram \<and> iv_processed v = of_nat (length xs)"

lemma onEmit_inv:
  assumes "emInv D W xs v"
  shows "emInv D W (xs @ [x]) (onEmit v x)"
proof -
  let ?v0 = "v\<lparr>iv_processed := iv_processed v + 1\<rparr>"
  let ?v1 = "fifoCheck x ?v0"
  let ?v2 = "crossCheck x ?v1"
  have I: "trackInv xs v" "iv_windowUs v = W" "report_inv (iv_rep v)" "TimeViolations (iv_rep v) = of_nat (length (breaches W xs))"
    "dirtyByOrder (iv_rep v) = D \<union> set (breaches W xs)" "iv_jitter v = fold jh_record (gaps xs) newJitterHistogram"
    "iv_processed v = of_nat (length xs)" using assms by (simp_all add: emInv_def)
  have fb: "fifoBreach xs x \<longleftrightarrow> iv_lastSeqSet v (ir_flow x) \<and> seqLE (ir_tcpSeq x) (iv_lastSeq v (ir_flow x))"
    using I(1) by (simp add: trackInv_def fifoBreach_def)
  have f: "TimeViolations (iv_rep ?v1) = TimeViolations (iv_rep v) + (if fifoBreach xs x then 1 else 0)"
    "dirtyByOrder (iv_rep ?v1) = (if fifoBreach xs x then {ir_orderID x} else {}) \<union> dirtyByOrder (iv_rep v)"
    "report_inv (iv_rep ?v1)" using I(3) by (auto simp: fifoCheck_def Let_def fb report report_inv_add)
  have "candidate ?v1 (ir_flow x) = candidate v (ir_flow x)" by (simp add: candidate_def)
  then have "isMax (snd (candidate ?v1 (ir_flow x))) (fst (candidate ?v1 (ir_flow x))) (others (ir_flow x) xs)"
    using candidate_max [OF I(1)] by simp
  note c = crossCheck_cases [OF this]
  have l: "length (breaches W (xs @ [x])) = length (breaches W xs) + (if fifoBreach xs x then 1 else 0) + (if crossBreach W xs x then 1 else 0)"
    "set (breaches W (xs @ [x])) = set (breaches W xs) \<union> (if fifoBreach xs x then {ir_orderID x} else {}) \<union> (if crossBreach W xs x then {ir_orderID x} else {})"
    by (simp_all add: breaches_def overPrefixes_snoc breachOf_def)
  have r: "iv_rep (onEmit v x) = iv_rep ?v2" by (simp add: onEmit_def)
  have t: "TimeViolations (iv_rep (onEmit v x)) = of_nat (length (breaches W (xs @ [x])))"
    unfolding r l(1) c(2) f(1) I(4) using I(2) by simp
  have d: "dirtyByOrder (iv_rep (onEmit v x)) = D \<union> set (breaches W (xs @ [x]))"
    unfolding r l(2) c(3) f(2) I(5) using I(2) by auto
  have j: "iv_jitter (onEmit v x) = fold jh_record (gaps (xs @ [x])) newJitterHistogram"
    using I(6) c(1) by (simp add: onEmit_def gaps_def overPrefixes_snoc)
  have "lastSeqOf g (xs @ [x]) = (if iv_lastSeqSet (onEmit v x) g then Some (iv_lastSeq (onEmit v x) g) else None)" for g
    using I(1) by (simp add: onEmit_def lastSeqOf_snoc trackInv_def)
  moreover have "iv_max1Set (onEmit v x) \<and> (\<exists>y\<in>set (xs @ [x]). ir_flow y = iv_max1Flow (onEmit v x) \<and> ir_t3Ns y = iv_max1T3 (onEmit v x)) \<and>
    (\<forall>y\<in>set (xs @ [x]). ir_t3Ns y \<le> iv_max1T3 (onEmit v x)) \<and>
    isMax (iv_max2Set (onEmit v x)) (iv_max2T3 (onEmit v x)) (others (iv_max1Flow (onEmit v x)) (xs @ [x]))"
    unfolding onEmit_def by (rule trackMax_inv) (use I(1) in \<open>simp add: trackInv_def\<close>)
  ultimately have "trackInv (xs @ [x]) (onEmit v x)" unfolding trackInv_def by (simp only: if_True simp_thms) blast
  moreover have "report_inv (iv_rep (onEmit v x))" using r c(4) [OF f(3)] by simp
  moreover have "iv_windowUs (onEmit v x) = W" "iv_processed (onEmit v x) = of_nat (length (xs @ [x]))"
    using I(2,7) by (simp_all add: onEmit_def)
  ultimately show ?thesis using t d j by (simp only: emInv_def)
qed

lemma foldl_onEmit_inv: "emInv D W xs v \<Longrightarrow> emInv D W (xs @ ys) (foldl onEmit v ys)"
proof (induction ys arbitrary: xs v)
  case (Cons y ys)
  from Cons.IH [OF onEmit_inv [OF Cons.prems, of y]] show ?case by simp
qed simp

text \<open>The checks touch neither the window nor the counters of the other steps.\<close>

definition sideState :: "InvariantsValidator \<Rightarrow> t7Reorderer \<times> u64 \<times> u64 \<times> u64 \<times> u64 \<times> u64 \<times> float64" where
  "sideState v = (iv_window v, iv_applied v, iv_anomalyCapNs v, iv_captureGaps v,
     rep_LostOrders (iv_rep v) + LostCancels (iv_rep v), T7ReorderLate (iv_rep v), iv_lateTaintRate v)"

lemma foldl_onEmit_side: "sideState (foldl onEmit v ys) = sideState v"
proof (induction ys arbitrary: v)
  case (Cons y ys)
  have "sideState (trackMax y w) = sideState w" "sideState (crossCheck y w) = sideState w" "sideState (fifoCheck y w) = sideState w" for w
    by (simp_all add: sideState_def trackMax_def crossCheck_def fifoCheck_def Let_def report split: prod.split)
  then have "sideState (onEmit v y) = sideState v" by (simp add: onEmit_def) (simp add: sideState_def)
  then show ?case using Cons.IH [of "onEmit v y"] by simp
qed simp

section \<open>One order\<close>

definition validT7s :: "u64 \<Rightarrow> Order \<Rightarrow> u64 list" where
  "validT7s cap x = filter (\<lambda>t. t \<noteq> 0 \<and> o_T3Ns x \<le> t \<and> t - o_T3Ns x \<le> cap) (map T7Ns (o_Responses x))"

definition gradedRec :: "u64 \<Rightarrow> Order \<Rightarrow> invRec" where
  "gradedRec cap x = \<lparr>ir_orderID = o_OrderID x, ir_flow = o_Flow x, ir_tcpSeq = o_TCPSeq x, ir_t3Ns = o_T3Ns x,
     ir_minT7Ns = Min (set (validT7s cap x))\<rparr>"

definition graded :: "u64 \<Rightarrow> Order list \<Rightarrow> invRec list" where
  "graded cap os = map (gradedRec cap) (filter (\<lambda>x. validT7s cap x \<noteq> []) os)"

definition overfilled :: "Order \<Rightarrow> bool" where
  "overfilled x \<longleftrightarrow> unat (o_Qty x) < reportedQty (fillsOf x)"

definition marked :: "u64 \<Rightarrow> Order list \<Rightarrow> string set" where
  "marked cap os = o_OrderID ` {x \<in> set os. overfilled x \<or> validT7s cap x = []}"

lemma foldl_firstT7:
  "fst (foldl (firstT7 t3 cap) (mt, a) rs) =
    (let ts = (case mt of None \<Rightarrow> [] | Some t \<Rightarrow> [t]) @ filter (\<lambda>t. t \<noteq> 0 \<and> t3 \<le> t \<and> t - t3 \<le> cap) (map T7Ns rs) in
     if ts = [] then None else Some (Min (set ts)))"
proof (induction rs arbitrary: mt a)
  case Nil
  then show ?case by (simp split: option.split)
next
  case (Cons r rs)
  show ?case
  proof (cases "T7Ns r \<noteq> 0 \<and> t3 \<le> T7Ns r \<and> T7Ns r - t3 \<le> cap")
    case False
    then have f: "firstT7 t3 cap (mt, a) r = (mt, if T7Ns r = 0 then a else a + 1)" by (auto simp: firstT7_def not_le)
    have "filter (\<lambda>t. t \<noteq> 0 \<and> t3 \<le> t \<and> t - t3 \<le> cap) (map T7Ns (r # rs)) = filter (\<lambda>t. t \<noteq> 0 \<and> t3 \<le> t \<and> t - t3 \<le> cap) (map T7Ns rs)"
      using False by auto
    then show ?thesis unfolding foldl.simps f by (simp only: Cons.IH)
  next
    case True
    let ?m = "case mt of None \<Rightarrow> T7Ns r | Some t \<Rightarrow> min t (T7Ns r)"
    have f: "firstT7 t3 cap (mt, a) r = (Some ?m, a)" using True by (auto simp: firstT7_def min_def not_less not_le split: option.split)
    have m: "Min (insert (min a b) S) = Min (insert a (insert b S))" if "finite S" for a b :: u64 and S
      using that by (cases "S = {}") (simp_all add: min.assoc)
    show ?thesis using True f Cons.IH [of "Some ?m" a] m by (cases mt) (simp_all add: Let_def)
  qed
qed

lemma countFill_skip: "\<not> isFill (ExecType f) (FillQty f) \<Longrightarrow> countFill x (cum, rep) f = (cum, rep)"
  by (simp add: countFill_def)

lemma foldl_countFill:
  assumes "unat cum + reportedQty (filter (\<lambda>r. isFill (ExecType r) (FillQty r)) rs) < 2 ^ 64" "foldl (countFill x) (cum, rep) rs = (cum', rep')"
  shows "dirtyByOrder rep' = (if filter (\<lambda>r. isFill (ExecType r) (FillQty r)) rs \<noteq> [] \<and>
      unat (o_Qty x) < unat cum + reportedQty (filter (\<lambda>r. isFill (ExecType r) (FillQty r)) rs) then {o_OrderID x} else {}) \<union> dirtyByOrder rep \<and>
    TimeViolations rep' = TimeViolations rep \<and> T7ReorderLate rep' = T7ReorderLate rep \<and> rep_LostOrders rep' = rep_LostOrders rep \<and>
    LostCancels rep' = LostCancels rep \<and> (report_inv rep \<longrightarrow> report_inv rep')"
  using assms
proof (induction rs arbitrary: cum rep)
  case (Cons f rs)
  show ?case
  proof (cases "isFill (ExecType f) (FillQty f)")
    case False
    then show ?thesis using Cons by (simp add: countFill_skip)
  next
    case True
    obtain c1 r1 where s: "countFill x (cum, rep) f = (c1, r1)" by fastforce
    have c1: "c1 = cum + FillQty f" using s True by (simp add: countFill_def Let_def)
    have q: "unat cum + unat (FillQty f) < 2 ^ 64" using Cons.prems(1) True by (simp add: reportedQty_def)
    then have u: "unat c1 = unat cum + unat (FillQty f)" using c1 by (simp add: unat_add_no_wrap)
    have r1: "dirtyByOrder r1 = (if unat (o_Qty x) < unat c1 then {o_OrderID x} else {}) \<union> dirtyByOrder rep \<and>
      TimeViolations r1 = TimeViolations rep \<and> T7ReorderLate r1 = T7ReorderLate rep \<and> rep_LostOrders r1 = rep_LostOrders rep \<and>
      LostCancels r1 = LostCancels rep \<and> (report_inv rep \<longrightarrow> report_inv r1)"
      using s True by (auto simp: countFill_def Let_def report report_inv_add word_less_nat_alt c1 split: if_splits)
    have "unat c1 + reportedQty (filter (\<lambda>r. isFill (ExecType r) (FillQty r)) rs) < 2 ^ 64"
      using Cons.prems(1) True u by (simp add: reportedQty_def)
    from Cons.IH [OF this, of r1] Cons.prems(2) s r1 u True show ?thesis
      by (auto simp: reportedQty_def split: if_splits)
  qed
qed simp

section \<open>A session\<close>

text \<open>No record has more than \<open>w\<close> records with a later first response ahead of it.\<close>

definition fewLate :: "int \<Rightarrow> invRec list \<Rightarrow> bool" where
  "fewLate w xs \<longleftrightarrow> (\<forall>i < length xs. int (length (filter (\<lambda>y. ir_minT7Ns (xs ! i) < ir_minT7Ns y) (take i xs))) \<le> w)"

lemma fewLate_snoc:
  "fewLate w (xs @ [x]) \<longleftrightarrow> fewLate w xs \<and> int (length (filter (\<lambda>y. ir_minT7Ns x < ir_minT7Ns y) xs)) \<le> w"
  by (auto simp: fewLate_def nth_append less_Suc_eq)

definition ivInv :: "u64 \<Rightarrow> u64 \<Rightarrow> int \<Rightarrow> string list \<Rightarrow> Order list \<Rightarrow> invRec list \<Rightarrow> invRec list \<Rightarrow> InvariantsValidator \<Rightarrow> bool" where
  "ivInv W cap win L os acc out v \<longleftrightarrow>
     t7inv acc out (iv_window v) \<and> t7_window (iv_window v) = win \<and> iv_anomalyCapNs v = cap \<and>
     emInv (marked cap os \<union> set L) W out v \<and> iv_applied v = of_nat (length (graded cap os)) \<and>
     iv_applied v + (rep_LostOrders (iv_rep v) + LostCancels (iv_rep v)) = of_nat (length os + length L) \<and>
     subseq acc (graded cap os) \<and> T7ReorderLate (iv_rep v) = of_nat (length (graded cap os) - length acc) \<and>
     (fewLate win (graded cap os) \<longrightarrow> acc = graded cap os)"

lemma emInv_rep:
  assumes "emInv D W xs v" "dirtyByOrder r = E \<union> dirtyByOrder (iv_rep v)" "TimeViolations r = TimeViolations (iv_rep v)"
    "report_inv (iv_rep v) \<longrightarrow> report_inv r"
  shows "emInv (E \<union> D) W xs (v\<lparr>iv_rep := r\<rparr>)"
  using assms by (auto simp: emInv_def trackInv_def)

lemma emInv_frame [simp]:
  "emInv D W xs (v\<lparr>iv_window := w\<rparr>) = emInv D W xs v" "emInv D W xs (v\<lparr>iv_applied := a\<rparr>) = emInv D W xs v"
  "emInv D W xs (v\<lparr>iv_captureGaps := g\<rparr>) = emInv D W xs v"
  by (simp_all add: emInv_def trackInv_def)

lemma emInv_onLate: "emInv D W xs (onLate v) = emInv D W xs v"
  by (simp add: emInv_def trackInv_def onLate_def report_inv_def)

lemma marked_snoc:
  "marked cap (os @ [x]) = (if overfilled x \<or> validT7s cap x = [] then {o_OrderID x} else {}) \<union> marked cap os"
  by (auto simp: marked_def)

lemma graded_snoc: "graded cap (os @ [x]) = graded cap os @ (if validT7s cap x = [] then [] else [gradedRec cap x])"
  by (simp add: graded_def)

lemma Apply_parts:
  assumes "reportedQty (fillsOf x) < 2 ^ 64"
  obtains rep where "dirtyByOrder rep = (if overfilled x then {o_OrderID x} else {}) \<union> dirtyByOrder (iv_rep v)"
    "TimeViolations rep = TimeViolations (iv_rep v)" "T7ReorderLate rep = T7ReorderLate (iv_rep v)"
    "rep_LostOrders rep = rep_LostOrders (iv_rep v)" "LostCancels rep = LostCancels (iv_rep v)" "report_inv (iv_rep v) \<longrightarrow> report_inv rep"
    "Apply_iv v x = (if validT7s (iv_anomalyCapNs v) x = [] then
         let rep2 = add (lostViolationType (o_Kind x)) (o_OrderID x) 0 0
             (Detail ''order/cancel sent but never received any response'') rep in
         v\<lparr>iv_rep := (if o_Kind x = Cancel then rep2\<lparr>LostCancels := LostCancels rep2 + 1\<rparr>
             else rep2\<lparr>rep_LostOrders := rep_LostOrders rep2 + 1\<rparr>)\<rparr>
       else let v1 = v\<lparr>iv_rep := rep, iv_applied := iv_applied v + 1\<rparr>;
           (out, late, w) = t7_push (iv_window v) (gradedRec (iv_anomalyCapNs v) x); v2 = v1\<lparr>iv_window := w\<rparr>
         in if late then onLate v2 else foldl onEmit v2 out)"
proof -
  obtain c r where f: "foldl (countFill x) (0, iv_rep v) (o_Responses x) = (c, r)" by fastforce
  obtain m a where t: "foldl (firstT7 (o_T3Ns x) (iv_anomalyCapNs v)) (None, T7Anomalies r) (o_Responses x) = (m, a)" by fastforce
  have m: "m = (if validT7s (iv_anomalyCapNs v) x = [] then None else Some (Min (set (validT7s (iv_anomalyCapNs v) x))))"
    using foldl_firstT7 [of "o_T3Ns x" "iv_anomalyCapNs v" None "T7Anomalies r" "o_Responses x"] t by (simp add: validT7s_def Let_def)
  note c = foldl_countFill [OF _ f, folded fillsOf_def]
  show thesis
  proof (rule that [of "r\<lparr>T7Anomalies := a\<rparr>"])
    show "Apply_iv v x = (if validT7s (iv_anomalyCapNs v) x = [] then
         let rep2 = add (lostViolationType (o_Kind x)) (o_OrderID x) 0 0
             (Detail ''order/cancel sent but never received any response'') (r\<lparr>T7Anomalies := a\<rparr>) in
         v\<lparr>iv_rep := (if o_Kind x = Cancel then rep2\<lparr>LostCancels := LostCancels rep2 + 1\<rparr>
             else rep2\<lparr>rep_LostOrders := rep_LostOrders rep2 + 1\<rparr>)\<rparr>
       else let v1 = v\<lparr>iv_rep := r\<lparr>T7Anomalies := a\<rparr>, iv_applied := iv_applied v + 1\<rparr>;
           (out, late, w) = t7_push (iv_window v) (gradedRec (iv_anomalyCapNs v) x); v2 = v1\<lparr>iv_window := w\<rparr>
         in if late then onLate v2 else foldl onEmit v2 out)"
      unfolding Apply_iv_def f t prod.case Let_def m by (simp add: gradedRec_def)
  qed (use c assms in \<open>auto simp: overfilled_def report_inv_def reportedQty_def\<close>)
qed

lemma Apply_iv_inv:
  assumes inv: "ivInv W cap win L os acc out v" and q: "reportedQty (fillsOf x) < 2 ^ 64"
  shows "\<exists>acc' out'. ivInv W cap win L (os @ [x]) acc' out' (Apply_iv v x)"
proof -
  let ?M = "if overfilled x then {o_OrderID x} else {}"
  have I: "t7inv acc out (iv_window v)" "t7_window (iv_window v) = win" "iv_anomalyCapNs v = cap"
    "emInv (marked cap os \<union> set L) W out v" "iv_applied v = of_nat (length (graded cap os))"
    "iv_applied v + (rep_LostOrders (iv_rep v) + LostCancels (iv_rep v)) = of_nat (length os + length L)"
    "subseq acc (graded cap os)" "T7ReorderLate (iv_rep v) = of_nat (length (graded cap os) - length acc)"
    "fewLate win (graded cap os) \<longrightarrow> acc = graded cap os" using inv unfolding ivInv_def by blast+
  obtain rep where r: "dirtyByOrder rep = ?M \<union> dirtyByOrder (iv_rep v)"
    "TimeViolations rep = TimeViolations (iv_rep v)" "T7ReorderLate rep = T7ReorderLate (iv_rep v)"
    "rep_LostOrders rep = rep_LostOrders (iv_rep v)" "LostCancels rep = LostCancels (iv_rep v)" "report_inv (iv_rep v) \<longrightarrow> report_inv rep"
    and ap: "Apply_iv v x = (if validT7s cap x = [] then
         let rep2 = add (lostViolationType (o_Kind x)) (o_OrderID x) 0 0
             (Detail ''order/cancel sent but never received any response'') rep in
         v\<lparr>iv_rep := (if o_Kind x = Cancel then rep2\<lparr>LostCancels := LostCancels rep2 + 1\<rparr>
             else rep2\<lparr>rep_LostOrders := rep_LostOrders rep2 + 1\<rparr>)\<rparr>
       else let v1 = v\<lparr>iv_rep := rep, iv_applied := iv_applied v + 1\<rparr>;
           (out, late, w) = t7_push (iv_window v) (gradedRec cap x); v2 = v1\<lparr>iv_window := w\<rparr>
         in if late then onLate v2 else foldl onEmit v2 out)"
    using Apply_parts [OF q, of v] unfolding I(3) by blast
  show ?thesis
  proof (cases "validT7s cap x = []")
    case True
    define rep2 where "rep2 = add (lostViolationType (o_Kind x)) (o_OrderID x) 0 0 (Detail ''order/cancel sent but never received any response'') rep"
    define rep3 where "rep3 = (if o_Kind x = Cancel then rep2\<lparr>LostCancels := LostCancels rep2 + 1\<rparr> else rep2\<lparr>rep_LostOrders := rep_LostOrders rep2 + 1\<rparr>)"
    have v: "Apply_iv v x = v\<lparr>iv_rep := rep3\<rparr>" using ap True by (simp add: rep2_def rep3_def Let_def)
    have r3: "dirtyByOrder rep3 = {o_OrderID x} \<union> dirtyByOrder (iv_rep v)" "TimeViolations rep3 = TimeViolations (iv_rep v)"
      "report_inv (iv_rep v) \<longrightarrow> report_inv rep3" "T7ReorderLate rep3 = T7ReorderLate (iv_rep v)"
      "rep_LostOrders rep3 + LostCancels rep3 = rep_LostOrders (iv_rep v) + LostCancels (iv_rep v) + 1"
      using r by (auto simp: rep3_def rep2_def report report_inv_add)
    have "emInv ({o_OrderID x} \<union> (marked cap os \<union> set L)) W out (v\<lparr>iv_rep := rep3\<rparr>)"
      by (rule emInv_rep [OF I(4) r3(1-3)])
    then have "emInv (marked cap (os @ [x]) \<union> set L) W out (Apply_iv v x)" using True by (simp add: v marked_snoc Un_assoc)
    moreover have "graded cap (os @ [x]) = graded cap os" using True by (simp add: graded_snoc)
    ultimately have "ivInv W cap win L (os @ [x]) acc out (Apply_iv v x)"
      using I r3(4,5) by (simp add: ivInv_def v)
    then show ?thesis by blast
  next
    case False
    obtain o1 late w where p: "t7_push (iv_window v) (gradedRec cap x) = (o1, late, w)" by (metis prod_cases3)
    note pu = t7_push_inv [OF I(1) p]
    let ?v1 = "v\<lparr>iv_rep := rep, iv_applied := iv_applied v + 1\<rparr>"
    let ?v2 = "v\<lparr>iv_rep := rep, iv_applied := iv_applied v + 1, iv_window := w\<rparr>"
    have g: "graded cap (os @ [x]) = graded cap os @ [gradedRec cap x]" using False by (simp add: graded_snoc)
    have e: "emInv (marked cap (os @ [x]) \<union> set L) W out (v\<lparr>iv_rep := rep\<rparr>)"
      using emInv_rep [OF I(4) r(1,2,6)] False by (simp add: marked_snoc Un_assoc)
    have sub: "length acc \<le> length (graded cap os)" using I(7) by (rule list_emb_length)
    have cnt: "iv_applied v + 1 + (rep_LostOrders rep + LostCancels rep) = of_nat (length (os @ [x]) + length L)"
      using I(6) r(4,5) by (simp add: algebra_simps)
    show ?thesis
    proof (cases late)
      case True
      then have pl: "o1 = []" "w = iv_window v" "win < int (length (filter (\<lambda>y. ir_minT7Ns (gradedRec cap x) < ir_minT7Ns y) acc))"
        using pu I(2) by auto
      have v: "Apply_iv v x = onLate ?v2" using ap False p True by (simp add: Let_def)
      have few: "\<not> fewLate win (graded cap (os @ [x]))" using I(9) pl(3) by (auto simp: g fewLate_snoc)
      have "emInv (marked cap (os @ [x]) \<union> set L) W out (onLate ?v2)"
        using e by (simp add: emInv_onLate)
      moreover have "subseq (acc @ []) (graded cap (os @ [x]))" unfolding g by (intro list_emb_append_mono I(7)) simp
      moreover have "T7ReorderLate (iv_rep (onLate ?v2)) = of_nat (length (graded cap (os @ [x])) - length acc)"
        using I(8) r(3) sub by (simp add: onLate_def g Suc_diff_le)
      moreover have "iv_window (onLate ?v2) = iv_window v" "iv_anomalyCapNs (onLate ?v2) = cap" "iv_applied (onLate ?v2) = iv_applied v + 1"
        "iv_applied v + 1 = of_nat (length (graded cap (os @ [x])))"
        "rep_LostOrders (iv_rep (onLate ?v2)) = rep_LostOrders rep" "LostCancels (iv_rep (onLate ?v2)) = LostCancels rep"
        using I(3,5) pl(2) by (simp_all add: onLate_def g)
      ultimately have "ivInv W cap win L (os @ [x]) acc out (Apply_iv v x)"
        using I(1,2) few cnt by (simp only: ivInv_def v append_Nil2 simp_thms)
      then show ?thesis by blast
    next
      case late: False
      then have t: "t7inv (acc @ [gradedRec cap x]) (out @ o1) w" "t7_window w = win" using pu I(2) by auto
      have v: "Apply_iv v x = foldl onEmit ?v2 o1" using ap False p late by (simp add: Let_def)
      have "emInv (marked cap (os @ [x]) \<union> set L) W out ?v2" using e by simp
      from foldl_onEmit_inv [OF this, of o1] have em: "emInv (marked cap (os @ [x]) \<union> set L) W (out @ o1) (Apply_iv v x)" by (simp add: v)
      have side: "sideState (Apply_iv v x) = sideState ?v2" by (simp add: v foldl_onEmit_side)
      have "ivInv W cap win L (os @ [x]) (acc @ [gradedRec cap x]) (out @ o1) (Apply_iv v x)"
        using em side t I cnt r(3) sub unfolding ivInv_def sideState_def
        by (simp add: g fewLate_snoc list_emb_append_mono)
      then show ?thesis by blast
    qed
  qed
qed

lemma AddLost_iv_inv:
  assumes "ivInv W cap win L os acc out v"
  shows "ivInv W cap win (L @ [i]) os acc out (AddLost_iv v i k)"
proof -
  define r where "r = iv_rep (AddLost_iv v i k)"
  have v: "AddLost_iv v i k = v\<lparr>iv_rep := r\<rparr>" by (simp add: r_def AddLost_iv_def Let_def)
  have r: "dirtyByOrder r = {i} \<union> dirtyByOrder (iv_rep v)" "TimeViolations r = TimeViolations (iv_rep v)"
    "report_inv (iv_rep v) \<longrightarrow> report_inv r" "T7ReorderLate r = T7ReorderLate (iv_rep v)"
    "rep_LostOrders r + LostCancels r = rep_LostOrders (iv_rep v) + LostCancels (iv_rep v) + 1"
    by (simp_all add: r_def AddLost_iv_def Let_def report report_inv_add)
  have "emInv ({i} \<union> (marked cap os \<union> set L)) W out (v\<lparr>iv_rep := r\<rparr>)"
    using assms by (intro emInv_rep [OF _ r(1-3)]) (simp add: ivInv_def)
  moreover have "{i} \<union> (marked cap os \<union> set L) = marked cap os \<union> set (L @ [i])" by auto
  ultimately have "emInv (marked cap os \<union> set (L @ [i])) W out (v\<lparr>iv_rep := r\<rparr>)" by (simp only:)
  moreover have "iv_applied v + (rep_LostOrders (iv_rep v) + LostCancels (iv_rep v)) = of_nat (length os + length L)"
    using assms unfolding ivInv_def by blast
  then have "iv_applied v + (rep_LostOrders r + LostCancels r) = of_nat (length os + length (L @ [i]))"
    unfolding r(5) by (simp add: algebra_simps)
  ultimately show ?thesis using assms r(4) by (simp add: ivInv_def v del: of_nat_add)
qed

lemma handleInv_other:
  "ivInv W cap win L os acc out (AddUnmatched v i q p) = ivInv W cap win L os acc out v"
  "ivInv W cap win L os acc out (AddCaptureGap_iv v) = ivInv W cap win L os acc out v"
  by (simp_all add: ivInv_def AddUnmatched_def AddCaptureGap_iv_def emInv_def trackInv_def report_inv_def)

lemma foldl_handleInv:
  assumes "ivInv W cap win L os acc out v" "\<And>x. x \<in> set (applied tr) \<Longrightarrow> reportedQty (fillsOf x) < 2 ^ 64"
  shows "\<exists>acc' out'. ivInv W cap win (L @ lostIds tr) (os @ applied tr) acc' out' (foldl handleInv v tr)"
  using assms
proof (induction tr arbitrary: L os acc out v)
  case Nil
  then show ?case by auto
next
  case (Cons c cs)
  show ?case
  proof (cases c)
    case (Apply x)
    from Apply_iv_inv [OF Cons.prems(1), of x] Cons.prems(2) Apply obtain acc1 out1 where
      "ivInv W cap win L (os @ [x]) acc1 out1 (Apply_iv v x)" by auto
    from Cons.IH [OF this] Cons.prems(2) Apply show ?thesis by (simp add: handleInv_def)
  next
    case (AddLost i k)
    from Cons.IH [OF AddLost_iv_inv [OF Cons.prems(1), of i k]] Cons.prems(2) AddLost show ?thesis by (simp add: handleInv_def)
  next
    case (AddPhantom i q p)
    from Cons.IH [of L os acc out "AddUnmatched v i q p"] Cons.prems AddPhantom show ?thesis by (simp add: handleInv_def handleInv_other)
  next
    case AddCaptureGap
    from Cons.IH [of L os acc out "AddCaptureGap_iv v"] Cons.prems AddCaptureGap show ?thesis by (simp add: handleInv_def handleInv_other)
  qed
qed

text \<open>The validator as \<open>main.go\<close> configures it.\<close>

definition configured :: "u64 \<Rightarrow> int \<Rightarrow> u64 \<Rightarrow> float64 \<Rightarrow> InvariantsValidator" where
  "configured windowUs t7Window capNs rate =
     SetLateTaintRate rate (SetT7AnomalyCapNs capNs (NewInvariantsValidatorWithWindow windowUs t7Window))"

definition capOf :: "u64 \<Rightarrow> u64" where
  "capOf capNs = (if capNs > 0 then capNs else DefaultT7AnomalyCapNs)"

definition flowWindowOf :: "u64 \<Rightarrow> u64" where
  "flowWindowOf windowUs = (if windowUs = 0 then DefaultCrossFlowWindowUs else windowUs)"

definition t7WindowOf :: "int \<Rightarrow> int" where
  "t7WindowOf t7Window = (if t7Window \<le> 0 then DefaultT7ReorderWindow else t7Window)"

lemma configured_inv: "ivInv (flowWindowOf w) (capOf c) (t7WindowOf t) [] [] [] [] (configured w t c rate)"
proof -
  have win: "1 \<le> t7WindowOf t" by (simp add: t7WindowOf_def DefaultT7ReorderWindow_def)
  let ?v = "configured w t c rate"
  have f: "iv_window ?v = \<lparr>t7_window = t7WindowOf t, t7_buf = [], t7_watermark = 0, t7_started = False\<rparr>"
    "iv_anomalyCapNs ?v = capOf c" "iv_windowUs ?v = flowWindowOf w" "iv_rep ?v = zeroReport" "iv_applied ?v = 0" "iv_processed ?v = 0"
    "iv_lastSeqSet ?v = (\<lambda>_. False)" "\<not> iv_max1Set ?v" "\<not> iv_max2Set ?v" "iv_jitter ?v = newJitterHistogram"
    using win by (auto simp: configured_def SetLateTaintRate_def SetT7AnomalyCapNs_def NewInvariantsValidatorWithWindow_def
        newT7Reorderer_def t7WindowOf_def capOf_def flowWindowOf_def)
  have "emInv {} (flowWindowOf w) [] ?v"
    by (simp add: emInv_def trackInv_def f report_inv_zero lastSeqOf_def breaches_def gaps_def)
      (simp add: zeroReport_def)
  moreover have "t7inv [] [] (iv_window ?v)" using win by (simp add: t7inv_def f)
  ultimately show ?thesis
    using f by (simp add: ivInv_def marked_def graded_def) (simp add: zeroReport_def)
qed

lemma t7_flush_out:
  assumes "t7inv acc out r"
  shows "sortInvRecs acc = out @ fst (t7_flush r)"
proof (cases "t7_buf r = []")
  case True
  then show ?thesis using assms by (simp add: t7inv_def t7_flush_def t7_release_def sortInvRecs_id)
next
  case False
  then have "fst (t7_flush r) = sortInvRecs (t7_buf r)" by (simp add: t7_flush_def t7_release_def Let_def)
  then show ?thesis using assms by (simp add: t7inv_def)
qed

lemma Finish_iv_inv:
  assumes "ivInv W cap win L os acc out v"
  defines "r \<equiv> Finish_iv v"
  shows "dirtyByOrder r = marked cap os \<union> set L \<union> set (breaches W (sortInvRecs acc))" "report_inv r"
    "TimeViolations r = of_nat (length (breaches W (sortInvRecs acc)))" "ScoredOrders r = of_nat (length os + length L)"
    "T7ReorderLate r = of_nat (length (graded cap os) - length acc)"
    "Jitter r = stats (fold jh_record (gaps (sortInvRecs acc)) newJitterHistogram) (of_nat (length acc))"
proof -
  obtain o1 w where fl: "t7_flush (iv_window v) = (o1, w)" by fastforce
  have t: "t7inv acc out (iv_window v)" using assms(1) by (simp add: ivInv_def)
  have so: "sortInvRecs acc = out @ o1" using t7_flush_out [OF t] fl by simp
  let ?v1 = "foldl onEmit (v\<lparr>iv_window := w\<rparr>) o1"
  have e: "emInv (marked cap os \<union> set L) W (sortInvRecs acc) ?v1"
    unfolding so using assms(1) by (intro foldl_onEmit_inv) (simp add: ivInv_def)
  have len: "length (sortInvRecs acc) = length acc" by simp
  have "sideState ?v1 = sideState (v\<lparr>iv_window := w\<rparr>)" by (rule foldl_onEmit_side)
  then have s: "iv_applied ?v1 + (rep_LostOrders (iv_rep ?v1) + LostCancels (iv_rep ?v1)) = of_nat (length os + length L)"
    "T7ReorderLate (iv_rep ?v1) = of_nat (length (graded cap os) - length acc)"
    using assms(1) by (auto simp: sideState_def ivInv_def)
  show "dirtyByOrder r = marked cap os \<union> set L \<union> set (breaches W (sortInvRecs acc))" "report_inv r"
    "TimeViolations r = of_nat (length (breaches W (sortInvRecs acc)))" "ScoredOrders r = of_nat (length os + length L)"
    "T7ReorderLate r = of_nat (length (graded cap os) - length acc)"
    "Jitter r = stats (fold jh_record (gaps (sortInvRecs acc)) newJitterHistogram) (of_nat (length acc))"
    using e s len unfolding r_def Finish_iv_def fl emInv_def by (auto simp: Let_def gapTaint_def report_inv_def add.assoc)
qed

end
