(* ===== verification/InvMode.thy ===== *)
theory InvMode
  imports Invariants_Props
begin

text \<open>
  Properties of the book-free mode: the reorder window, and the report of a whole session of
  callbacks as the session source makes them.
\<close>

text \<open>Pushing records one by one and flushing: what is emitted, and how many records were late.\<close>

fun t7_run :: "t7Reorderer \<Rightarrow> invRec list \<Rightarrow> invRec list \<times> nat" where
  "t7_run r [] = (fst (t7_flush r), 0)"
| "t7_run r (x # xs) = (case t7_push r x of (o1, late, r1) \<Rightarrow>
     (case t7_run r1 xs of (o2, n) \<Rightarrow> (o1 @ o2, if late then Suc n else n)))"

lemma t7_run_inv:
  assumes "t7inv acc out r"
  shows "\<exists>acc'. subseq acc' xs \<and> out @ fst (t7_run r xs) = sortInvRecs (acc @ acc') \<and> length acc' + snd (t7_run r xs) = length xs \<and>
    ((\<forall>i < length xs. int (length (filter (\<lambda>y. ir_minT7Ns (xs ! i) < ir_minT7Ns y) (acc @ take i xs))) \<le> t7_window r) \<longrightarrow> acc' = xs)"
  using assms
proof (induction xs arbitrary: acc out r)
  case Nil
  then show ?case using t7_flush_out [OF Nil] by simp
next
  case (Cons x xs)
  obtain o1 late r1 where p: "t7_push r x = (o1, late, r1)" by (metis prod_cases3)
  obtain o2 n where q: "t7_run r1 xs = (o2, n)" by fastforce
  note pu = t7_push_inv [OF Cons.prems p]
  show ?case
  proof (cases late)
    case True
    then have r: "o1 = []" "r1 = r" "t7_window r < int (length (filter (\<lambda>y. ir_minT7Ns x < ir_minT7Ns y) acc))" using pu by auto
    from Cons.IH [OF Cons.prems] obtain acc' where a: "subseq acc' xs" "out @ o2 = sortInvRecs (acc @ acc')" "length acc' + n = length xs"
      using q r(2) by auto
    have "\<not> (\<forall>i < length (x # xs). int (length (filter (\<lambda>y. ir_minT7Ns ((x # xs) ! i) < ir_minT7Ns y) (acc @ take i (x # xs)))) \<le> t7_window r)"
      using r(3) by (auto intro!: exI [of _ 0])
    then show ?thesis using a p q r(1) True by (intro exI [of _ acc']) auto
  next
    case False
    then have t: "t7inv (acc @ [x]) (out @ o1) r1" using pu by simp
    from Cons.IH [OF t] obtain acc' where a: "subseq acc' xs" "(out @ o1) @ o2 = sortInvRecs ((acc @ [x]) @ acc')" "length acc' + n = length xs"
      "(\<forall>i < length xs. int (length (filter (\<lambda>y. ir_minT7Ns (xs ! i) < ir_minT7Ns y) ((acc @ [x]) @ take i xs))) \<le> t7_window r1) \<longrightarrow> acc' = xs"
      using q by auto
    have few: "\<forall>i < length xs. int (length (filter (\<lambda>y. ir_minT7Ns (xs ! i) < ir_minT7Ns y) ((acc @ [x]) @ take i xs))) \<le> t7_window r1"
      if "\<forall>i < length (x # xs). int (length (filter (\<lambda>y. ir_minT7Ns ((x # xs) ! i) < ir_minT7Ns y) (acc @ take i (x # xs)))) \<le> t7_window r"
    proof (intro allI impI)
      fix i assume "i < length xs"
      then show "int (length (filter (\<lambda>y. ir_minT7Ns (xs ! i) < ir_minT7Ns y) ((acc @ [x]) @ take i xs))) \<le> t7_window r1"
        using that [rule_format, of "Suc i"] pu(2) by simp
    qed
    show ?thesis using a few p q False by (intro exI [of _ "x # acc'"]) auto
  qed
qed

lemma newT7_inv: "t7inv [] [] (newT7Reorderer w)"
  by (simp add: t7inv_def newT7Reorderer_def)

section \<open>Properties\<close>

text \<open>
  The processing-order window is exact. Whatever is pushed, the records emitted are the
  stable sort, by first response time, of the pushed records that were not counted as late;
  nothing else is dropped; and no record is late as long as none has more than a window of
  records with later first responses ahead of it.
\<close>

lemma t7_window_sorts_exactly:
  "\<exists>acc. subseq acc xs \<and> fst (t7_run (newT7Reorderer w) xs) = sortInvRecs acc \<and>
     length acc + snd (t7_run (newT7Reorderer w) xs) = length xs \<and> (fewLate (max 1 w) xs \<longrightarrow> acc = xs)"
proof -
  have w: "t7_window (newT7Reorderer w) = max 1 w" by (auto simp: newT7Reorderer_def)
  show ?thesis using t7_run_inv [OF newT7_inv [of w], of xs] unfolding w fewLate_def by simp
qed

definition demoRec :: "string \<Rightarrow> u64 \<Rightarrow> invRec" where
  "demoRec i t = \<lparr>ir_orderID = i, ir_flow = zeroFlow, ir_tcpSeq = 0, ir_t3Ns = 0, ir_minT7Ns = t\<rparr>"

text \<open>
  C17. What the book-free mode marks. On every trace of the source in which the fills of one
  order add up below 2^64, the report is that of a check over the whole processing order
  although the validator keeps only a bounded window, one sequence number per flow and two
  maxima: the dirty orders are the lost ones, those filled beyond their own quantity, those
  without a usable response time, and those that breach per-flow or cross-flow order in the
  records sorted by first response; the time violations are exactly these breaches; every
  applied or lost order is scored once; and when no record is more than a window late,
  every order with a usable response takes part.
\<close>

theorem invariants_mode_marks_exactly:
  fixes windowUs capNs t7Window
  defines "W \<equiv> flowWindowOf windowUs" and "cap \<equiv> capOf capNs"
  assumes "\<And>x. x \<in> set (applied tr) \<Longrightarrow> int (reportedQty (fillsOf x)) < 2 ^ 64"
  shows "\<exists>acc. subseq acc (graded cap (applied tr)) \<and>
    (fewLate (t7WindowOf t7Window) (graded cap (applied tr)) \<longrightarrow> acc = graded cap (applied tr)) \<and>
    (let r = Finish_iv (foldl handleInv (configured windowUs t7Window capNs rate) tr); B = breaches W (sortInvRecs acc) in
      dirtyByOrder r = marked cap (applied tr) \<union> set (lostIds tr) \<union> set B \<and>
      DirtyOrders r = of_nat (card (marked cap (applied tr) \<union> set (lostIds tr) \<union> set B)) \<and>
      TimeViolations r = of_nat (length B) \<and>
      T7ReorderLate r = of_nat (length (graded cap (applied tr)) - length acc) \<and>
      ScoredOrders r = of_nat (length (applied tr) + length (lostIds tr)))"
proof -
  have "reportedQty (fillsOf x) < 2 ^ 64" if "x \<in> set (applied tr)" for x using assms(3) [OF that] by simp
  from foldl_handleInv [OF configured_inv this] obtain acc out where
    inv: "ivInv W cap (t7WindowOf t7Window) (lostIds tr) (applied tr) acc out (foldl handleInv (configured windowUs t7Window capNs rate) tr)"
    unfolding W_def cap_def by fastforce
  note f = Finish_iv_inv [OF inv]
  have "subseq acc (graded cap (applied tr))" "fewLate (t7WindowOf t7Window) (graded cap (applied tr)) \<longrightarrow> acc = graded cap (applied tr)"
    using inv unfolding ivInv_def by blast+
  moreover have "DirtyOrders (Finish_iv (foldl handleInv (configured windowUs t7Window capNs rate) tr)) =
      of_nat (card (marked cap (applied tr) \<union> set (lostIds tr) \<union> set (breaches W (sortInvRecs acc))))"
    using f(1,2) unfolding report_inv_def by simp
  ultimately show ?thesis using f(1,3-5) unfolding Let_def by blast
qed

text \<open>Two orders on different connections answered in the wrong order, and one lost.\<close>

definition demoOrder :: "string \<Rightarrow> u16 \<Rightarrow> u64 \<Rightarrow> u64 \<Rightarrow> Order" where
  "demoOrder i port t3 t7 = zeroOrder\<lparr>o_OrderID := i, o_Flow := \<lparr>SrcIP = 1, SrcPort = port\<rparr>, o_T3Ns := t3, o_Qty := 5,
     o_Responses := [\<lparr>ExecType = ''0'', FillQty = 0, FillPrice = 0, T7Ns = t7\<rparr>]\<rparr>"

definition demoInvTrace :: "Callback list" where
  "demoInvTrace = [Apply (demoOrder ''a'' 1 1000 3000000), AddLost ''l'' NewLimit, Apply (demoOrder ''b'' 2 2000000 2000100)]"

lemma demoInvTrace_facts:
  "applied demoInvTrace = [demoOrder ''a'' 1 1000 3000000, demoOrder ''b'' 2 2000000 2000100]" "lostIds demoInvTrace = [''l'']"
  "fewLate (t7WindowOf 4) (graded (capOf 0) (applied demoInvTrace))" "marked (capOf 0) (applied demoInvTrace) = {}"
  "breaches (flowWindowOf 500) (sortInvRecs (graded (capOf 0) (applied demoInvTrace))) = [''a'']"
  by (simp add: demoInvTrace_def, simp add: demoInvTrace_def, code_simp, code_simp, code_simp)

theorem invariants_mode_marks_exactly_witness:
  "let r = Finish_iv (foldl handleInv (configured 500 4 0 (Fin 0)) demoInvTrace) in
    dirtyByOrder r = {''a'', ''l''} \<and> TimeViolations r = 1 \<and> T7ReorderLate r = 0 \<and> ScoredOrders r = 3"
proof -
  have "int (reportedQty (fillsOf x)) < 2 ^ 64" if "x \<in> set (applied demoInvTrace)" for x
    using that by (auto simp: demoInvTrace_facts(1) demoOrder_def reportedQty_def fillsOf_def isFill_def)
  from invariants_mode_marks_exactly [where windowUs = 500 and capNs = 0 and t7Window = 4 and rate = "Fin 0" and tr = demoInvTrace, OF this] demoInvTrace_facts(2-5) show ?thesis
    by (auto simp: Let_def demoInvTrace_facts(1))
qed

end
