(* ===== verification/Jitter.thy ===== *)
theory Jitter
  imports Invariants
begin

text \<open>
  The jitter histogram of \<open>validate/invariants.go\<close> against the list of its samples: the
  buckets count the samples by bit length, and a percentile is the lower bound of the bucket
  that holds the sample of that rank in sorted order.
\<close>

lemma bits_Len64_le_iff: "i < 64 \<Longrightarrow> bits_Len64 w \<le> i \<longleftrightarrow> uint w < 2 ^ i"
proof -
  assume i: "i < 64"
  let ?P = "\<lambda>i. 2 ^ i \<le> uint w" and ?n = "bits_Len64 w"
  show ?thesis
  proof
    assume le: "?n \<le> i"
    then have "\<not> ?P ([0..<64] ! ?n)" unfolding bits_Len64_def using i by (intro nth_length_takeWhile) (simp add: bits_Len64_def)
    then have "uint w < 2 ^ ?n" using le i by simp
    also have "(2::int) ^ ?n \<le> 2 ^ i" using le by (intro power_increasing) auto
    finally show "uint w < 2 ^ i" .
  next
    assume lt: "uint w < 2 ^ i"
    show "?n \<le> i"
    proof (rule ccontr)
      assume "\<not> ?n \<le> i"
      then have "i < length (takeWhile ?P [0..<64])" by (simp add: bits_Len64_def)
      from nth_mem [OF this] takeWhile_nth [OF this] have "[0..<64] ! i \<in> set (takeWhile ?P [0..<64])" by simp
      then have "?P ([0..<64] ! i)" by (metis set_takeWhileD)
      then show False using lt i by simp
    qed
  qed
qed

lemma bits_Len64_bound: "bits_Len64 w \<le> 64"
  using length_takeWhile_le [of "\<lambda>i. 2 ^ i \<le> uint w" "[0..<64]"] by (simp add: bits_Len64_def)

lemma bits_Len64_range:
  "bits_Len64 w = 0 \<longleftrightarrow> w = 0" "bits_Len64 w \<noteq> 0 \<Longrightarrow> 2 ^ (bits_Len64 w - 1) \<le> uint w \<and> uint w < 2 * 2 ^ (bits_Len64 w - 1)"
proof -
  show "bits_Len64 w = 0 \<longleftrightarrow> w = 0" using bits_Len64_le_iff [of 0 w] by (auto simp: uint_0_iff [symmetric] simp del: uint_0_iff)
      (metis uint_ge_0 order.antisym zle_diff1_eq diff_self)+
  assume n: "bits_Len64 w \<noteq> 0"
  let ?k = "bits_Len64 w - 1"
  have k: "?k < 64" using n bits_Len64_bound [of w] by simp
  have "\<not> bits_Len64 w \<le> ?k" using n by simp
  then have "2 ^ ?k \<le> uint w" using bits_Len64_le_iff [OF k] by simp
  moreover have "uint w < 2 ^ Suc ?k"
  proof (cases "Suc ?k < 64")
    case True
    then show ?thesis using bits_Len64_le_iff [OF True, of w] n by simp
  next
    case False
    then have "Suc ?k = 64" using k by simp
    then show ?thesis using uint_lt2p [of w] by simp
  qed
  ultimately show "2 ^ ?k \<le> uint w \<and> uint w < 2 * 2 ^ ?k" by simp
qed

lemma bits_Len64_mono: "v \<le> w \<Longrightarrow> bits_Len64 v \<le> bits_Len64 w"
proof (cases "bits_Len64 w < 64")
  case True
  assume "v \<le> w"
  then show ?thesis using bits_Len64_le_iff [OF True, of w] bits_Len64_le_iff [OF True, of v] by (simp add: word_le_def)
next
  case False
  then show ?thesis using bits_Len64_bound [of v] by simp
qed

section \<open>The buckets\<close>

definition below :: "nat \<Rightarrow> u64 list \<Rightarrow> nat" where
  "below i xs = length (filter (\<lambda>x. bits_Len64 x < i) xs)"

definition inBucket :: "nat \<Rightarrow> u64 list \<Rightarrow> nat" where
  "inBucket i xs = length (filter (\<lambda>x. bits_Len64 x = i) xs)"

lemma below_Suc: "below (Suc i) xs = below i xs + inBucket i xs"
  by (induction xs) (auto simp: below_def inBucket_def less_Suc_eq)

lemma histogram_of_samples:
  "fold jh_record xs newJitterHistogram =
    \<lparr>jh_buckets = map (\<lambda>i. of_nat (inBucket i xs)) [0..<65], jh_count = of_nat (length xs), jh_maxNs = fold max xs 0\<rparr>"
proof (induction xs rule: rev_induct)
  case Nil
  then show ?case by (simp add: newJitterHistogram_def inBucket_def map_replicate_const)
next
  case (snoc x xs)
  have "(map (\<lambda>i. of_nat (inBucket i xs)) [0..<65])[bits_Len64 x := of_nat (inBucket (bits_Len64 x) xs) + 1] =
      map (\<lambda>i. of_nat (inBucket i (xs @ [x])) :: u64) [0..<65]" (is "?l = ?r")
    by (rule nth_equalityI) (auto simp: nth_list_update inBucket_def)
  moreover have "(if mx < x then x else mx) = max x mx" for mx :: u64 by auto
  moreover have "map (\<lambda>i. of_nat (inBucket i xs) :: u64) [0..<65] ! bits_Len64 x = of_nat (inBucket (bits_Len64 x) xs)"
    using bits_Len64_bound [of x] by simp
  ultimately show ?case using snoc by (simp add: jh_record_def Let_def)
qed

lemma sorted_rank:
  "sorted xs \<Longrightarrow> k < length xs \<Longrightarrow> bits_Len64 (xs ! k) < i \<longleftrightarrow> k < below i xs"
proof (induction xs arbitrary: k)
  case (Cons x xs)
  show ?case
  proof (cases "bits_Len64 x < i")
    case True
    then show ?thesis using Cons by (cases k) (auto simp: below_def)
  next
    case False
    have "\<not> bits_Len64 y < i" if "y \<in> set (x # xs)" for y
      using Cons.prems(1) that False bits_Len64_mono [of x y] by auto
    then have "below i (x # xs) = 0" "\<not> bits_Len64 ((x # xs) ! k) < i"
      using nth_mem [OF Cons.prems(2)] by (simp_all add: below_def filter_empty_conv)
    then show ?thesis by simp
  qed
qed simp

lemma bucketAt_rank:
  assumes s: "sorted xs" "unat rk < length xs" "int (length xs) < 2 ^ 64"
    and "below i xs \<le> unat rk" "bits_Len64 (xs ! unat rk) < i + n"
  shows "bucketAt rk i (of_nat (below i xs)) (map (\<lambda>j. of_nat (inBucket j xs)) [i..<i + n]) = Some (bits_Len64 (xs ! unat rk))"
  using assms(4,5)
proof (induction n arbitrary: i)
  case 0
  then show ?case using sorted_rank [OF s(1,2), of i] by simp
next
  case (Suc n)
  let ?l = "bits_Len64 (xs ! unat rk)"
  have up: "[i..<i + Suc n] = i # [Suc i..<Suc i + n]" by (simp add: upt_conv_Cons)
  have cum: "of_nat (below i xs) + of_nat (inBucket i xs) = (of_nat (below (Suc i) xs) :: u64)" by (simp add: below_Suc)
  have "below (Suc i) xs \<le> length xs" by (simp add: below_def)
  then have u: "unat (of_nat (below (Suc i) xs) :: u64) = below (Suc i) xs" using s(3) by (simp add: unat_of_nat take_bit_nat_eq_self)
  then have gt: "(of_nat (below (Suc i) xs) :: u64) > rk \<longleftrightarrow> ?l < Suc i"
    using sorted_rank [OF s(1,2), of "Suc i"] by (simp add: word_less_nat_alt)
  have ge: "i \<le> ?l" using sorted_rank [OF s(1,2), of i] Suc.prems(1) by simp
  show ?case
  proof (cases "?l < Suc i")
    case True
    then have "?l = i" using ge by simp
    then show ?thesis unfolding up using gt by (simp add: cum del: upt_Suc)
  next
    case False
    then have "below (Suc i) xs \<le> unat rk" using sorted_rank [OF s(1,2), of "Suc i"] by simp
    from Suc.IH [OF this] Suc.prems(2) show ?thesis unfolding up using gt False by (simp add: cum del: upt_Suc)
  qed
qed

lemma inBucket_sort: "inBucket i (sort xs) = inBucket i xs"
proof -
  have "size (filter_mset (\<lambda>x. bits_Len64 x = i) (mset (sort xs))) = size (filter_mset (\<lambda>x. bits_Len64 x = i) (mset xs))" by simp
  then show ?thesis unfolding inBucket_def by (metis mset_filter size_mset)
qed

lemma fold_max_Max: "xs \<noteq> [] \<Longrightarrow> fold max xs 0 = Max (set (xs :: u64 list))"
proof -
  assume ne: "xs \<noteq> []"
  have "fold max xs (0 :: u64) = Max (set (0 # xs))" using Max.set_eq_fold [of 0 xs] by simp
  also have "\<dots> = max 0 (Max (set xs))" using ne by (simp add: Max_insert)
  finally show ?thesis by simp
qed

lemma rank_of_fraction:
  assumes "0 \<le> q" "q \<le> 1" "n \<noteq> 0" "int n < 2 ^ 53"
  shows "unat (u64_of_f64 (fmul (Fin q) (f64_of_u64 (of_nat n - 1)))) = nat \<lfloor>round64 (q * of_nat (n - 1))\<rfloor>"
    "nat \<lfloor>round64 (q * of_nat (n - 1))\<rfloor> < n"
proof -
  let ?w = "of_nat n - 1 :: u64" and ?x = "q * of_nat (n - 1) :: rat"
  have w: "?w = of_nat (n - 1)" using assms(3) by (simp add: of_nat_diff)
  have "uint ?w = int (n - 1)" unfolding w using assms(4) by (simp add: unsigned_of_nat take_bit_int_eq_self of_nat_take_bit)
  then have r: "u64_rat ?w = of_nat (n - 1)" "uint ?w < 2 ^ 53" using assms(4) by (simp_all add: u64_rat_def)
  have x: "0 \<le> ?x" "?x \<le> of_nat (n - 1)" using assms(1,2) by (simp_all add: mult_left_le_one_le)
  have ri: "round64 (of_nat (n - 1)) = (of_nat (n - 1) :: rat)"
    using round64_of_int [of "int (n - 1)"] assms(4) by simp
  have rx: "0 \<le> round64 ?x" "round64 ?x \<le> of_nat (n - 1)"
    using round64_mono [OF x(1)] round64_mono [OF x(2)] ri by simp_all
  have "\<bar>?x\<bar> \<le> 2 powi 1023"
    using x u64_rat_bound [of ?w] r(1) by simp
  then have f: "fmul (Fin q) (f64_of_u64 ?w) = Fin (round64 ?x)" using r by (simp add: f64_of_u64_exact f64_Fin)
  have fl: "0 \<le> \<lfloor>round64 ?x\<rfloor>" "\<lfloor>round64 ?x\<rfloor> \<le> int (n - 1)" using rx floor_mono [OF rx(2)] by simp_all
  then show "nat \<lfloor>round64 ?x\<rfloor> < n" using assms(3) by linarith
  have "uint (word_of_int \<lfloor>round64 ?x\<rfloor> :: u64) = \<lfloor>round64 ?x\<rfloor>"
  proof -
    have "int (n - 1) < 2 ^ 64" using assms(4) by simp
    with fl(2) have "\<lfloor>round64 ?x\<rfloor> < 2 ^ 64" by (rule le_less_trans)
    then show ?thesis using fl(1) by (simp add: uint_word_of_int mod_pos_pos_trivial)
  qed
  then show "unat (u64_of_f64 (fmul (Fin q) (f64_of_u64 ?w))) = nat \<lfloor>round64 ?x\<rfloor>"
    unfolding f using rx(1) by (simp add: u64_of_f64_def unat_eq_nat_uint)
qed

lemma uint_push_bit_1: "n < 64 \<Longrightarrow> uint (push_bit n 1 :: u64) = 2 ^ n"
proof -
  assume "n < 64"
  moreover have "uint (push_bit n 1 :: u64) = take_bit 64 (push_bit n 1)" by (subst unsigned_push_bit_eq) simp
  ultimately show ?thesis by (simp add: push_bit_of_1 take_bit_of_exp)
qed

section \<open>Properties\<close>

text \<open>
  C18. A percentile of the constant-size histogram is right to a factor of two. For every
  non-empty list of fewer than 2^53 samples and every fraction between 0 and 1, the value is
  the power of two just below the sample whose rank in sorted order is that fraction of the
  number of samples, and 0 exactly when that sample is 0; count and maximum are exact.
\<close>

theorem percentile_within_factor_two:
  assumes "xs \<noteq> []" "int (length xs) < 2 ^ 53" "0 \<le> q" "q \<le> 1"
  shows "let h = fold jh_record xs newJitterHistogram; p = percentileNs h (Fin q);
      k = nat \<lfloor>round64 (q * of_nat (length xs - 1))\<rfloor>; t = sort xs ! k
    in k < length xs \<and> p \<le> t \<and> (if t = 0 then p = 0 else uint t < 2 * uint p) \<and>
       jh_count h = of_nat (length xs) \<and> jh_maxNs h = Max (set xs)"
proof -
  let ?h = "fold jh_record xs newJitterHistogram"
  define k where "k = nat \<lfloor>round64 (q * of_nat (length xs - 1))\<rfloor>"
  define rk where "rk = u64_of_f64 (fmul (Fin q) (f64_of_u64 (of_nat (length xs) - 1)))"
  let ?l = "bits_Len64 (sort xs ! k)"
  have n: "length xs \<noteq> 0" using assms(1) by simp
  have rk: "unat rk = k" "k < length xs" unfolding k_def rk_def by (rule rank_of_fraction [OF assms(3,4) n assms(2)])+
  have "uint (of_nat (length xs) :: u64) = int (length xs)"
    using assms(2) by (simp add: unsigned_of_nat take_bit_int_eq_self of_nat_take_bit)
  then have c: "(of_nat (length xs) :: u64) \<noteq> 0" using n by (auto simp: uint_0_iff [symmetric] simp del: uint_0_iff)
  have "bucketAt rk 0 0 (map (\<lambda>i. of_nat (inBucket i xs)) [0..<65]) = Some ?l"
    using bucketAt_rank [of "sort xs" rk 0 65] rk assms(2) bits_Len64_bound [of "sort xs ! k"]
    by (simp add: inBucket_sort below_def del: upt_rec_numeral)
  then have p: "percentileNs ?h (Fin q) = (if ?l = 0 then 0 else push_bit (?l - 1) 1)"
    using c by (simp add: percentileNs_def histogram_of_samples Let_def rk_def del: upt_rec_numeral)
  have b: "?l \<noteq> 0 \<Longrightarrow> uint (push_bit (?l - 1) 1 :: u64) = 2 ^ (?l - 1)"
    using bits_Len64_bound [of "sort xs ! k"] uint_push_bit_1 [of "?l - 1"] by simp
  show ?thesis
    unfolding Let_def k_def [symmetric]
    using p b rk(2) bits_Len64_range [of "sort xs ! k"] fold_max_Max [OF assms(1)]
    by (cases "?l = 0") (auto simp: word_le_def histogram_of_samples)
qed

theorem percentile_within_factor_two_witness:
  "let h = fold jh_record [5, 0, 900, 17] newJitterHistogram; p = percentileNs h (Fin (1 / 2)) in
    p \<le> 5 \<and> 5 < 2 * uint p \<and> jh_count h = 4 \<and> jh_maxNs h = 900"
proof -
  have k: "nat \<lfloor>round64 (1 / 2 * of_nat (length [5 :: u64, 0, 900, 17] - 1))\<rfloor> = 1" by code_simp
  have "sort [5 :: u64, 0, 900, 17] = [0, 5, 17, 900]" by simp
  with percentile_within_factor_two [of "[5, 0, 900, 17]" "1 / 2"] k show ?thesis by (simp add: Let_def)
qed

end
