(* ===== verification/Validator.thy ===== *)
theory Validator
  imports FullMode InvMode Jitter
begin

text \<open>
  The validator service: \<open>main.go\<close>, \<open>store/postgres.go\<close> and \<open>publisher/kafka.go\<close> of the
  correctness-validator. The table \<open>correctness_summary\<close> is a map from session ids to rows and
  a statement acts on it as its SQL text says; the database, the broker and the clock appear
  as an environment that says which of the calls of one attempt fail and with what error.
  Metrics, logs and the HTTP endpoints have no effect on the results and are left out.
\<close>

section \<open>The summary table\<close>

definition StatusScored :: string where
  "StatusScored = ''scored''"

definition StatusTimedOut :: string where
  "StatusTimedOut = ''timed_out''"

record SumRecord =
  sm_SessionID :: string
  sm_ContestantID :: string
  sm_Report :: Report
  sm_Status :: string
  sm_SentCount :: u64
  sm_AckedCount :: u64
  sm_MatchedCount :: u64
  sm_ComputedAtNS :: u64

text \<open>One row of \<open>correctness_summary\<close>; the BIGINT columns hold signed 64-bit numbers.\<close>

record SumRow =
  row_contestant_id :: string
  row_valid_fills :: i64
  row_total_fills :: i64
  row_correctness_score :: float64
  row_violation_count :: i64
  row_phantom_fills :: i64
  row_overfills :: i64
  row_price_violations :: i64
  row_computed_at_ns :: i64
  row_status :: string
  row_sent_count :: i64
  row_acked_count :: i64
  row_matched_count :: i64
  row_time_violations :: i64
  row_self_trades :: i64
  row_cancel_replace_loss :: i64
  row_missed_fills :: i64
  row_lost_orders :: i64
  row_lost_cancels :: i64

type_synonym SumTable = "string \<rightharpoonup> SumRow"

definition SummaryStatus :: "SumTable \<Rightarrow> string \<Rightarrow> string option" where
  "SummaryStatus t sessionID = map_option row_status (t sessionID)"

definition rowOf :: "SumRecord \<Rightarrow> SumRow" where
  "rowOf rec = (let
       status = (if sm_Status rec = [] then StatusScored else sm_Status rec);
       r = sm_Report rec;
       crlCount = int64 (CancelReplaceLosses r);
       timeCount = int64 (TimeViolations r - CancelReplaceLosses r);
       timeCount' = (if timeCount < 0 then 0 else timeCount)
     in \<lparr>row_contestant_id = sm_ContestantID rec, row_valid_fills = int64 (ValidFills r), row_total_fills = int64 (TotalFills r),
         row_correctness_score = CorrectnessScore r, row_violation_count = int64 (ViolationCount r),
         row_phantom_fills = int64 (PhantomFills r), row_overfills = int64 (Overfills r),
         row_price_violations = int64 (PriceViolations r), row_computed_at_ns = int64 (sm_ComputedAtNS rec), row_status = status,
         row_sent_count = int64 (sm_SentCount rec), row_acked_count = int64 (sm_AckedCount rec),
         row_matched_count = int64 (sm_MatchedCount rec), row_time_violations = timeCount',
         row_self_trades = int64 (SelfTrades r), row_cancel_replace_loss = crlCount, row_missed_fills = int64 (MissedFills r),
         row_lost_orders = int64 (rep_LostOrders r), row_lost_cancels = int64 (LostCancels r)\<rparr>)"

text \<open>The upsert: a conflicting row is replaced only when it is a placeholder and the new row is a score.\<close>

definition Save :: "SumTable \<Rightarrow> SumRecord \<Rightarrow> bool \<times> SumTable" where
  "Save t rec = (let row = rowOf rec in case t (sm_SessionID rec) of
     None \<Rightarrow> (True, t(sm_SessionID rec \<mapsto> row))
   | Some old \<Rightarrow> if row_status old = StatusTimedOut \<and> row_status row = StatusScored
       then (True, t(sm_SessionID rec \<mapsto> row)) else (False, t))"

record CorrectnessScoreEvent =
  ce_SessionID :: string
  ce_ContestantID :: string
  ce_ValidFills :: u64
  ce_TotalFills :: u64
  ce_CorrectnessScore :: float64
  ce_ViolationCount :: u64
  ce_ComputedAtNS :: u64
  ce_SentCount :: u64
  ce_AckedCount :: u64
  ce_MatchedCount :: u64
  ce_JitterP50US :: float64
  ce_JitterP99US :: float64
  ce_JitterP999US :: float64
  ce_JitterMaxUS :: float64
  ce_JitterInvRate :: float64
  ce_T7ReorderLate :: u64
  ce_T7Anomalies :: u64
  ce_ResultTainted :: bool
  ce_TaintReason :: taintReason

definition LoadScore :: "SumTable \<Rightarrow> string \<Rightarrow> CorrectnessScoreEvent option" where
  "LoadScore t sessionID = (case t sessionID of
     None \<Rightarrow> None
   | Some row \<Rightarrow> Some \<lparr>ce_SessionID = sessionID, ce_ContestantID = row_contestant_id row,
       ce_ValidFills = word_of_int (row_valid_fills row), ce_TotalFills = word_of_int (row_total_fills row),
       ce_CorrectnessScore = row_correctness_score row, ce_ViolationCount = word_of_int (row_violation_count row),
       ce_ComputedAtNS = word_of_int (row_computed_at_ns row), ce_SentCount = word_of_int (row_sent_count row),
       ce_AckedCount = word_of_int (row_acked_count row), ce_MatchedCount = word_of_int (row_matched_count row),
       ce_JitterP50US = Fin 0, ce_JitterP99US = Fin 0, ce_JitterP999US = Fin 0, ce_JitterMaxUS = Fin 0, ce_JitterInvRate = Fin 0,
       ce_T7ReorderLate = 0, ce_T7Anomalies = 0, ce_ResultTainted = False, ce_TaintReason = NoReason\<rparr>)"

section \<open>One attempt to validate a session\<close>

record ValidatorCfg =
  vc_brokers :: "string list"
  vc_reorderWindow :: int
  vc_mode :: string
  vc_crossFlowWindowUs :: u64
  vc_t7ReorderWindow :: int
  vc_t7AnomalyCapNs :: u64
  vc_lateTaintRate :: float64
  vc_bandWidth :: int

record World =
  wd_table :: SumTable
  wd_bands :: BandCache
  wd_published :: "CorrectnessScoreEvent list"

record ('v, 'e) Attempt =
  at_statusErr :: "'e option"
  at_loadErr :: "'e option"
  at_saveErr :: "'e option"
  at_publishErr :: "'e option"
  at_settleErr :: "'e option"
  at_nowNS :: u64
  at_kafka :: "('v, 'e) kafka_ops"

datatype 'e pErr = MarshalFailed | WriteFailed 'e

datatype 'e vErr =
    IdempotencyCheck 'e
  | LoadFailed 'e
  | RepublishFailed "'e pErr"
  | ContextDone 'e
  | StreamFailed "'e src_error"
  | SaveFailed 'e
  | PublishFailed "'e pErr"
  | SavePlaceholderFailed 'e

text \<open>\<open>json.Marshal\<close> refuses a float that is not finite.\<close>

fun finiteF :: "float64 \<Rightarrow> bool" where
  "finiteF (Fin _) = True"
| "finiteF _ = False"

definition marshals :: "CorrectnessScoreEvent \<Rightarrow> bool" where
  "marshals ev \<longleftrightarrow> finiteF (ce_CorrectnessScore ev) \<and> finiteF (ce_JitterP50US ev) \<and> finiteF (ce_JitterP99US ev) \<and>
     finiteF (ce_JitterP999US ev) \<and> finiteF (ce_JitterMaxUS ev) \<and> finiteF (ce_JitterInvRate ev)"

definition Publish :: "'e option \<Rightarrow> World \<Rightarrow> CorrectnessScoreEvent \<Rightarrow> 'e pErr option \<times> World" where
  "Publish err w ev = (if \<not> marshals ev then (Some MarshalFailed, w)
     else case err of Some e \<Rightarrow> (Some (WriteFailed e), w)
       | None \<Rightarrow> (None, w\<lparr>wd_published := wd_published w @ [ev]\<rparr>))"

definition sessionMode :: "string \<Rightarrow> SessionMeta \<Rightarrow> string" where
  "sessionMode mode meta = (if mode = ''full'' \<or> mode = ''invariants'' then mode
     else if MaxRate meta then ''full'' else ''invariants'')"

text \<open>
  The calls of the source are made while it reads, and the report is built after it has
  returned without an error; \<open>None\<close> when the source or the engine does not return.
\<close>

definition gradeSession :: "'t level_ops \<Rightarrow> ValidatorCfg \<Rightarrow> string \<Rightarrow> Callback list \<Rightarrow> Report option" where
  "gradeSession B c mode tr = (if mode = ''invariants''
     then Some (Finish_iv (foldl handleInv
       (SetLateTaintRate (vc_lateTaintRate c) (SetT7AnomalyCapNs (vc_t7AnomalyCapNs c)
         (NewInvariantsValidatorWithWindow (vc_crossFlowWindowUs c) (vc_t7ReorderWindow c)))) tr))
     else map_option (Finish_full B) (runFull B (NewStreamValidator B) tr))"

definition scoreEvent :: "string \<Rightarrow> string \<Rightarrow> Report \<Rightarrow> u64 \<Rightarrow> StreamCounts \<Rightarrow> CorrectnessScoreEvent" where
  "scoreEvent sessionID contestant report now counts =
     \<lparr>ce_SessionID = sessionID, ce_ContestantID = contestant, ce_ValidFills = ValidFills report, ce_TotalFills = TotalFills report,
      ce_CorrectnessScore = CorrectnessScore report, ce_ViolationCount = ViolationCount report, ce_ComputedAtNS = now,
      ce_SentCount = SentEvents counts, ce_AckedCount = AckedEvents counts, ce_MatchedCount = MatchedOrders counts,
      ce_JitterP50US = js_P50Us (Jitter report), ce_JitterP99US = js_P99Us (Jitter report),
      ce_JitterP999US = js_P999Us (Jitter report), ce_JitterMaxUS = js_MaxUs (Jitter report),
      ce_JitterInvRate = js_InversionRate (Jitter report), ce_T7ReorderLate = T7ReorderLate report,
      ce_T7Anomalies = T7Anomalies report, ce_ResultTainted = Tainted report, ce_TaintReason = TaintReason report\<rparr>"

definition scoreRecord :: "string \<Rightarrow> string \<Rightarrow> Report \<Rightarrow> u64 \<Rightarrow> StreamCounts \<Rightarrow> SumRecord" where
  "scoreRecord sessionID contestant report now counts =
     \<lparr>sm_SessionID = sessionID, sm_ContestantID = contestant, sm_Report = report, sm_Status = StatusScored,
      sm_SentCount = SentEvents counts, sm_AckedCount = AckedEvents counts, sm_MatchedCount = MatchedOrders counts,
      sm_ComputedAtNS = now\<rparr>"

text \<open>The part after the report: claim the session in the table, then publish.\<close>

definition saveAndPublish :: "('v, 'e) Attempt \<Rightarrow> World \<Rightarrow> string \<Rightarrow> string \<Rightarrow> Report \<Rightarrow> StreamCounts \<Rightarrow> 'e vErr option \<times> World" where
  "saveAndPublish a w sessionID contestant report counts = (case at_saveErr a of
     Some e \<Rightarrow> (Some (SaveFailed e), w)
   | None \<Rightarrow> (case Save (wd_table w) (scoreRecord sessionID contestant report (at_nowNS a) counts) of
       (False, _) \<Rightarrow> (None, w)
     | (True, t) \<Rightarrow> (case Publish (at_publishErr a) (w\<lparr>wd_table := t\<rparr>)
           (scoreEvent sessionID contestant report (at_nowNS a) counts) of
         (Some e, w') \<Rightarrow> (Some (PublishFailed e), w')
       | (None, w') \<Rightarrow> (None, w'))))"

definition republish :: "('v, 'e) Attempt \<Rightarrow> World \<Rightarrow> string \<Rightarrow> 'e vErr option \<times> World" where
  "republish a w sessionID = (case at_loadErr a of
     Some e \<Rightarrow> (Some (LoadFailed e), w)
   | None \<Rightarrow> (case LoadScore (wd_table w) sessionID of
       None \<Rightarrow> (None, w)
     | Some ev \<Rightarrow> (case Publish (at_publishErr a) w ev of
         (Some e, w') \<Rightarrow> (Some (RepublishFailed e), w')
       | (None, w') \<Rightarrow> (None, w'))))"

definition validateSession :: "'t level_ops \<Rightarrow> ValidatorCfg \<Rightarrow> ('v, 'e) Attempt \<Rightarrow> World \<Rightarrow> string \<Rightarrow> ('e vErr option \<times> World) option" where
  "validateSession B c a w sessionID = (case at_statusErr a of
     Some e \<Rightarrow> Some (Some (IdempotencyCheck e), w)
   | None \<Rightarrow>
       if SummaryStatus (wd_table w) sessionID = Some StatusScored then Some (republish a w sessionID)
       else (case at_settleErr a of
         Some e \<Rightarrow> Some (Some (ContextDone e), w)
       | None \<Rightarrow> (let
           (meta, bands) = GetAndDelete (wd_bands w) sessionID;
           w1 = w\<lparr>wd_bands := bands\<rparr>;
           mode = sessionMode (vc_mode c) meta
         in case StreamSession (at_kafka a) (vc_brokers c) sessionID (vc_reorderWindow c) (Band meta) (vc_bandWidth c) of
           None \<Rightarrow> None
         | Some sr \<Rightarrow> (case sr_error sr of
             Some e \<Rightarrow> Some (Some (StreamFailed e), w1)
           | None \<Rightarrow> (case gradeSession B c mode (sr_trace sr) of
               None \<Rightarrow> None
             | Some report \<Rightarrow> Some (saveAndPublish a w1 sessionID (sr_contestant sr) report (sr_counts sr)))))))"

section \<open>The consumers\<close>

definition timeoutRecord :: "string \<Rightarrow> u64 \<Rightarrow> SumRecord" where
  "timeoutRecord sessionID nowNS = \<lparr>sm_SessionID = sessionID, sm_ContestantID = [], sm_Report = zeroReport, sm_Status = StatusTimedOut,
     sm_SentCount = 0, sm_AckedCount = 0, sm_MatchedCount = 0, sm_ComputedAtNS = nowNS\<rparr>"

definition recordValidationTimeout :: "('v, 'e) Attempt \<Rightarrow> World \<Rightarrow> string \<Rightarrow> 'e vErr option \<times> World" where
  "recordValidationTimeout a w sessionID = (case at_statusErr a of
     Some e \<Rightarrow> (Some (IdempotencyCheck e), w)
   | None \<Rightarrow> (case SummaryStatus (wd_table w) sessionID of
       Some _ \<Rightarrow> republish a w sessionID
     | None \<Rightarrow> (case at_saveErr a of
         Some e \<Rightarrow> (Some (SavePlaceholderFailed e), w)
       | None \<Rightarrow> republish a (w\<lparr>wd_table := snd (Save (wd_table w) (timeoutRecord sessionID (at_nowNS a)))\<rparr>) sessionID)))"

text \<open>
  One message of \<open>benchmark.status.updated\<close>: \<open>None\<close> when it does not decode. The environment
  gives the attempt, the attempt of the fallback and whether an error is the deadline of the
  attempt. The result says whether the message is committed.
\<close>

definition statusStep :: "'t level_ops \<Rightarrow> ValidatorCfg \<Rightarrow> ('e vErr \<Rightarrow> bool) \<Rightarrow> ('v, 'e) Attempt \<Rightarrow> ('v, 'e) Attempt \<Rightarrow>
    World \<Rightarrow> (string \<times> string) option \<Rightarrow> (bool \<times> World) option" where
  "statusStep B c isDeadline a fallback w msg = (case msg of
     None \<Rightarrow> Some (True, w)
   | Some (sessionID, status) \<Rightarrow>
       if status \<noteq> RunStatusCompleted then Some (True, w)
       else (case validateSession B c a w sessionID of
         None \<Rightarrow> None
       | Some (None, w1) \<Rightarrow> Some (True, w1)
       | Some (Some e, w1) \<Rightarrow>
           if isDeadline e then (case recordValidationTimeout fallback w1 sessionID of
               (None, w2) \<Rightarrow> Some (True, w2)
             | (Some _, w2) \<Rightarrow> Some (False, w2))
           else Some (False, w1)))"

record workloadSpecOrderBand =
  wo_SessionID :: string
  wo_OrderBand :: "u32 option"
  wo_TargetRPS :: "u32 list"

definition bandStep :: "BandCache \<Rightarrow> workloadSpecOrderBand option \<Rightarrow> BandCache" where
  "bandStep cache msg = (case msg of
     None \<Rightarrow> cache
   | Some spec \<Rightarrow> if wo_SessionID spec = [] then cache
       else BandCache_Set cache (wo_SessionID spec)
         \<lparr>Band = (case wo_OrderBand spec of None \<Rightarrow> OrderBandUnset | Some b \<Rightarrow> b),
          MaxRate = (wo_TargetRPS spec \<noteq> [] \<and> list_all (\<lambda>t. t = 0) (wo_TargetRPS spec))\<rparr>)"

section \<open>Configuration\<close>

datatype cfgErr = TimeoutNotPositive int | TimeoutWithinSettle int int

text \<open>\<open>Duration.Milliseconds\<close> truncates towards zero.\<close>

definition milliseconds :: "int \<Rightarrow> int" where
  "milliseconds d = (if d \<ge> 0 then d div 1000000 else - (- d div 1000000))"

definition checkTimeoutConfig :: "int \<Rightarrow> int \<Rightarrow> cfgErr option" where
  "checkTimeoutConfig validationTimeout settleDelay =
     (if validationTimeout \<le> 0 then Some (TimeoutNotPositive (milliseconds validationTimeout))
      else if validationTimeout \<le> settleDelay
      then Some (TimeoutWithinSettle (milliseconds validationTimeout) (milliseconds settleDelay)) else None)"

definition instanceGroup :: "string \<Rightarrow> string \<Rightarrow> string" where
  "instanceGroup base inst = (if inst = [] then base else base @ ''-'' @ inst)"

definition envOr :: "(string \<Rightarrow> string) \<Rightarrow> string \<Rightarrow> string \<Rightarrow> string" where
  "envOr getenv k d = (let v = strings_TrimSpace (getenv k) in if v \<noteq> [] then v else d)"

definition parseBrokers :: "string \<Rightarrow> string list" where
  "parseBrokers s = filter (\<lambda>b. b \<noteq> []) (map strings_TrimSpace (strings_Split (CHR '','') s))"

end
