(* ===== verification/Validator_Props.thy ===== *)
theory Validator_Props
  imports Validator
begin

text \<open>
  The validator service: a score is claimed once and then final, what is stored is what was
  computed, every event can be encoded, an attempt without faults ends with a published
  score whatever happened before, and what a failed attempt leaves behind.
\<close>

section \<open>Every event is encodable\<close>

lemma quotient_finite:
  assumes "1 \<le> y"
  shows "finiteF (fdiv (f64_of_u64 a) (Fin y))"
proof -
  define x where "x = round64 (u64_rat a)"
  have "u64_rat a \<le> 2 powi 64"
  proof -
    have "uint a < 2 ^ 64" using uint_lt2p [of a] by simp
    then have "(of_int (uint a) :: rat) \<le> of_int (2 ^ 64)" by (intro of_int_le_iff [THEN iffD2]) simp
    then show ?thesis by (simp add: u64_rat_def)
  qed
  then have "x \<le> round64 (2 powi 64)" unfolding x_def by (rule round64_mono)
  also have "\<dots> = 2 powi 64" by (rule round64_pow2) simp
  finally have x: "x \<le> 2 powi 64" .
  have x0: "0 \<le> x" using round64_mono [of 0 "u64_rat a"] by (simp add: x_def)
  have "x / y \<le> x" using x0 assms mult_left_mono [of 1 y x] by (simp add: divide_le_eq)
  also note x
  also have "(2 :: rat) powi 64 \<le> 2 powi 1023" by (rule powi_mono) simp
  finally have "\<bar>x / y\<bar> \<le> 2 powi 1023" using x0 assms by simp
  then have "fdiv (f64_of_u64 a) (Fin y) = Fin (round64 (x / y))"
    using assms f64_Fin by (simp add: f64_of_u64_Fin flip: x_def)
  then show ?thesis by simp
qed

lemma f64_1000: "f64 1000 = Fin 1000"
  using round64_of_int [of 1000] f64_Fin [of 1000] powi_mono [of 10 1023] by simp

lemma CorrectnessScore_finite: "finiteF (CorrectnessScore r)"
proof (cases "ScoredOrders r = 0")
  case False
  then have "1 \<le> round64 (u64_rat (ScoredOrders r))" by (rule round64_u64_ge1)
  from quotient_finite [OF this] False show ?thesis by (simp add: CorrectnessScore_def Let_def f64_of_u64_Fin)
qed (simp add: CorrectnessScore_def)

definition jitterOk :: "JitterStats \<Rightarrow> bool" where
  "jitterOk j \<longleftrightarrow> finiteF (js_InversionRate j) \<and> finiteF (js_P50Us j) \<and> finiteF (js_P99Us j) \<and> finiteF (js_P999Us j) \<and> finiteF (js_MaxUs j)"

lemma stats_ok: "jitterOk (stats h n)"
proof -
  have "finiteF (fdiv (f64_of_u64 (jh_count h)) (f64_of_u64 n))" if "n > 0"
    using quotient_finite [OF round64_u64_ge1, of n] that by (simp add: f64_of_u64_Fin)
  then show ?thesis by (auto simp: stats_def Let_def jitterOk_def zeroJitter_def f64_1000 quotient_finite)
qed

lemma zeroJitter_ok [simp]: "jitterOk zeroJitter"
  by (simp add: jitterOk_def zeroJitter_def)

text \<open>Full mode never touches the jitter statistics.\<close>

lemma add_Jitter [simp]: "Jitter (add t i q p d r) = Jitter r"
  by (simp add: add_def MarkDirty_def Let_def)

lemma classify_Jitter [simp]: "Jitter (classifyUnexplained B v x p q d r) = Jitter r"
  by (auto simp: classifyUnexplained_def flagJump_def Let_def split: option.split)

lemma scoreFill_Jitter: "Jitter (snd (scoreFill B v x rf (cum, rep) f)) = Jitter rep"
  by (auto simp: scoreFill_def Let_def split: option.split)

lemma foldl_scoreFill_Jitter: "Jitter (snd (foldl (scoreFill B v x rf) (cum, rep) fs)) = Jitter rep"
proof (induction fs arbitrary: cum rep)
  case (Cons f fs)
  obtain c1 r1 where s: "scoreFill B v x rf (cum, rep) f = (c1, r1)" by fastforce
  from Cons.IH [of c1 r1] scoreFill_Jitter [of B v x rf cum rep f] s show ?case by simp
qed simp

lemma finalize_Jitter [simp]: "Jitter (sv_rep (finalize B i v)) = Jitter (sv_rep v)"
proof (cases "map_of (sv_pending v) i")
  case (Some px)
  then obtain p x where m: "map_of (sv_pending v) i = Some (p, x)" by (cases px) auto
  let ?v = "v\<lparr>sv_pending := AList.delete i (sv_pending v), sv_ref := (sv_ref v)(i := None)\<rparr>"
  obtain cum rp where f: "foldl (scoreFill B ?v x (sv_ref v i)) (0, sv_rep ?v) (o_Responses x) = (cum, rp)" by fastforce
  obtain sh rep where s: "scoreOrder B ?v x (sv_ref v i) = (sh, rep)" by fastforce
  have "Jitter rep = Jitter rp" using s f by (auto simp: scoreOrder_def split: option.splits if_splits)
  moreover have "Jitter rp = Jitter (sv_rep v)"
    using foldl_scoreFill_Jitter [of B ?v x "sv_ref v i" 0 "sv_rep ?v" "o_Responses x"] f by simp
  ultimately show ?thesis by (simp add: finalize_fields(3) [OF m s])
qed (simp add: finalize_def)

lemma fold_finalize_Jitter [simp]: "Jitter (sv_rep (fold (finalize B) is v)) = Jitter (sv_rep v)"
  by (induction "is" arbitrary: v) simp_all

lemma runFull_Jitter: "runFull B v tr = Some v' \<Longrightarrow> Jitter (sv_rep v') = Jitter (sv_rep v)"
proof (induction tr arbitrary: v)
  case (Cons c cs)
  then obtain v1 where h: "handleFull B v c = Some v1" "runFull B v1 cs = Some v'" by (auto split: option.splits)
  have "Jitter (sv_rep v1) = Jitter (sv_rep v)"
  proof (cases c)
    case (Apply x)
    then have a: "Apply_full B v x = Some v1" using h(1) by (simp add: handleFull_def)
    then obtain e1 where p: "Process B (sv_engine v) x = Some e1"
      by (cases "Process B (sv_engine v) x") (simp_all add: Apply_full_def Let_def)
    have "Jitter (sv_rep v1) = Jitter (sv_rep (recorded v x e1))"
      using a unfolding Apply_recorded [OF p] Let_def by (auto split: if_splits)
    then show ?thesis by (simp add: recorded_def)
  qed (use h(1) in \<open>auto simp: handleFull_def AddPhantom_full_def AddLost_full_def AddCaptureGap_full_def Let_def\<close>)
  then show ?case using Cons.IH [OF h(2)] by simp
qed simp

lemma Finish_full_Jitter: "Jitter (Finish_full B v) = Jitter (sv_rep v)"
proof -
  let ?ids = "map o_OrderID (sort_stable Less (map (\<lambda>(_, _, o'). o') (sv_pending v)))"
  have "Jitter (sv_rep (fold (finalize B) ?ids v)) = Jitter (sv_rep v)" by (simp del: map_map)
  then show ?thesis by (simp add: Finish_full_def Let_def gapTaint_def fold_map comp_def)
qed

lemma gradeSession_jitterOk:
  assumes "gradeSession B c mode tr = Some r"
  shows "jitterOk (Jitter r)"
proof (cases "mode = ''invariants''")
  case True
  then show ?thesis using assms by (auto simp: gradeSession_def Finish_iv_def Let_def gapTaint_def stats_ok split: prod.splits)
next
  case False
  then obtain v where "runFull B (NewStreamValidator B) tr = Some v" "r = Finish_full B v" using assms by (auto simp: gradeSession_def)
  then show ?thesis using runFull_Jitter [of B "NewStreamValidator B" tr v]
    by (simp add: Finish_full_Jitter NewStreamValidator_def zeroReport_def)
qed

lemma scoreEvent_marshals: "jitterOk (Jitter r) \<Longrightarrow> marshals (scoreEvent s ct r now counts)"
  by (simp add: marshals_def scoreEvent_def jitterOk_def CorrectnessScore_finite)

section \<open>The table\<close>

text \<open>The statements of any number of workers reach the table one after the other.\<close>

fun saves :: "SumTable \<Rightarrow> SumRecord list \<Rightarrow> bool list \<times> SumTable" where
  "saves t [] = ([], t)"
| "saves t (rec # recs) = (case Save t rec of (ok, t1) \<Rightarrow> (case saves t1 recs of (oks, t2) \<Rightarrow> (ok # oks, t2)))"

definition isScored :: "SumTable \<Rightarrow> string \<Rightarrow> bool" where
  "isScored t s \<longleftrightarrow> SummaryStatus t s = Some StatusScored"

definition scoring :: "string \<Rightarrow> SumRecord \<Rightarrow> bool" where
  "scoring s rec \<longleftrightarrow> sm_SessionID rec = s \<and> row_status (rowOf rec) = StatusScored"

lemma status_ne [simp]: "StatusScored \<noteq> StatusTimedOut" "StatusTimedOut \<noteq> StatusScored"
  by (simp_all add: StatusScored_def StatusTimedOut_def)

lemma Save_scored_final:
  assumes "isScored t s" "Save t rec = (ok, t1)"
  shows "t1 s = t s" "\<not> (ok \<and> sm_SessionID rec = s)"
  using assms by (auto simp: isScored_def SummaryStatus_def Save_def Let_def split: option.splits if_splits)

lemma Save_claim:
  assumes "Save t rec = (True, t1)" "scoring s rec"
  shows "isScored t1 s" "t1 s = Some (rowOf rec)"
  using assms by (auto simp: isScored_def SummaryStatus_def scoring_def Save_def Let_def split: option.splits if_splits)

definition claims :: "string \<Rightarrow> SumTable \<Rightarrow> SumRecord list \<Rightarrow> SumRecord list" where
  "claims s t recs = map fst (filter (\<lambda>(rec, ok). ok \<and> scoring s rec) (zip recs (fst (saves t recs))))"

lemma saves_scored_final: "isScored t s \<Longrightarrow> snd (saves t recs) s = t s \<and> claims s t recs = []"
proof (induction recs arbitrary: t)
  case (Cons rec recs)
  obtain ok t1 where p: "Save t rec = (ok, t1)" by fastforce
  note f = Save_scored_final [OF Cons.prems p]
  have "isScored t1 s" using Cons.prems f(1) by (simp add: isScored_def SummaryStatus_def)
  from Cons.IH [OF this] f p show ?case by (auto simp: claims_def scoring_def split: prod.split)
qed (simp add: claims_def)

lemma saves_claims: "claims s t recs = [] \<or> (\<exists>rec. claims s t recs = [rec] \<and> snd (saves t recs) s = Some (rowOf rec))"
proof (induction recs arbitrary: t)
  case (Cons rec recs)
  obtain ok t1 where p: "Save t rec = (ok, t1)" by fastforce
  show ?case
  proof (cases "ok \<and> scoring s rec")
    case True
    then have c: "isScored t1 s" "t1 s = Some (rowOf rec)" using Save_claim [of t rec t1 s] p by auto
    from saves_scored_final [OF c(1), of recs] c(2) p True show ?thesis by (auto simp: claims_def split: prod.split)
  next
    case False
    then show ?thesis using Cons.IH [of t1] p by (auto simp: claims_def split: prod.split)
  qed
qed (simp add: claims_def)

text \<open>What survives a round trip through the table: everything but the jitter and health fields.\<close>

definition persisted :: "Report \<Rightarrow> Report" where
  "persisted r = r\<lparr>Jitter := zeroJitter, T7ReorderLate := 0, T7Anomalies := 0, Tainted := False, TaintReason := NoReason\<rparr>"

lemma word_int64 [simp]: "word_of_int (int64 w) = w"
  by (simp add: int64_def)

lemma LoadScore_Save:
  assumes "Save t (scoreRecord s ct r now counts) = (True, t1)"
  shows "LoadScore t1 s = Some (scoreEvent s ct (persisted r) now counts)"
proof -
  have "t1 s = Some (rowOf (scoreRecord s ct r now counts))"
    using assms by (auto simp: Save_def Let_def scoreRecord_def split: option.splits if_splits)
  then show ?thesis
    by (simp add: LoadScore_def rowOf_def Let_def scoreRecord_def scoreEvent_def persisted_def zeroJitter_def CorrectnessScore_def ViolationCount_def)
qed

section \<open>Attempts\<close>

definition tableOk :: "SumTable \<Rightarrow> bool" where
  "tableOk t \<longleftrightarrow> (\<forall>s row. t s = Some row \<longrightarrow> finiteF (row_correctness_score row) \<and> row_status row \<in> {StatusScored, StatusTimedOut})"

lemma Save_tableOk: "tableOk t \<Longrightarrow> row_status (rowOf rec) \<in> {StatusScored, StatusTimedOut} \<Longrightarrow> tableOk (snd (Save t rec))"
  by (auto simp: tableOk_def Save_def Let_def rowOf_def CorrectnessScore_finite split: option.split if_splits)

lemma scoreRecord_status [simp]: "row_status (rowOf (scoreRecord s ct r now cs)) = StatusScored"
  by (simp add: rowOf_def Let_def scoreRecord_def StatusScored_def)

lemma LoadScore_marshals: "tableOk t \<Longrightarrow> LoadScore t s = Some ev \<Longrightarrow> marshals ev \<and> ce_SessionID ev = s"
  by (auto simp: tableOk_def LoadScore_def marshals_def split: option.splits)

definition faultless :: "('v, 'e) Attempt \<Rightarrow> bool" where
  "faultless a \<longleftrightarrow> at_statusErr a = None \<and> at_loadErr a = None \<and> at_saveErr a = None \<and> at_publishErr a = None \<and> at_settleErr a = None"

text \<open>The broker and the engine do their part: the source ends without an error and the report is built.\<close>

definition gradable :: "'t level_ops \<Rightarrow> ValidatorCfg \<Rightarrow> ('v, 'e) Attempt \<Rightarrow> World \<Rightarrow> string \<Rightarrow> bool" where
  "gradable B c a w s \<longleftrightarrow> (let meta = fst (GetAndDelete (wd_bands w) s) in
     case StreamSession (at_kafka a) (vc_brokers c) s (vc_reorderWindow c) (Band meta) (vc_bandWidth c) of
       None \<Rightarrow> False
     | Some sr \<Rightarrow> sr_error sr = None \<and> gradeSession B c (sessionMode (vc_mode c) meta) (sr_trace sr) \<noteq> None)"

lemma republish_tableOk: "wd_table (snd (republish a w s)) = wd_table w"
  by (auto simp: republish_def Publish_def split: option.split)

lemma republish_published:
  assumes "tableOk (wd_table w)" "isScored (wd_table w) s" "at_loadErr a = None" "at_publishErr a = None"
  shows "\<exists>ev. republish a w s = (None, w\<lparr>wd_published := wd_published w @ [ev]\<rparr>) \<and> LoadScore (wd_table w) s = Some ev"
proof -
  obtain ev where ev: "LoadScore (wd_table w) s = Some ev"
    using assms(2) by (auto simp: isScored_def SummaryStatus_def LoadScore_def)
  then have "marshals ev" using LoadScore_marshals [OF assms(1)] by blast
  then show ?thesis using ev assms(3,4) by (simp add: republish_def Publish_def)
qed

lemma validateSession_tableOk:
  assumes "validateSession B c a w s = Some (e, w')" "tableOk (wd_table w)"
  shows "tableOk (wd_table w')"
proof -
  have sp: "tableOk (wd_table (snd (saveAndPublish a w1 s ct r cs)))" if "tableOk (wd_table w1)" for w1 ct r cs
    using Save_tableOk [OF that, of "scoreRecord s ct r (at_nowNS a) cs"] that scoreRecord_status
    by (auto simp: saveAndPublish_def Publish_def split: option.split prod.split bool.split)
  have rp: "tableOk (wd_table (snd (republish a w s)))" using assms(2) republish_tableOk [of a w s] by simp
  have "w' = w \<or> w' = snd (republish a w s) \<or> (\<exists>bands. w' = w\<lparr>wd_bands := bands\<rparr> \<or>
     (\<exists>ct r cs. w' = snd (saveAndPublish a (w\<lparr>wd_bands := bands\<rparr>) s ct r cs)))"
    using assms(1) unfolding validateSession_def
    by (auto simp: Let_def split: option.splits if_splits prod.splits) (metis snd_conv)+
  then show ?thesis using sp rp assms(2) by auto
qed

lemma faultless_attempt:
  assumes "tableOk (wd_table w)" "faultless a" "\<not> isScored (wd_table w) s \<Longrightarrow> gradable B c a w s"
  shows "\<exists>w' ev. validateSession B c a w s = Some (None, w') \<and> wd_published w' = wd_published w @ [ev] \<and> ce_SessionID ev = s \<and>
    isScored (wd_table w') s"
proof (cases "isScored (wd_table w) s")
  case True
  from republish_published [OF assms(1) True, of a] assms(2) obtain ev where
    r: "republish a w s = (None, w\<lparr>wd_published := wd_published w @ [ev]\<rparr>)" "LoadScore (wd_table w) s = Some ev"
    by (auto simp: faultless_def)
  then show ?thesis
    using True assms(2) LoadScore_marshals [OF assms(1) r(2)] by (auto simp: validateSession_def faultless_def isScored_def)
next
  case False
  let ?meta = "fst (GetAndDelete (wd_bands w) s)" and ?w = "w\<lparr>wd_bands := snd (GetAndDelete (wd_bands w) s)\<rparr>"
  from assms(3) [OF False] obtain sr r where g: "StreamSession (at_kafka a) (vc_brokers c) s (vc_reorderWindow c) (Band ?meta) (vc_bandWidth c) = Some sr"
    "sr_error sr = None" "gradeSession B c (sessionMode (vc_mode c) ?meta) (sr_trace sr) = Some r"
    by (auto simp: gradable_def Let_def split: option.splits)
  let ?rec = "scoreRecord s (sr_contestant sr) r (at_nowNS a) (sr_counts sr)" and ?ev = "scoreEvent s (sr_contestant sr) r (at_nowNS a) (sr_counts sr)"
  have id: "sm_SessionID ?rec = s" by (simp add: scoreRecord_def)
  have sv: "Save (wd_table w) ?rec = (True, (wd_table w)(s \<mapsto> rowOf ?rec))"
  proof (cases "wd_table w s")
    case (Some row)
    then have "row_status row = StatusTimedOut" using assms(1) False by (auto simp: tableOk_def isScored_def SummaryStatus_def)
    then show ?thesis using Some id by (simp add: Save_def Let_def)
  qed (simp add: Save_def Let_def id)
  have "marshals ?ev" by (rule scoreEvent_marshals [OF gradeSession_jitterOk [OF g(3)]])
  then have "validateSession B c a w s = Some (None, ?w\<lparr>wd_table := (wd_table w)(s \<mapsto> rowOf ?rec), wd_published := wd_published w @ [?ev]\<rparr>)"
    using assms(2) False g sv
    by (simp add: validateSession_def faultless_def isScored_def saveAndPublish_def Publish_def Let_def split_def)
  moreover have "ce_SessionID ?ev = s" by (simp add: scoreEvent_def)
  ultimately show ?thesis by (auto simp: isScored_def SummaryStatus_def)
qed

text \<open>A session handed to the service again and again; an attempt that never returns ends the run.\<close>

fun attempts :: "'t level_ops \<Rightarrow> ValidatorCfg \<Rightarrow> World \<Rightarrow> string \<Rightarrow> ('v, 'e) Attempt list \<Rightarrow> World option" where
  "attempts B c w s [] = Some w"
| "attempts B c w s (a # as) = (case validateSession B c a w s of None \<Rightarrow> None | Some (_, w') \<Rightarrow> attempts B c w' s as)"

lemma attempts_tableOk: "attempts B c w s as = Some w' \<Longrightarrow> tableOk (wd_table w) \<Longrightarrow> tableOk (wd_table w')"
proof (induction as arbitrary: w)
  case (Cons a as)
  then show ?case by (auto split: option.splits intro: validateSession_tableOk)
qed simp

definition freshWorld :: World where
  "freshWorld = \<lparr>wd_table = Map.empty, wd_bands = Map.empty, wd_published = []\<rparr>"

lemma freshWorld_ok: "tableOk (wd_table freshWorld)"
  by (simp add: tableOk_def freshWorld_def)

section \<open>Examples\<close>

text \<open>A broker that serves no partitions, one that cannot be reached, and attempts over them.\<close>

definition emptyKafka :: "(unit, string) kafka_ops" where
  "emptyKafka = demoKafka\<lparr>k_ReadPartitions := (\<lambda>_ _. Inr [])\<rparr>"

definition deadKafka :: "(unit, string) kafka_ops" where
  "deadKafka = demoKafka\<lparr>k_Dial := (\<lambda>_. Some ''refused'')\<rparr>"

definition okAttempt :: "(unit, string) kafka_ops \<Rightarrow> (unit, string) Attempt" where
  "okAttempt K = \<lparr>at_statusErr = None, at_loadErr = None, at_saveErr = None, at_publishErr = None, at_settleErr = None, at_nowNS = 1, at_kafka = K\<rparr>"

definition demoCfg :: ValidatorCfg where
  "demoCfg = \<lparr>vc_brokers = [''b''], vc_reorderWindow = 4, vc_mode = ''auto'', vc_crossFlowWindowUs = 500, vc_t7ReorderWindow = 4,
     vc_t7AnomalyCapNs = 0, vc_lateTaintRate = Fin 0, vc_bandWidth = 6\<rparr>"

definition demoWorld :: World where
  "demoWorld = freshWorld\<lparr>wd_bands := [''s'' \<mapsto> \<lparr>Band = 2, MaxRate = True\<rparr>]\<rparr>"

lemma dead_attempt: "validateSession LB demoCfg (okAttempt deadKafka) demoWorld ''s'' =
    Some (Some (StreamFailed (DialBroker ''refused'')), freshWorld)"
  by (simp add: validateSession_def okAttempt_def demoWorld_def freshWorld_def SummaryStatus_def GetAndDelete_def Let_def
      StreamSession_def demoCfg_def deadKafka_def failedSession_def)

lemma empty_stream: "StreamSession emptyKafka [''b''] ''s'' 4 OrderBandUnset 6 = Some (sessionResult 4 [])"
  by (simp add: StreamSession_def emptyKafka_def demoKafka_def filterPartitions_def)

section \<open>Properties\<close>

text \<open>
  C19. A score is claimed once and is final. However the statements of any number of workers
  and of their timeout fallbacks interleave on the table, at most one of those that store a
  score of a session is told that it claimed the session, the row is then the one it stored,
  and a session that is scored already is neither changed nor claimed.
\<close>

theorem score_claimed_once:
  "length (claims s t recs) \<le> 1 \<and>
   (\<forall>rec \<in> set (claims s t recs). snd (saves t recs) s = Some (rowOf rec)) \<and>
   (isScored t s \<longrightarrow> snd (saves t recs) s = t s \<and> claims s t recs = [])"
  using saves_claims [of s t recs] saves_scored_final [of t s recs] by auto

theorem score_claimed_once_witness:
  "let recs = [timeoutRecord ''s'' 1, scoreRecord ''s'' ''c'' zeroReport 2 zeroCounts, scoreRecord ''s'' ''d'' zeroReport 3 zeroCounts] in
    fst (saves Map.empty recs) = [True, True, False] \<and>
    map_option row_contestant_id (snd (saves Map.empty recs) ''s'') = Some ''c''"
proof -
  let ?recs = "[timeoutRecord ''s'' 1, scoreRecord ''s'' ''c'' zeroReport 2 zeroCounts, scoreRecord ''s'' ''d'' zeroReport 3 zeroCounts]"
  have f: "fst (saves Map.empty ?recs) = [True, True, False]"
    by (simp add: Save_def Let_def rowOf_def timeoutRecord_def scoreRecord_def StatusScored_def StatusTimedOut_def)
  then have "claims ''s'' Map.empty ?recs = [scoreRecord ''s'' ''c'' zeroReport 2 zeroCounts]"
    by (simp add: claims_def scoring_def rowOf_def Let_def timeoutRecord_def scoreRecord_def StatusScored_def StatusTimedOut_def)
  with score_claimed_once [of "''s''" Map.empty ?recs] f show ?thesis by (simp add: rowOf_def Let_def scoreRecord_def)
qed

text \<open>
  Whatever happened before, one attempt without faults publishes. After any sequence of
  attempts on a session, with database, broker, context and encoding faults anywhere, an
  attempt in which the calls succeed and the source and the engine deliver ends without an
  error, has published an event of the session and leaves it scored; when the session was
  scored before, nothing has to be read from the broker.
\<close>

lemma faultless_attempt_publishes:
  assumes "attempts B c freshWorld s as = Some w" "faultless a" "isScored (wd_table w) s \<or> gradable B c a w s"
  shows "\<exists>w' ev. validateSession B c a w s = Some (None, w') \<and> wd_published w' = wd_published w @ [ev] \<and> ce_SessionID ev = s \<and>
    isScored (wd_table w') s"
  using faultless_attempt [OF attempts_tableOk [OF assms(1) freshWorld_ok] assms(2), of s B c] assms(3) by blast

text \<open>
  Every event can be encoded. JSON has no encoding for NaN and the infinities; no report
  of either mode produces one: the event of every graded session, and the event re-published
  from the table after it, can be encoded, for all counts including zero and overflow.
\<close>

lemma every_event_encodable:
  assumes "gradeSession B c mode tr = Some r"
  shows "marshals (scoreEvent s ct r now counts) \<and>
    (\<forall>t t1. Save t (scoreRecord s ct r now counts) = (True, t1) \<longrightarrow> (\<exists>ev. LoadScore t1 s = Some ev \<and> marshals ev))"
proof (intro conjI allI impI)
  show "marshals (scoreEvent s ct r now counts)" by (rule scoreEvent_marshals [OF gradeSession_jitterOk [OF assms]])
  fix t t1 assume "Save t (scoreRecord s ct r now counts) = (True, t1)"
  from LoadScore_Save [OF this] show "\<exists>ev. LoadScore t1 s = Some ev \<and> marshals ev"
    by (auto simp: persisted_def intro: scoreEvent_marshals)
qed

text \<open>
  C20. What a re-published score says. A score stored by the attempt that claims the session
  and published again by a later attempt is the event of that report with the jitter and
  health fields cleared: fills, score, violations, counts and time are preserved, but it
  equals the first event only if the report had none of the other, so a report flagged as
  tainted is re-published as an untainted one.
\<close>

theorem republished_event:
  assumes "Save (wd_table w) (scoreRecord s ct r now counts) = (True, t1)" "faultless a"
  defines "w1 \<equiv> w\<lparr>wd_table := t1\<rparr>"
  shows "validateSession B c a w1 s =
      Some (None, w1\<lparr>wd_published := wd_published w1 @ [scoreEvent s ct (persisted r) now counts]\<rparr>) \<and>
    (Tainted r \<longrightarrow> scoreEvent s ct (persisted r) now counts \<noteq> scoreEvent s ct r now counts)"
proof -
  have l: "LoadScore t1 s = Some (scoreEvent s ct (persisted r) now counts)" by (rule LoadScore_Save [OF assms(1)])
  have sc: "isScored t1 s" using Save_claim(1) [OF assms(1), of s] by (simp add: scoring_def) (simp add: scoreRecord_def)
  have "marshals (scoreEvent s ct (persisted r) now counts)" by (rule scoreEvent_marshals) (simp add: persisted_def)
  then have "validateSession B c a w1 s = Some (None, w1\<lparr>wd_published := wd_published w1 @ [scoreEvent s ct (persisted r) now counts]\<rparr>)"
    using l sc assms(2) by (simp add: validateSession_def republish_def Publish_def faultless_def isScored_def w1_def)
  then show ?thesis by (auto simp: scoreEvent_def persisted_def)
qed

theorem republished_event_witness:
  "let r = zeroReport\<lparr>Tainted := True\<rparr>; t1 = snd (Save Map.empty (scoreRecord ''s'' ''c'' r 1 zeroCounts)) in
    \<exists>w' ev. validateSession LB demoCfg (okAttempt emptyKafka) (freshWorld\<lparr>wd_table := t1\<rparr>) ''s'' = Some (None, w') \<and>
      wd_published w' = [ev] \<and> \<not> ce_ResultTainted ev \<and> ce_ResultTainted (scoreEvent ''s'' ''c'' r 1 zeroCounts)"
proof -
  let ?r = "zeroReport\<lparr>Tainted := True\<rparr>"
  let ?t = "snd (Save Map.empty (scoreRecord ''s'' ''c'' ?r 1 zeroCounts))"
  have s: "Save (wd_table freshWorld) (scoreRecord ''s'' ''c'' ?r 1 zeroCounts) = (True, ?t)"
    by (simp add: Save_def Let_def freshWorld_def)
  have "faultless (okAttempt emptyKafka)" by (simp add: faultless_def okAttempt_def)
  from republished_event [OF s this, of LB demoCfg] show ?thesis
    by (simp add: Let_def scoreEvent_def persisted_def) (simp add: freshWorld_def)
qed

text \<open>
  C21. A failed attempt changes how the session is graded. Under the default mode a session
  whose tasks are all at maximum rate is graded by full replay over its own band; once an
  attempt that got past the settle delay fails, the entry of the session is gone, and the
  next attempt reads every partition and grades it in the book-free mode.
\<close>

theorem failed_attempt_forgets_mode:
  assumes "vc_mode c = ''auto''" "wd_bands w s = Some meta" "MaxRate meta" "\<not> isScored (wd_table w) s"
    and "at_statusErr a = None" "at_settleErr a = None" "validateSession B c a w s = Some (Some e, w1)"
  shows "sessionMode (vc_mode c) (fst (GetAndDelete (wd_bands w) s)) = ''full'' \<and> fst (GetAndDelete (wd_bands w) s) = meta \<and>
    sessionMode (vc_mode c) (fst (GetAndDelete (wd_bands w1) s)) = ''invariants'' \<and>
    Band (fst (GetAndDelete (wd_bands w1) s)) = OrderBandUnset"
proof -
  have g: "GetAndDelete (wd_bands w) s = (meta, (wd_bands w)(s := None))" using assms(2) by (simp add: GetAndDelete_def)
  let ?w = "w\<lparr>wd_bands := (wd_bands w)(s := None)\<rparr>"
  have sp: "wd_bands (snd (saveAndPublish a ?w s ct r cs)) = wd_bands ?w" for ct r cs
    by (auto simp: saveAndPublish_def Publish_def split: option.split prod.split bool.split)
  have "wd_bands w1 = (wd_bands w)(s := None)"
    using assms(4-7) g sp unfolding validateSession_def isScored_def
    by (auto simp: Let_def split: option.splits if_splits prod.splits) (metis World.select_convs(2) World.surjective World.update_convs(2) snd_conv)+
  then show ?thesis using g assms(1,3) by (simp add: GetAndDelete_def sessionMode_def)
qed

theorem failed_attempt_forgets_mode_witness:
  "\<exists>e w1. validateSession LB demoCfg (okAttempt deadKafka) demoWorld ''s'' = Some (Some e, w1) \<and>
    sessionMode (vc_mode demoCfg) (fst (GetAndDelete (wd_bands demoWorld) ''s'')) = ''full'' \<and>
    sessionMode (vc_mode demoCfg) (fst (GetAndDelete (wd_bands w1) ''s'')) = ''invariants''"
proof -
  have h: "vc_mode demoCfg = ''auto''" "wd_bands demoWorld ''s'' = Some \<lparr>Band = 2, MaxRate = True\<rparr>" "MaxRate \<lparr>Band = 2, MaxRate = True\<rparr>"
    "\<not> isScored (wd_table demoWorld) ''s''" "at_statusErr (okAttempt deadKafka) = None" "at_settleErr (okAttempt deadKafka) = None"
    by (simp_all add: demoCfg_def demoWorld_def freshWorld_def isScored_def SummaryStatus_def okAttempt_def)
  from failed_attempt_forgets_mode [OF h dead_attempt] dead_attempt show ?thesis by blast
qed

end
