(* ===== verification/Score.thy ===== *)
theory Score
  imports Topics GoFloat "HOL-Library.AList" "HOL-Library.Char_ord" "HOL-Library.List_Lexorder"
begin

text \<open>
  The score of a run-group, \<open>score.go\<close> of the score-computer: the configuration with its
  defaults, the summary of the metrics, the schedule of the ramp, \<open>Compute\<close> and the ranking
  order. A Go map from wave indices is an association list with distinct keys, read only by
  key or after its keys are sorted, so the order of iteration does not show. The text of the
  telemetry reason is a constructor with the arguments of its format.
\<close>

section \<open>Configuration\<close>

definition DefaultCorrectnessDQThreshold :: float64 where
  "DefaultCorrectnessDQThreshold = f64 (95 / 100)"

definition DefaultMaxErrorRate :: float64 where
  "DefaultMaxErrorRate = f64 (1 / 100)"

definition DefaultMaxP99NS :: u64 where
  "DefaultMaxP99NS = 1000000"

definition DefaultWaveDurationNS :: u64 where
  "DefaultWaveDurationNS = 20000000000"

definition DefaultMaxScheduledWaves :: u64 where
  "DefaultMaxScheduledWaves = 10000"

definition DefaultMinCoverage :: float64 where
  "DefaultMinCoverage = f64 (90 / 100)"

record ScoreConfig =
  CorrectnessDQThreshold :: float64
  MaxErrorRate :: float64
  MaxP99NS :: u64
  WaveDurationNS :: u64
  MinCoverage :: float64

definition isPositiveFinite :: "float64 \<Rightarrow> bool" where
  "isPositiveFinite v \<longleftrightarrow> flt (Fin 0) v \<and> v \<noteq> NaN \<and> v \<noteq> PInf \<and> v \<noteq> NInf"

definition WithDefaults :: "ScoreConfig \<Rightarrow> ScoreConfig" where
  "WithDefaults c = \<lparr>
     CorrectnessDQThreshold =
       (if \<not> isPositiveFinite (CorrectnessDQThreshold c) \<or> flt (Fin 1) (CorrectnessDQThreshold c)
        then DefaultCorrectnessDQThreshold else CorrectnessDQThreshold c),
     MaxErrorRate = (if \<not> isPositiveFinite (MaxErrorRate c) then DefaultMaxErrorRate else MaxErrorRate c),
     MaxP99NS = (if MaxP99NS c = 0 then DefaultMaxP99NS else MaxP99NS c),
     WaveDurationNS = (if WaveDurationNS c = 0 then DefaultWaveDurationNS else WaveDurationNS c),
     MinCoverage =
       (if \<not> isPositiveFinite (MinCoverage c) \<or> flt (Fin 1) (MinCoverage c)
        then DefaultMinCoverage else MinCoverage c)\<rparr>"

section \<open>Inputs and results\<close>

record Correctness =
  co_SessionID :: string
  co_ValidFills :: u64
  co_TotalFills :: u64
  co_ViolationCount :: u64
  co_SentCount :: u64
  co_AckedCount :: u64
  co_MatchedCount :: u64
  co_JitterP50US :: float64
  co_JitterP99US :: float64
  co_JitterP999US :: float64
  co_JitterMaxUS :: float64
  co_JitterInvRate :: float64

record MetricRow =
  mr_WaveIndex :: int
  mr_P99NS :: u64
  mr_TPS1S :: float64
  mr_ErrorRate :: float64

record Session =
  se_SessionID :: string
  se_Scenario :: string
  se_TaskSpecs :: "TaskSpec list"
  se_Correct :: Correctness
  se_Metrics :: "MetricRow list"
  se_DurationNS :: u64

record Input =
  in_RunGroupID :: string
  in_SubmissionID :: string
  in_ContestantID :: string
  in_TeamName :: string
  in_Sessions :: "Session list"
  in_Config :: ScoreConfig

datatype WaveReason = NoWaveReason | MissingMetrics | ErrorRateReason | P99Latency

record WaveResult =
  wr_WaveIndex :: int
  wr_OfferedRPS :: u64
  wr_P99NS :: u64
  wr_Passed :: bool
  wr_Reason :: WaveReason

datatype TelemetryReason =
    TelemetryComplete
  | CoverageBelow string float64 u64 u64 float64

datatype DQCode = NotDQ | CorrectnessBelowThreshold | SessionCorrectnessBelowThreshold

record ScoreResult =
  rs_RunGroupID :: string
  rs_SubmissionID :: string
  rs_ContestantID :: string
  rs_TeamName :: string
  rs_PeakSustainedTPS :: u64
  rs_P99AtPeakNS :: u64
  rs_SpikeRecoveryNS :: u64
  rs_TotalCorrectness :: float64
  rs_Disqualified :: bool
  rs_DisqualificationCode :: DQCode
  rs_IncompleteTelemetry :: bool
  rs_IncompleteTelemetryReason :: TelemetryReason
  rs_JitterP50US :: float64
  rs_JitterP99US :: float64
  rs_JitterP999US :: float64
  rs_JitterMaxUS :: float64
  rs_JitterInvRate :: float64
  rs_Waves :: "WaveResult list"
  rs_MaxRateOnly :: bool

datatype ScoreErr = ErrMissingRampSession

section \<open>Aggregates over the sessions\<close>

definition ScenarioCorrectness :: string where
  "ScenarioCorrectness = ''correctness''"

definition addFills :: "float64 \<times> float64 \<Rightarrow> Session \<Rightarrow> float64 \<times> float64" where
  "addFills acc s =
     (if se_Scenario s \<noteq> ScenarioCorrectness then acc
      else (fadd (fst acc) (f64_of_u64 (co_ValidFills (se_Correct s))),
            fadd (snd acc) (f64_of_u64 (co_TotalFills (se_Correct s)))))"

definition aggregateCorrectness :: "Session list \<Rightarrow> float64" where
  "aggregateCorrectness ss =
     (let (valid, total) = foldl addFills (Fin 0, Fin 0) ss in
      if total = Fin 0 then Fin 0 else fmin (fdiv valid total) (Fin 1))"

definition aggregateJitter :: "Session list \<Rightarrow> float64 \<times> float64 \<times> float64 \<times> float64 \<times> float64" where
  "aggregateJitter ss =
     foldl (\<lambda>(p50, p99, p999, mx, rate) s. let c = se_Correct s in
        (math_Max p50 (co_JitterP50US c), math_Max p99 (co_JitterP99US c), math_Max p999 (co_JitterP999US c),
         math_Max mx (co_JitterMaxUS c), math_Max rate (co_JitterInvRate c)))
       (Fin 0, Fin 0, Fin 0, Fin 0, Fin 0) ss"

section \<open>The schedule of the ramp\<close>

record WaveOffer =
  wo_WaveIndex :: int
  wo_OfferedRPS :: u64

definition saturatingAdd :: "u64 \<Rightarrow> u64 \<Rightarrow> u64" where
  "saturatingAdd a b = (if - 1 - a < b then - 1 else a + b)"

definition overlapNS :: "u64 \<Rightarrow> u64 \<Rightarrow> u64 \<Rightarrow> u64 \<Rightarrow> u64" where
  "overlapNS aStart aEnd bStart bEnd =
     (let start = max aStart bStart; end = min aEnd bEnd in
      if end \<le> start then 0 else end - start)"

definition maxEndOf :: "TaskSpec list \<Rightarrow> u64" where
  "maxEndOf ts = foldl (\<lambda>mx t. let end = saturatingAdd (StartOffsetNs t) (DurationNs t) in
     if end > mx then end else mx) 0 ts"

definition offerTask :: "u64 \<Rightarrow> u64 \<Rightarrow> u64 \<Rightarrow> float64 \<Rightarrow> TaskSpec \<Rightarrow> float64" where
  "offerTask wd start end offered t =
     (if TargetRPS t = 0 then offered
      else let overlap = overlapNS start end (StartOffsetNs t) (saturatingAdd (StartOffsetNs t) (DurationNs t)) in
        if overlap = 0 then offered
        else fadd offered (fmul (f64_of_u32 (TargetRPS t)) (fdiv (f64_of_u64 overlap) (f64_of_u64 wd))))"

definition waveOffer :: "TaskSpec list \<Rightarrow> u64 \<Rightarrow> nat \<Rightarrow> WaveOffer list" where
  "waveOffer ts wd wave =
     (let start = of_nat wave * wd;
          end = saturatingAdd start wd;
          offered = foldl (offerTask wd start end) (Fin 0) ts in
      if fle offered (Fin 0) then []
      else [\<lparr>wo_WaveIndex = int wave, wo_OfferedRPS = u64_of_f64 (math_Round offered)\<rparr>])"

definition WaveSchedule :: "TaskSpec list \<Rightarrow> u64 \<Rightarrow> WaveOffer list" where
  "WaveSchedule ts waveDurationNS =
     (let wd = (if waveDurationNS = 0 then DefaultWaveDurationNS else waveDurationNS);
          maxEnd = maxEndOf ts in
      if maxEnd = 0 then []
      else let waves64 = (maxEnd - 1) div wd + 1;
               waves = (if waves64 > DefaultMaxScheduledWaves then DefaultMaxScheduledWaves else waves64) in
        concat (map (waveOffer ts wd) [0..<unat waves]))"

section \<open>Metrics\<close>

record MetricSummary =
  ms_Count :: int
  ms_MaxP99NS :: u64
  ms_StableP99NS :: u64
  ms_MaxErrorRate :: float64
  ms_p99Samples :: "u64 list"

definition zeroSummary :: MetricSummary where
  "zeroSummary = \<lparr>ms_Count = 0, ms_MaxP99NS = 0, ms_StableP99NS = 0, ms_MaxErrorRate = Fin 0, ms_p99Samples = []\<rparr>"

definition medianU64 :: "u64 list \<Rightarrow> u64" where
  "medianU64 samples = (if samples = [] then 0 else sort_stable (<) samples ! (length samples div 2))"

definition addRow :: "(int \<times> MetricSummary) list \<Rightarrow> MetricRow \<Rightarrow> (int \<times> MetricSummary) list" where
  "addRow out row =
     (let m = (case map_of out (mr_WaveIndex row) of None \<Rightarrow> zeroSummary | Some m \<Rightarrow> m) in
      AList.update (mr_WaveIndex row)
        (m\<lparr>ms_Count := ms_Count m + 1,
           ms_MaxP99NS := max (ms_MaxP99NS m) (mr_P99NS row),
           ms_p99Samples := ms_p99Samples m @ [mr_P99NS row],
           ms_MaxErrorRate := (if flt (ms_MaxErrorRate m) (mr_ErrorRate row) then mr_ErrorRate row
                               else ms_MaxErrorRate m)\<rparr>) out)"

definition summarizeMetrics :: "MetricRow list \<Rightarrow> (int \<times> MetricSummary) list" where
  "summarizeMetrics rows =
     map (\<lambda>(idx, m). (idx, m\<lparr>ms_StableP99NS := medianU64 (ms_p99Samples m)\<rparr>)) (foldl addRow [] rows)"

section \<open>Recovery from the spike\<close>

definition maxP99At :: "(int \<times> MetricSummary) list \<Rightarrow> int \<Rightarrow> u64" where
  "maxP99At summ w = (case map_of summ w of None \<Rightarrow> 0 | Some m \<Rightarrow> ms_MaxP99NS m)"

definition spikeRecoveryNS :: "Session list \<Rightarrow> u64 \<Rightarrow> u64" where
  "spikeRecoveryNS ss waveDurationNS =
     (let wd = (if waveDurationNS = 0 then DefaultWaveDurationNS else waveDurationNS) in
      case find (\<lambda>s. se_Scenario s = ''spike'') ss of None \<Rightarrow> 0
      | Some spike \<Rightarrow>
         let summ = summarizeMetrics (se_Metrics spike) in
         if summ = [] then 0
         else let waves = sort (map fst summ);
                  baseline = maxP99At summ (hd waves) in
           if baseline = 0 then 0
           else let threshold = u64_of_f64 (fmul (f64_of_u64 baseline) (f64 (110 / 100)));
                    (peakWave, peakP99) =
                      foldl (\<lambda>(pw, pp) w. if maxP99At summ w > pp then (w, maxP99At summ w) else (pw, pp))
                        (hd waves, maxP99At summ (hd waves)) waves in
             if peakP99 \<le> threshold then 0
             else case find (\<lambda>w. w > peakWave \<and> maxP99At summ w \<le> threshold) waves of
                    Some w \<Rightarrow> word_of_int (w - peakWave) * wd
                  | None \<Rightarrow> word_of_int (last waves - peakWave + 1) * wd)"

section \<open>Computing the score\<close>

fun coverageGap :: "ScoreConfig \<Rightarrow> Session list \<Rightarrow> TelemetryReason option" where
  "coverageGap cfg [] = None"
| "coverageGap cfg (s # ss) =
     (let c = se_Correct s in
      if co_SentCount c = 0 then coverageGap cfg ss
      else let coverage = fmin (fdiv (f64_of_u64 (co_MatchedCount c)) (f64_of_u64 (co_SentCount c))) (Fin 1) in
        if flt coverage (MinCoverage cfg)
        then Some (CoverageBelow (se_SessionID s) coverage (co_MatchedCount c) (co_SentCount c) (MinCoverage cfg))
        else coverageGap cfg ss)"

definition judgeSession :: "ScoreConfig \<Rightarrow> DQCode \<times> Session option \<Rightarrow> Session \<Rightarrow> DQCode \<times> Session option" where
  "judgeSession cfg acc s =
     ((if co_TotalFills (se_Correct s) > 0 \<and>
          flt (fmin (fdiv (f64_of_u64 (co_ValidFills (se_Correct s))) (f64_of_u64 (co_TotalFills (se_Correct s)))) (Fin 1))
              (CorrectnessDQThreshold cfg) \<and> fst acc = NotDQ
       then SessionCorrectnessBelowThreshold else fst acc),
      (if se_Scenario s = ''ramp'' then Some s else snd acc))"

definition isMaxRateOnly :: "TaskSpec list \<Rightarrow> bool" where
  "isMaxRateOnly ts \<longleftrightarrow> ts \<noteq> [] \<and> list_all (\<lambda>t. TargetRPS t = 0) ts"

definition gateWave :: "ScoreConfig \<Rightarrow> MetricSummary option \<Rightarrow> WaveOffer \<Rightarrow> WaveResult" where
  "gateWave cfg m wave =
     (let wr = \<lparr>wr_WaveIndex = wo_WaveIndex wave, wr_OfferedRPS = wo_OfferedRPS wave, wr_P99NS = 0,
                wr_Passed = False, wr_Reason = NoWaveReason\<rparr> in
      case m of None \<Rightarrow> wr\<lparr>wr_Reason := MissingMetrics\<rparr>
      | Some m \<Rightarrow>
         if ms_Count m = 0 then wr\<lparr>wr_Reason := MissingMetrics\<rparr>
         else let wr = wr\<lparr>wr_P99NS := ms_StableP99NS m\<rparr> in
           if flt (MaxErrorRate cfg) (ms_MaxErrorRate m) then wr\<lparr>wr_Reason := ErrorRateReason\<rparr>
           else if ms_StableP99NS m > MaxP99NS cfg then wr\<lparr>wr_Reason := P99Latency\<rparr>
           else wr\<lparr>wr_Passed := True\<rparr>)"

fun gateWaves :: "ScoreConfig \<Rightarrow> (int \<times> MetricSummary) list \<Rightarrow> ScoreResult \<Rightarrow> WaveOffer list \<Rightarrow> ScoreResult" where
  "gateWaves cfg metrics res [] = res"
| "gateWaves cfg metrics res (wave # waves) =
     (if wo_WaveIndex wave = 0 then gateWaves cfg metrics res waves
      else let wr = gateWave cfg (map_of metrics (wo_WaveIndex wave)) wave;
               res' = res\<lparr>rs_Waves := rs_Waves res @ [wr]\<rparr> in
        if wr_Passed wr
        then gateWaves cfg metrics
               (res'\<lparr>rs_PeakSustainedTPS := wo_OfferedRPS wave, rs_P99AtPeakNS := wr_P99NS wr\<rparr>) waves
        else res')"

definition peakTPS :: "MetricRow list \<Rightarrow> float64" where
  "peakTPS ms = foldl (\<lambda>peak m. if flt peak (mr_TPS1S m) then mr_TPS1S m else peak) (Fin 0) ms"

definition initResult :: "ScoreConfig \<Rightarrow> Input \<Rightarrow> ScoreResult" where
  "initResult cfg inp =
     (let (p50, p99, p999, mx, rate) = aggregateJitter (in_Sessions inp); gap = coverageGap cfg (in_Sessions inp) in
      \<lparr>rs_RunGroupID = in_RunGroupID inp, rs_SubmissionID = in_SubmissionID inp,
       rs_ContestantID = in_ContestantID inp, rs_TeamName = in_TeamName inp,
       rs_PeakSustainedTPS = 0, rs_P99AtPeakNS = 0, rs_SpikeRecoveryNS = 0,
       rs_TotalCorrectness = aggregateCorrectness (in_Sessions inp),
       rs_Disqualified = False, rs_DisqualificationCode = NotDQ,
       rs_IncompleteTelemetry = gap \<noteq> None,
       rs_IncompleteTelemetryReason = (case gap of None \<Rightarrow> TelemetryComplete | Some r \<Rightarrow> r),
       rs_JitterP50US = p50, rs_JitterP99US = p99, rs_JitterP999US = p999, rs_JitterMaxUS = mx,
       rs_JitterInvRate = rate, rs_Waves = [], rs_MaxRateOnly = False\<rparr>)"

definition disqualify :: "DQCode \<Rightarrow> ScoreResult \<Rightarrow> ScoreResult" where
  "disqualify code res =
     (if code \<noteq> NotDQ then res\<lparr>rs_Disqualified := True, rs_DisqualificationCode := code\<rparr> else res)"

definition gradeRamp :: "ScoreConfig \<Rightarrow> Session \<Rightarrow> ScoreResult \<Rightarrow> ScoreResult" where
  "gradeRamp cfg ramp res =
     (if isMaxRateOnly (se_TaskSpecs ramp)
      then res\<lparr>rs_MaxRateOnly := True, rs_PeakSustainedTPS := u64_of_f64 (math_Round (peakTPS (se_Metrics ramp)))\<rparr>
      else gateWaves cfg (summarizeMetrics (se_Metrics ramp)) res
             (WaveSchedule (se_TaskSpecs ramp) (WaveDurationNS cfg)))"

text \<open>Like the Go function, which returns the result also next to an error.\<close>

definition Compute :: "Input \<Rightarrow> ScoreResult \<times> ScoreErr option" where
  "Compute inp =
     (let cfg = WithDefaults (in_Config inp);
          res = initResult cfg inp;
          code0 = (if flt (rs_TotalCorrectness res) (CorrectnessDQThreshold cfg)
                   then CorrectnessBelowThreshold else NotDQ);
          (code, ramp) = foldl (judgeSession cfg) (code0, None) (in_Sessions inp) in
      case ramp of
        None \<Rightarrow> if code \<noteq> NotDQ then (disqualify code res, None) else (res, Some ErrMissingRampSession)
      | Some r \<Rightarrow>
         (disqualify code (gradeRamp cfg r
            (res\<lparr>rs_SpikeRecoveryNS := spikeRecoveryNS (in_Sessions inp) (WaveDurationNS cfg)\<rparr>)), None))"

section \<open>Ranking\<close>

text \<open>\<open>!=\<close> of two numbers: NaN differs from everything.\<close>

definition fne :: "float64 \<Rightarrow> float64 \<Rightarrow> bool" where
  "fne a b \<longleftrightarrow> a = NaN \<or> b = NaN \<or> a \<noteq> b"

definition resultLess :: "ScoreResult \<Rightarrow> ScoreResult \<Rightarrow> bool" where
  "resultLess a b =
     (if rs_Disqualified a \<noteq> rs_Disqualified b then rs_Disqualified b
      else if rs_PeakSustainedTPS a \<noteq> rs_PeakSustainedTPS b then rs_PeakSustainedTPS a > rs_PeakSustainedTPS b
      else if rs_P99AtPeakNS a \<noteq> rs_P99AtPeakNS b then rs_P99AtPeakNS a < rs_P99AtPeakNS b
      else if rs_SpikeRecoveryNS a \<noteq> rs_SpikeRecoveryNS b then rs_SpikeRecoveryNS a < rs_SpikeRecoveryNS b
      else if fne (rs_TotalCorrectness a) (rs_TotalCorrectness b)
           then flt (rs_TotalCorrectness b) (rs_TotalCorrectness a)
      else rs_RunGroupID a < rs_RunGroupID b)"

definition SortResults :: "ScoreResult list \<Rightarrow> ScoreResult list" where
  "SortResults results = sort_stable resultLess results"

end
