(* ===== verification/Score_Props.thy ===== *)
theory Score_Props
  imports Score
begin

text \<open>
  What \<open>score.go\<close> computes: the verdict and its codes, the correctness as a finite number
  between 0 and 1, the summaries of the metrics as functions of the rows of a wave, and the
  gate of the ramp as the longest passing prefix of the schedule.
\<close>

section \<open>Correctness is a number between 0 and 1\<close>

text \<open>
  Adding counts of fills never overflows: above 2^118 a count is less than half a unit in
  the last place, so the sum is rounded back.
\<close>

lemma round64_absorb: "round64 (2 ^ 118 + 2 ^ 64) = 2 ^ 118"
  by code_simp

lemma counts_finite: "(2::rat) ^ 118 + 2 ^ 64 \<le> 2 powi 1023" "(2::rat) ^ 118 \<le> 2 powi 1023"
proof -
  have "(2::rat) powi 119 \<le> 2 powi 1023" by (rule powi_mono) simp
  then have "(2::rat) ^ 119 \<le> 2 powi 1023" by (simp add: power_int_def)
  moreover have "(2::rat) ^ 118 + 2 ^ 64 \<le> 2 ^ 119" "(2::rat) ^ 118 \<le> 2 ^ 119" by simp_all
  ultimately show "(2::rat) ^ 118 + 2 ^ 64 \<le> 2 powi 1023" "(2::rat) ^ 118 \<le> 2 powi 1023" by linarith+
qed

lemma fadd_count:
  assumes "0 \<le> a" "a \<le> 2 ^ 118" "0 \<le> x" "x \<le> 2 ^ 64"
  shows "fadd (Fin a) (Fin x) = Fin (round64 (a + x))"
    and "0 \<le> round64 (a + x)" and "round64 (a + x) \<le> 2 ^ 118"
    and "1 \<le> a + x \<Longrightarrow> 1 \<le> round64 (a + x)"
proof -
  have le: "a + x \<le> 2 ^ 118 + 2 ^ 64" using assms by linarith
  have "\<bar>a + x\<bar> \<le> 2 powi 1023" using assms le counts_finite(1) by linarith
  then show "fadd (Fin a) (Fin x) = Fin (round64 (a + x))" by (simp add: f64_Fin)
  show "0 \<le> round64 (a + x)" using round64_mono [of 0 "a + x"] assms by simp
  show "round64 (a + x) \<le> 2 ^ 118" using round64_mono [OF le] round64_absorb by simp
  show "1 \<le> a + x \<Longrightarrow> 1 \<le> round64 (a + x)" using round64_mono [of 1 "a + x"] by simp
qed

lemma f64_of_u64_range: "\<exists>x. f64_of_u64 w = Fin x \<and> 0 \<le> x \<and> x \<le> 2 ^ 64 \<and> (x = 0 \<or> 1 \<le> x)"
proof -
  have "uint w \<le> 2 ^ 64" using uint_lt2p [of w] by simp
  then have "u64_rat w \<le> 2 ^ 64" unfolding u64_rat_def by (metis of_int_le_iff of_int_numeral of_int_power)
  moreover have "round64 (2 ^ 64) = 2 ^ 64" by code_simp
  ultimately have "round64 (u64_rat w) \<le> 2 ^ 64" by (metis round64_mono)
  moreover have "0 \<le> round64 (u64_rat w)" using round64_mono [of 0 "u64_rat w"] by simp
  moreover have "round64 (u64_rat w) = 0 \<or> 1 \<le> round64 (u64_rat w)" using round64_u64_ge1 [of w] by (cases "w = 0") auto
  ultimately show ?thesis by (auto simp: f64_of_u64_Fin)
qed

definition countSum :: "float64 \<Rightarrow> bool" where
  "countSum f \<longleftrightarrow> (\<exists>a. f = Fin a \<and> 0 \<le> a \<and> a \<le> 2 ^ 118 \<and> (a = 0 \<or> 1 \<le> a))"

lemma countSum_add: assumes "countSum f" shows "countSum (fadd f (f64_of_u64 w))"
proof -
  obtain a where a: "f = Fin a" "0 \<le> a" "a \<le> 2 ^ 118" "a = 0 \<or> 1 \<le> a" using assms by (auto simp: countSum_def)
  obtain x where x: "f64_of_u64 w = Fin x" "0 \<le> x" "x \<le> 2 ^ 64" "x = 0 \<or> 1 \<le> x" using f64_of_u64_range by blast
  note s = fadd_count [OF a(2,3) x(2,3)]
  have "round64 (a + x) = 0 \<or> 1 \<le> round64 (a + x)"
  proof (cases "1 \<le> a + x")
    case False
    then have "a = 0" "x = 0" using a x by auto
    then show ?thesis by simp
  qed (use s(4) in simp)
  then show ?thesis using s(1-3) a(1) x(1) unfolding countSum_def by auto
qed

lemma fills_countSum:
  "countSum (fst acc) \<Longrightarrow> countSum (snd acc) \<Longrightarrow>
   countSum (fst (foldl addFills acc ss)) \<and> countSum (snd (foldl addFills acc ss))"
  by (induction ss arbitrary: acc) (simp_all add: addFills_def countSum_add)

lemma quotient_unit:
  assumes "countSum v" "countSum t" "t \<noteq> Fin 0"
  shows "\<exists>q. fmin (fdiv v t) (Fin 1) = Fin q \<and> 0 \<le> q \<and> q \<le> 1"
proof -
  obtain a b where v: "v = Fin a" "0 \<le> a" "a \<le> 2 ^ 118" and t: "t = Fin b" "1 \<le> b"
    using assms by (auto simp: countSum_def)
  have "0 \<le> a / b" "a / b \<le> 2 ^ 118" using v t by (auto simp: divide_le_eq order_trans [OF v(3)])
  then have "fdiv v t = Fin (round64 (a / b))" using v t f64_Fin [of "a / b"] counts_finite(2) by auto
  moreover have "0 \<le> round64 (a / b)" using round64_mono [OF \<open>0 \<le> a / b\<close>] by simp
  ultimately show ?thesis by (auto simp: fmin_def)
qed

lemma aggregateCorrectness_unit: "\<exists>q. aggregateCorrectness ss = Fin q \<and> 0 \<le> q \<and> q \<le> 1"
proof -
  have "countSum (Fin 0)" by (simp add: countSum_def)
  then have c: "countSum (fst (foldl addFills (Fin 0, Fin 0) ss))" "countSum (snd (foldl addFills (Fin 0, Fin 0) ss))"
    using fills_countSum [of "(Fin 0, Fin 0)" ss] by simp_all
  show ?thesis
  proof (cases "snd (foldl addFills (Fin 0, Fin 0) ss) = Fin 0")
    case False
    then show ?thesis using quotient_unit [OF c] by (simp add: aggregateCorrectness_def case_prod_beta Let_def)
  qed (simp add: aggregateCorrectness_def case_prod_beta Let_def)
qed

lemma aggregateCorrectness_none:
  assumes "\<forall>s\<in>set ss. se_Scenario s \<noteq> ScenarioCorrectness"
  shows "aggregateCorrectness ss = Fin 0"
proof -
  have "foldl addFills acc ss = acc" for acc
    using assms by (induction ss arbitrary: acc) (simp_all add: addFills_def)
  then show ?thesis by (simp add: aggregateCorrectness_def)
qed

lemma default_thresholds:
  "DefaultCorrectnessDQThreshold = Fin (round64 (95 / 100))" "0 < round64 (95 / 100)" "round64 (95 / 100) \<le> 1"
  "DefaultMaxErrorRate = Fin (round64 (1 / 100))" "0 < round64 (1 / 100)"
proof -
  have "1 / 128 \<le> round64 (1 / 100)" using round64_mono [of "2 powi (- 7)" "1 / 100"] round64_pow2 [of "- 7"]
    by (simp add: power_int_def power_divide)
  then show "0 < round64 (1 / 100)" by linarith
  moreover have "round64 (1 / 100) \<le> round64 (95 / 100)" by (rule round64_mono) simp
  ultimately show "0 < round64 (95 / 100)" by linarith
  show "round64 (95 / 100) \<le> 1" using round64_mono [of "95 / 100" 1] by simp
  show "DefaultCorrectnessDQThreshold = Fin (round64 (95 / 100))"
    unfolding DefaultCorrectnessDQThreshold_def by (rule f64_Fin) (rule unit_bound, simp_all)
  show "DefaultMaxErrorRate = Fin (round64 (1 / 100))"
    unfolding DefaultMaxErrorRate_def by (rule f64_Fin) (rule unit_bound, simp_all)
qed

lemma WithDefaults_threshold:
  "\<exists>t. CorrectnessDQThreshold (WithDefaults c) = Fin t \<and> 0 < t \<and> t \<le> 1"
proof (cases "isPositiveFinite (CorrectnessDQThreshold c) \<and> \<not> flt (Fin 1) (CorrectnessDQThreshold c)")
  case True
  then show ?thesis by (cases "CorrectnessDQThreshold c") (auto simp: WithDefaults_def isPositiveFinite_def)
next
  case False
  then have "CorrectnessDQThreshold (WithDefaults c) = DefaultCorrectnessDQThreshold"
    by (simp add: WithDefaults_def)
  then show ?thesis using default_thresholds(1-3) by (intro exI [of _ "round64 (95 / 100)"]) simp
qed

lemma WithDefaults_maxError: "\<exists>t. MaxErrorRate (WithDefaults c) = Fin t \<and> 0 < t"
proof (cases "isPositiveFinite (MaxErrorRate c)")
  case True
  then show ?thesis by (cases "MaxErrorRate c") (auto simp: WithDefaults_def isPositiveFinite_def)
next
  case False
  then have "MaxErrorRate (WithDefaults c) = DefaultMaxErrorRate" by (simp add: WithDefaults_def)
  then show ?thesis using default_thresholds(4,5) by (intro exI [of _ "round64 (1 / 100)"]) simp
qed

section \<open>The verdict\<close>

definition ratio :: "u64 \<Rightarrow> u64 \<Rightarrow> float64" where
  "ratio a b = fmin (fdiv (f64_of_u64 a) (f64_of_u64 b)) (Fin 1)"

definition sessionLow :: "ScoreConfig \<Rightarrow> Session \<Rightarrow> bool" where
  "sessionLow cfg s \<longleftrightarrow> co_TotalFills (se_Correct s) > 0 \<and>
     flt (ratio (co_ValidFills (se_Correct s)) (co_TotalFills (se_Correct s))) (CorrectnessDQThreshold cfg)"

definition sessionGap :: "ScoreConfig \<Rightarrow> Session \<Rightarrow> bool" where
  "sessionGap cfg s \<longleftrightarrow> co_SentCount (se_Correct s) \<noteq> 0 \<and>
     flt (ratio (co_MatchedCount (se_Correct s)) (co_SentCount (se_Correct s))) (MinCoverage cfg)"

definition isRamp :: "Session \<Rightarrow> bool" where
  "isRamp s \<longleftrightarrow> se_Scenario s = ''ramp''"

lemma coverageGap_iff: "coverageGap cfg ss \<noteq> None \<longleftrightarrow> list_ex (sessionGap cfg) ss"
  by (induction ss) (auto simp: sessionGap_def ratio_def Let_def)

lemma judgeSessions:
  "foldl (judgeSession cfg) (code, ramp) ss =
     ((if code = NotDQ \<and> list_ex (sessionLow cfg) ss then SessionCorrectnessBelowThreshold else code),
      (if filter isRamp ss = [] then ramp else Some (last (filter isRamp ss))))"
  by (induction ss arbitrary: code ramp)
     (auto simp: judgeSession_def sessionLow_def ratio_def isRamp_def)

lemma gateWaves_keeps [simp]:
  "rs_TotalCorrectness (gateWaves cfg ms res ws) = rs_TotalCorrectness res"
  "rs_Disqualified (gateWaves cfg ms res ws) = rs_Disqualified res"
  "rs_DisqualificationCode (gateWaves cfg ms res ws) = rs_DisqualificationCode res"
  "rs_IncompleteTelemetry (gateWaves cfg ms res ws) = rs_IncompleteTelemetry res"
  "rs_RunGroupID (gateWaves cfg ms res ws) = rs_RunGroupID res"
  "rs_SpikeRecoveryNS (gateWaves cfg ms res ws) = rs_SpikeRecoveryNS res"
  "rs_MaxRateOnly (gateWaves cfg ms res ws) = rs_MaxRateOnly res"
  by (induction ws arbitrary: res; simp add: Let_def)+

lemma gradeRamp_keeps [simp]:
  "rs_TotalCorrectness (gradeRamp cfg r res) = rs_TotalCorrectness res"
  "rs_Disqualified (gradeRamp cfg r res) = rs_Disqualified res"
  "rs_DisqualificationCode (gradeRamp cfg r res) = rs_DisqualificationCode res"
  "rs_IncompleteTelemetry (gradeRamp cfg r res) = rs_IncompleteTelemetry res"
  "rs_RunGroupID (gradeRamp cfg r res) = rs_RunGroupID res"
  "rs_SpikeRecoveryNS (gradeRamp cfg r res) = rs_SpikeRecoveryNS res"
  by (simp_all add: gradeRamp_def)

lemma initResult_fields [simp]:
  "rs_TotalCorrectness (initResult cfg inp) = aggregateCorrectness (in_Sessions inp)"
  "rs_Disqualified (initResult cfg inp) = False"
  "rs_DisqualificationCode (initResult cfg inp) = NotDQ"
  "rs_IncompleteTelemetry (initResult cfg inp) = list_ex (sessionGap cfg) (in_Sessions inp)"
  "rs_RunGroupID (initResult cfg inp) = in_RunGroupID inp"
  "rs_PeakSustainedTPS (initResult cfg inp) = 0" "rs_P99AtPeakNS (initResult cfg inp) = 0"
  "rs_SpikeRecoveryNS (initResult cfg inp) = 0" "rs_Waves (initResult cfg inp) = []"
  "rs_MaxRateOnly (initResult cfg inp) = False"
  by (simp_all add: initResult_def case_prod_beta Let_def coverageGap_iff [symmetric] del: not_None_eq)

lemma disqualify_keeps [simp]:
  "rs_TotalCorrectness (disqualify code res) = rs_TotalCorrectness res"
  "rs_IncompleteTelemetry (disqualify code res) = rs_IncompleteTelemetry res"
  "rs_RunGroupID (disqualify code res) = rs_RunGroupID res"
  "rs_PeakSustainedTPS (disqualify code res) = rs_PeakSustainedTPS res"
  "rs_P99AtPeakNS (disqualify code res) = rs_P99AtPeakNS res"
  "rs_SpikeRecoveryNS (disqualify code res) = rs_SpikeRecoveryNS res"
  "rs_Waves (disqualify code res) = rs_Waves res"
  "rs_MaxRateOnly (disqualify code res) = rs_MaxRateOnly res"
  by (simp_all add: disqualify_def)

definition verdict :: "ScoreConfig \<Rightarrow> Session list \<Rightarrow> DQCode" where
  "verdict cfg ss =
     (if flt (aggregateCorrectness ss) (CorrectnessDQThreshold cfg) then CorrectnessBelowThreshold
      else if list_ex (sessionLow cfg) ss then SessionCorrectnessBelowThreshold else NotDQ)"

lemma Compute_eq:
  "Compute inp =
     (let cfg = WithDefaults (in_Config inp); ss = in_Sessions inp; res = initResult cfg inp; code = verdict cfg ss in
      if filter isRamp ss = [] then (disqualify code res, if code = NotDQ then Some ErrMissingRampSession else None)
      else (disqualify code (gradeRamp cfg (last (filter isRamp ss))
             (res\<lparr>rs_SpikeRecoveryNS := spikeRecoveryNS ss (WaveDurationNS cfg)\<rparr>)), None))"
  by (simp add: Compute_def Let_def judgeSessions verdict_def disqualify_def)

section \<open>The summary of a wave\<close>

definition rowsAt :: "MetricRow list \<Rightarrow> int \<Rightarrow> MetricRow list" where
  "rowsAt rows w = filter (\<lambda>r. mr_WaveIndex r = w) rows"

definition worstError :: "MetricRow list \<Rightarrow> float64" where
  "worstError rows = foldl (\<lambda>m r. if flt m (mr_ErrorRate r) then mr_ErrorRate r else m) (Fin 0) rows"

definition summaryOf :: "MetricRow list \<Rightarrow> MetricSummary" where
  "summaryOf rows = \<lparr>ms_Count = int (length rows), ms_MaxP99NS = foldl max 0 (map mr_P99NS rows),
     ms_StableP99NS = 0, ms_MaxErrorRate = worstError rows, ms_p99Samples = map mr_P99NS rows\<rparr>"

lemma summaryOf_snoc:
  "summaryOf (rows @ [r]) = (let m = summaryOf rows in
     m\<lparr>ms_Count := ms_Count m + 1, ms_MaxP99NS := max (ms_MaxP99NS m) (mr_P99NS r),
       ms_p99Samples := ms_p99Samples m @ [mr_P99NS r],
       ms_MaxErrorRate := (if flt (ms_MaxErrorRate m) (mr_ErrorRate r) then mr_ErrorRate r else ms_MaxErrorRate m)\<rparr>)"
  by (simp add: summaryOf_def worstError_def)

lemma addRow_lookup:
  "map_of (addRow out r) w = (if mr_WaveIndex r = w
     then let m = (case map_of out w of None \<Rightarrow> zeroSummary | Some m \<Rightarrow> m) in
       Some (m\<lparr>ms_Count := ms_Count m + 1, ms_MaxP99NS := max (ms_MaxP99NS m) (mr_P99NS r),
         ms_p99Samples := ms_p99Samples m @ [mr_P99NS r],
         ms_MaxErrorRate := (if flt (ms_MaxErrorRate m) (mr_ErrorRate r) then mr_ErrorRate r else ms_MaxErrorRate m)\<rparr>)
     else map_of out w)"
  unfolding addRow_def Let_def update_conv by (simp only: fun_upd_apply split: if_split) blast

lemma addRow_summary:
  "map_of (foldl addRow [] rows) w = (if rowsAt rows w = [] then None else Some (summaryOf (rowsAt rows w)))"
proof (induction rows rule: rev_induct)
  case (snoc r rows)
  have z: "zeroSummary = summaryOf []" by (simp add: zeroSummary_def summaryOf_def worstError_def)
  have m: "(case map_of (foldl addRow [] rows) w of None \<Rightarrow> zeroSummary | Some m \<Rightarrow> m) = summaryOf (rowsAt rows w)"
    using snoc z by (cases "rowsAt rows w = []") simp_all
  show ?case
  proof (cases "mr_WaveIndex r = w")
    case True
    then have "rowsAt (rows @ [r]) w = rowsAt rows w @ [r]" by (simp add: rowsAt_def)
    then show ?thesis using m True by (simp add: addRow_lookup summaryOf_snoc Let_def)
  next
    case False
    then have "rowsAt (rows @ [r]) w = rowsAt rows w" by (simp add: rowsAt_def)
    then show ?thesis using snoc False by (simp add: addRow_lookup)
  qed
qed (simp add: rowsAt_def)

lemma map_of_map_snd: "map_of (map (\<lambda>(k, v). (k, f v)) xs) k = map_option f (map_of xs k)"
  by (induction xs) auto

lemma summarizeMetrics_lookup:
  "map_of (summarizeMetrics rows) w =
     (if rowsAt rows w = [] then None
      else Some ((summaryOf (rowsAt rows w))\<lparr>ms_StableP99NS := medianU64 (map mr_P99NS (rowsAt rows w))\<rparr>))"
  by (simp add: summarizeMetrics_def map_of_map_snd addRow_summary summaryOf_def)

lemma worstError_not_NaN: "worstError rows \<noteq> NaN"
proof (induction rows rule: rev_induct)
  case (snoc r rows)
  have "flt a NaN = False" for a by (cases a) simp_all
  with snoc show ?case by (auto simp: worstError_def)
qed (simp add: worstError_def)

lemma worstError_above:
  assumes "0 < x" shows "flt (Fin x) (worstError rows) \<longleftrightarrow> list_ex (\<lambda>r. flt (Fin x) (mr_ErrorRate r)) rows"
proof (induction rows rule: rev_induct)
  case (snoc r rows)
  let ?m = "worstError rows" let ?e = "mr_ErrorRate r"
  have "worstError (rows @ [r]) = (if flt ?m ?e then ?e else ?m)" by (simp add: worstError_def)
  moreover have "flt (Fin x) ?m \<Longrightarrow> flt ?m ?e \<Longrightarrow> flt (Fin x) ?e" by (rule flt_trans)
  moreover have "flt (Fin x) ?m" if "flt (Fin x) ?e" "\<not> flt ?m ?e"
  proof -
    have "?e \<noteq> NaN" using that by (cases ?e) auto
    then have "?e = ?m \<or> flt ?e ?m" using flt_total worstError_not_NaN that(2) by blast
    then show ?thesis using that(1) flt_trans by auto
  qed
  ultimately show ?case using snoc by auto
qed (use assms in \<open>simp add: worstError_def\<close>)

section \<open>The gate\<close>

text \<open>A wave passes on its rows: there are some, none has too high an error rate, and the median p99 is low enough.\<close>

definition wavePasses :: "ScoreConfig \<Rightarrow> MetricRow list \<Rightarrow> bool" where
  "wavePasses cfg rows \<longleftrightarrow> rows \<noteq> [] \<and> \<not> list_ex (\<lambda>r. flt (MaxErrorRate cfg) (mr_ErrorRate r)) rows \<and>
     medianU64 (map mr_P99NS rows) \<le> MaxP99NS cfg"

lemma gateWave_passed:
  assumes "MaxErrorRate cfg = Fin x" "0 < x"
  shows "wr_Passed (gateWave cfg (map_of (summarizeMetrics rows) (wo_WaveIndex wave)) wave)
           \<longleftrightarrow> wavePasses cfg (rowsAt rows (wo_WaveIndex wave))"
proof (cases "rowsAt rows (wo_WaveIndex wave) = []")
  case True
  then show ?thesis by (simp add: gateWave_def summarizeMetrics_lookup wavePasses_def Let_def)
next
  case False
  then show ?thesis unfolding wavePasses_def assms(1) worstError_above [OF assms(2), symmetric]
    by (auto simp: gateWave_def summarizeMetrics_lookup Let_def summaryOf_def assms(1) not_less)
qed

lemma gateWave_fields [simp]:
  "wr_WaveIndex (gateWave cfg m wave) = wo_WaveIndex wave"
  "wr_OfferedRPS (gateWave cfg m wave) = wo_OfferedRPS wave"
  by (simp_all add: gateWave_def Let_def split: option.split)

lemma gateWave_latency: "wr_Passed (gateWave cfg m wave) \<Longrightarrow> wr_P99NS (gateWave cfg m wave) \<le> MaxP99NS cfg"
  by (auto simp: gateWave_def Let_def split: option.splits if_splits)

definition gated :: "ScoreConfig \<Rightarrow> (int \<times> MetricSummary) list \<Rightarrow> WaveOffer list \<Rightarrow> WaveResult list" where
  "gated cfg ms ws = map (\<lambda>w. gateWave cfg (map_of ms (wo_WaveIndex w)) w) (filter (\<lambda>w. wo_WaveIndex w \<noteq> 0) ws)"

lemma gateWaves_eq:
  "gateWaves cfg ms res ws = (let rs = gated cfg ms ws; good = takeWhile wr_Passed rs in
     res\<lparr>rs_Waves := rs_Waves res @ good @ take 1 (dropWhile wr_Passed rs),
        rs_PeakSustainedTPS := (if good = [] then rs_PeakSustainedTPS res else wr_OfferedRPS (last good)),
        rs_P99AtPeakNS := (if good = [] then rs_P99AtPeakNS res else wr_P99NS (last good))\<rparr>)"
  by (induction ws arbitrary: res) (simp_all add: gated_def Let_def)

section \<open>The schedule\<close>

lemma waveOffer_index: "w \<in> set (waveOffer ts wd i) \<Longrightarrow> wo_WaveIndex w = int i"
  by (auto simp: waveOffer_def Let_def split: if_splits)

lemma sorted_waveOffers:
  "sorted_wrt (<) (map wo_WaveIndex (concat (map (waveOffer ts wd) [m..<n])))"
proof (induction n)
  case (Suc n)
  show ?case
  proof (cases "m \<le> n")
    case True
    have "sorted_wrt (<) (map wo_WaveIndex (waveOffer ts wd n))" by (simp add: waveOffer_def Let_def)
    moreover have "\<forall>w\<in>set (concat (map (waveOffer ts wd) [m..<n])). wo_WaveIndex w < int n"
      by (auto dest: waveOffer_index)
    ultimately show ?thesis using Suc True by (auto simp: sorted_wrt_append dest: waveOffer_index)
  qed simp
qed simp

lemma schedule_bounds:
  "sorted_wrt (<) (map wo_WaveIndex (WaveSchedule ts wd)) \<and>
   list_all (\<lambda>w. 0 \<le> wo_WaveIndex w \<and> wo_WaveIndex w < 10000) (WaveSchedule ts wd)"
proof -
  define wd' where "wd' = (if wd = 0 then DefaultWaveDurationNS else wd)"
  define n where "n = unat (if DefaultMaxScheduledWaves < (maxEndOf ts - 1) div wd' + 1 then DefaultMaxScheduledWaves
                     else (maxEndOf ts - 1) div wd' + 1)"
  have eq: "WaveSchedule ts wd = (if maxEndOf ts = 0 then [] else concat (map (waveOffer ts wd') [0..<n]))"
    unfolding WaveSchedule_def Let_def wd'_def n_def ..
  have "n \<le> 10000"
    by (auto simp: n_def DefaultMaxScheduledWaves_def not_less word_le_nat_alt)
  then show ?thesis unfolding eq using sorted_waveOffers [of ts wd' 0 n]
    by (fastforce simp: list_all_iff dest: waveOffer_index)
qed

section \<open>A small run-group\<close>

definition demoCorrect :: "string \<Rightarrow> Correctness" where
  "demoCorrect s = \<lparr>co_SessionID = s, co_ValidFills = 99, co_TotalFills = 100, co_ViolationCount = 1,
     co_SentCount = 100, co_AckedCount = 100, co_MatchedCount = 100, co_JitterP50US = Fin 0, co_JitterP99US = Fin 0,
     co_JitterP999US = Fin 0, co_JitterMaxUS = Fin 0, co_JitterInvRate = Fin 0\<rparr>"

definition demoTask :: "u32 \<Rightarrow> u64 \<Rightarrow> u64 \<Rightarrow> TaskSpec" where
  "demoTask rps start dur = \<lparr>TaskID = 0, Profile = ''p'', TargetRPS = rps, StartOffsetNs = start, DurationNs = dur,
     MarketPct = 0, CancelPct = 0, ReplacePct = 0, TargetIdx = 0, SMPIDCount = 0\<rparr>"

definition demoRow :: "int \<Rightarrow> u64 \<Rightarrow> MetricRow" where
  "demoRow w p99 = \<lparr>mr_WaveIndex = w, mr_P99NS = p99, mr_TPS1S = Fin 100, mr_ErrorRate = Fin 0\<rparr>"

definition demoInput :: Input where
  "demoInput = \<lparr>in_RunGroupID = ''g'', in_SubmissionID = ''u'', in_ContestantID = ''c'', in_TeamName = ''t'',
     in_Sessions = [
       \<lparr>se_SessionID = ''a'', se_Scenario = ''correctness'', se_TaskSpecs = [], se_Correct = demoCorrect ''a'',
        se_Metrics = [], se_DurationNS = 0\<rparr>,
       \<lparr>se_SessionID = ''b'', se_Scenario = ''ramp'',
        se_TaskSpecs = [demoTask 100 0 40, demoTask 100 20 20, demoTask 0 0 1],
        se_Correct = demoCorrect ''b'',
        se_Metrics = [demoRow 1 9000000, demoRow 1 600000, demoRow 1 500000, demoRow 2 700000, demoRow 3 2000000],
        se_DurationNS = 0\<rparr>],
     in_Config = \<lparr>CorrectnessDQThreshold = Fin 1, MaxErrorRate = Fin 1, MaxP99NS = 0, WaveDurationNS = 10, MinCoverage = Fin 1\<rparr>\<rparr>"

lemma f64_numeral: "numeral n < (2::int) ^ 53 \<Longrightarrow> f64 (numeral n) = Fin (numeral n)"
proof -
  assume n: "numeral n < (2::int) ^ 53"
  have "(2::rat) powi 53 \<le> 2 powi 1023" by (rule powi_mono) simp
  moreover have "(numeral n :: rat) < 2 powi 53"
    using n unfolding power_int_def by (simp add: of_int_less_iff [where 'a = rat, symmetric] del: of_int_less_iff)
  ultimately have "\<bar>numeral n :: rat\<bar> \<le> 2 powi 1023" unfolding abs_numeral by linarith
  then have "f64 (numeral n) = Fin (round64 (numeral n))" by (rule f64_Fin)
  then show ?thesis using round64_of_int [OF _ n] by simp
qed

lemma demo_offers:
  "WaveSchedule [demoTask 100 0 40, demoTask 100 20 20, demoTask 0 0 1] 10 =
    map (\<lambda>(w, r). \<lparr>wo_WaveIndex = w, wo_OfferedRPS = r\<rparr>) [(0, 100), (1, 100), (2, 200), (3, 200)]"
proof -
  have one: "fdiv (f64_of_u64 10) (f64_of_u64 10) = Fin 1" by (rule f64_ratio_one) simp
  have fl: "\<lfloor>(201 / 2) :: rat\<rfloor> = 100" "\<lfloor>(401 / 2) :: rat\<rfloor> = 200" by (simp_all add: floor_eq_iff)
  have "maxEndOf [demoTask 100 0 40, demoTask 100 20 20, demoTask 0 0 1] = 40"
    by (simp add: maxEndOf_def demoTask_def saturatingAdd_def)
  then show ?thesis unfolding WaveSchedule_def
    by (simp add: DefaultMaxScheduledWaves_def waveOffer_def offerTask_def overlapNS_def saturatingAdd_def
      demoTask_def f64_of_u32_def f64_numeral one fl u64_of_f64_def upt_rec max_def min_def fle_def)
qed

lemma demo_gate:
  "(let cfg = WithDefaults (in_Config demoInput); ramp = last (filter isRamp (in_Sessions demoInput)) in
    map (\<lambda>w. gateWave cfg (map_of (summarizeMetrics (se_Metrics ramp)) (wo_WaveIndex w)) w)
      (filter (\<lambda>w. wo_WaveIndex w \<noteq> 0) (WaveSchedule (se_TaskSpecs ramp) (WaveDurationNS cfg)))) =
   [\<lparr>wr_WaveIndex = 1, wr_OfferedRPS = 100, wr_P99NS = 600000, wr_Passed = True, wr_Reason = NoWaveReason\<rparr>,
    \<lparr>wr_WaveIndex = 2, wr_OfferedRPS = 200, wr_P99NS = 700000, wr_Passed = True, wr_Reason = NoWaveReason\<rparr>,
    \<lparr>wr_WaveIndex = 3, wr_OfferedRPS = 200, wr_P99NS = 2000000, wr_Passed = False, wr_Reason = P99Latency\<rparr>]"
  by (simp add: demoInput_def isRamp_def WithDefaults_def isPositiveFinite_def demo_offers summarizeMetrics_lookup rowsAt_def
    gateWave_def summaryOf_def worstError_def demoRow_def medianU64_def sort_stable_def DefaultMaxP99NS_def)

lemmas demo_gate_unfolded = demo_gate [unfolded Let_def]

section \<open>Properties\<close>

text \<open>
  C22. For every input, the computed correctness is a finite number between 0 and 1. The
  result is disqualified exactly when that number or the correctness of some session with
  fills, of either pass, is below the threshold (the comment of \<open>aggregateCorrectness\<close> says that the
  correctness of pass 2 decides nothing; in \<open>Compute\<close> it does), with the code of the first of these two reasons; the
  telemetry flag is set exactly when some session that sent orders has too low a coverage,
  and does not influence the disqualification. The missing ramp is an error exactly when
  nothing disqualifies the run-group, and a run-group without a pass-1 session is always
  disqualified.
\<close>

theorem Compute_verdict:
  "let cfg = WithDefaults (in_Config inp); ss = in_Sessions inp; res = fst (Compute inp) in
     (\<exists>q. rs_TotalCorrectness res = Fin q \<and> 0 \<le> q \<and> q \<le> 1) \<and>
     rs_TotalCorrectness res = aggregateCorrectness ss \<and>
     rs_DisqualificationCode res = verdict cfg ss \<and>
     (rs_Disqualified res \<longleftrightarrow> verdict cfg ss \<noteq> NotDQ) \<and>
     (rs_IncompleteTelemetry res \<longleftrightarrow> list_ex (sessionGap cfg) ss) \<and>
     (snd (Compute inp) = Some ErrMissingRampSession \<longleftrightarrow> list_all (Not \<circ> isRamp) ss \<and> verdict cfg ss = NotDQ) \<and>
     (rs_Disqualified res \<or> list_ex (\<lambda>s. se_Scenario s = ScenarioCorrectness) ss)"
proof -
  define cfg where "cfg = WithDefaults (in_Config inp)"
  define ss where "ss = in_Sessions inp"
  define res where "res = fst (Compute inp)"
  have ramp: "filter isRamp ss = [] \<longleftrightarrow> list_all (Not \<circ> isRamp) ss" by (auto simp: filter_empty_conv list_all_iff)
  have c: "rs_TotalCorrectness res = aggregateCorrectness ss" "rs_DisqualificationCode res = verdict cfg ss"
    "rs_Disqualified res \<longleftrightarrow> verdict cfg ss \<noteq> NotDQ" "rs_IncompleteTelemetry res \<longleftrightarrow> list_ex (sessionGap cfg) ss"
    by (simp_all add: res_def Compute_eq cfg_def ss_def Let_def disqualify_def)
  have e: "snd (Compute inp) = Some ErrMissingRampSession \<longleftrightarrow> list_all (Not \<circ> isRamp) ss \<and> verdict cfg ss = NotDQ"
    unfolding ramp [symmetric] by (simp add: Compute_eq cfg_def ss_def Let_def)
  have "rs_Disqualified res" if "\<not> list_ex (\<lambda>s. se_Scenario s = ScenarioCorrectness) ss"
  proof -
    have "aggregateCorrectness ss = Fin 0" using that by (intro aggregateCorrectness_none) (auto simp: list_ex_iff)
    moreover obtain t where "CorrectnessDQThreshold cfg = Fin t" "0 < t" using WithDefaults_threshold cfg_def by blast
    ultimately show ?thesis using c(3) by (simp add: verdict_def)
  qed
  with c e aggregateCorrectness_unit [of ss] show ?thesis
    unfolding Let_def cfg_def [symmetric] ss_def [symmetric] res_def [symmetric] by auto
qed

text \<open>
  C23. For a run-group whose ramp has an offered rate, the schedule after its first wave has
  strictly increasing wave indices below the cap. The waves reported are the longest prefix
  of it that passes, followed by the first wave that fails; the peak rate and its latency
  are those of the last wave of that prefix, or zero; a wave passes exactly when it has
  rows, none of them above the error rate, and their median p99 is within the limit.
\<close>

theorem ramp_gate:
  fixes inp
  defines "cfg \<equiv> WithDefaults (in_Config inp)" and "ramp \<equiv> last (filter isRamp (in_Sessions inp))"
  defines "sched \<equiv> WaveSchedule (se_TaskSpecs ramp) (WaveDurationNS cfg)"
  defines "rs \<equiv> map (\<lambda>w. gateWave cfg (map_of (summarizeMetrics (se_Metrics ramp)) (wo_WaveIndex w)) w)
                   (filter (\<lambda>w. wo_WaveIndex w \<noteq> 0) sched)"
  defines "good \<equiv> takeWhile wr_Passed rs"
  assumes "list_ex isRamp (in_Sessions inp)" and "\<not> isMaxRateOnly (se_TaskSpecs ramp)"
  shows "sorted_wrt (<) (map wr_WaveIndex rs) \<and>
    list_all (\<lambda>wr. 0 < wr_WaveIndex wr \<and> wr_WaveIndex wr < 10000) rs \<and>
    list_all (\<lambda>wr. wr_Passed wr \<longleftrightarrow> wavePasses cfg (rowsAt (se_Metrics ramp) (wr_WaveIndex wr))) rs \<and>
    rs_Waves (fst (Compute inp)) = good @ take 1 (dropWhile wr_Passed rs) \<and>
    rs_PeakSustainedTPS (fst (Compute inp)) = (if good = [] then 0 else wr_OfferedRPS (last good)) \<and>
    rs_P99AtPeakNS (fst (Compute inp)) = (if good = [] then 0 else wr_P99NS (last good)) \<and>
    rs_P99AtPeakNS (fst (Compute inp)) \<le> MaxP99NS cfg"
proof -
  have r: "filter isRamp (in_Sessions inp) \<noteq> []" using assms(6) by (auto simp: filter_empty_conv list_ex_iff)
  have g: "gated cfg (summarizeMetrics (se_Metrics ramp)) sched = rs" by (simp add: gated_def rs_def)
  obtain x where x: "MaxErrorRate cfg = Fin x" "0 < x" using WithDefaults_maxError cfg_def by blast
  note f = schedule_bounds [of "se_TaskSpecs ramp" "WaveDurationNS cfg", folded sched_def]
  have 1: "sorted_wrt (<) (map wr_WaveIndex rs)"
    using f by (simp add: rs_def comp_def sorted_wrt_map sorted_wrt_filter)
  have 2: "list_all (\<lambda>wr. 0 < wr_WaveIndex wr \<and> wr_WaveIndex wr < 10000) rs"
    using f by (auto simp: rs_def list_all_iff)
  have 3: "list_all (\<lambda>wr. wr_Passed wr \<longleftrightarrow> wavePasses cfg (rowsAt (se_Metrics ramp) (wr_WaveIndex wr))) rs"
    by (simp add: rs_def list_all_iff gateWave_passed [OF x])
  have res: "fst (Compute inp) = disqualify (verdict cfg (in_Sessions inp)) (gateWaves cfg (summarizeMetrics (se_Metrics ramp))
      ((initResult cfg inp)\<lparr>rs_SpikeRecoveryNS := spikeRecoveryNS (in_Sessions inp) (WaveDurationNS cfg)\<rparr>) sched)"
    using r assms(7) by (simp add: Compute_eq Let_def gradeRamp_def cfg_def ramp_def sched_def)
  have 4: "rs_Waves (fst (Compute inp)) = good @ take 1 (dropWhile wr_Passed rs)"
    and 5: "rs_PeakSustainedTPS (fst (Compute inp)) = (if good = [] then 0 else wr_OfferedRPS (last good))"
    and p: "rs_P99AtPeakNS (fst (Compute inp)) = (if good = [] then 0 else wr_P99NS (last good))"
    unfolding res gateWaves_eq g Let_def good_def by simp_all
  have "wr_P99NS (last good) \<le> MaxP99NS cfg" if "good \<noteq> []"
  proof -
    have "last good \<in> set good" using that by simp
    then have "wr_Passed (last good)" "last good \<in> set rs" unfolding good_def by (auto dest: set_takeWhileD)
    then show ?thesis by (auto simp: rs_def gateWave_latency)
  qed
  then have "rs_P99AtPeakNS (fst (Compute inp)) \<le> MaxP99NS cfg" unfolding p by simp
  with 1 2 3 4 5 p show ?thesis by simp
qed

theorem ramp_gate_witness:
  "wr_WaveIndex ` set (rs_Waves (fst (Compute demoInput))) = {1, 2, 3} \<and>
   rs_PeakSustainedTPS (fst (Compute demoInput)) = 200 \<and> rs_P99AtPeakNS (fst (Compute demoInput)) = 700000"
proof -
  have r: "list_ex isRamp (in_Sessions demoInput)" "\<not> isMaxRateOnly (se_TaskSpecs (last (filter isRamp (in_Sessions demoInput))))"
    by (simp_all add: demoInput_def isRamp_def isMaxRateOnly_def demoTask_def)
  show ?thesis using ramp_gate [OF r] unfolding demo_gate_unfolded by simp
qed

end
