(* ===== verification/ScoreStore.thy ===== *)
theory ScoreStore
  imports Score Validator
begin

text \<open>
  The score-computer around \<open>score.go\<close>: its tables (\<open>store.go\<close>), the two consumers
  (\<open>consumer.go\<close>), the worker (\<open>worker.go\<close>) and the recovery scan of \<open>main.go\<close>. A table is
  the list of its rows; a statement acts on it as its SQL text says, with the three-valued
  logic of SQL where a column is nullable. The averaging of doubles and the collation of
  text belong to the database and are parameters. Which calls fail in one attempt, and with
  what error, is an argument.
\<close>

section \<open>Tables\<close>

record RunRow =
  ru_session_id :: string
  ru_run_group_id :: "string option"
  ru_submission_id :: string
  ru_contestant_id :: string
  ru_scenario_id :: "string option"

record ScenarioRow =
  sn_scenario_id :: string
  sn_name :: string
  sn_duration_ns :: i64
  sn_sort_order :: int
  sn_task_specs :: "TaskSpec list option"

record GroupRow =
  gr_run_group_id :: string
  gr_submission_id :: string
  gr_contestant_id :: string

record ProgressRow =
  pg_run_group_id :: string
  pg_session_id :: string
  pg_submission_id :: string
  pg_contestant_id :: string
  pg_terminal_status :: "string option"
  pg_terminal_at :: "int option"
  pg_valid_fills :: "i64 option"
  pg_total_fills :: "i64 option"
  pg_correctness_score :: "float64 option"
  pg_violation_count :: "i64 option"
  pg_correctness_at_ns :: "i64 option"
  pg_sent_count :: "i64 option"
  pg_acked_count :: "i64 option"
  pg_matched_count :: "i64 option"
  pg_jitter_p50_us :: "float64 option"
  pg_jitter_p99_us :: "float64 option"
  pg_jitter_p999_us :: "float64 option"
  pg_jitter_max_us :: "float64 option"
  pg_jitter_inversion_rate :: "float64 option"

record ConfigRow =
  cr_correctness_dq_threshold :: float64
  cr_max_error_rate :: float64
  cr_max_p99_ns :: i64
  cr_wave_duration_ns :: i64
  cr_min_coverage :: float64

record ScoreRow =
  sc_run_group_id :: string
  sc_submission_id :: string
  sc_contestant_id :: string
  sc_team_name :: string
  sc_peak_sustained_tps :: i64
  sc_p99_at_peak_ns :: i64
  sc_spike_recovery_ns :: i64
  sc_total_correctness :: float64
  sc_disqualified :: bool
  sc_disqualification_code :: DQCode
  sc_rank :: "i64 option"
  sc_rank_delta :: "i64 option"
  sc_incomplete_telemetry :: bool
  sc_jitter_p50_us :: float64
  sc_jitter_p99_us :: float64
  sc_jitter_p999_us :: float64
  sc_jitter_max_us :: float64
  sc_jitter_inversion_rate :: float64
  sc_score_detail :: ScoreResult
  sc_published :: bool

record MetricsRow =
  mx_session_id :: string
  mx_contestant_id :: string
  mx_wave_index :: int
  mx_p99_ns :: "i64 option"
  mx_tps_1s :: "float64 option"
  mx_error_rate :: "float64 option"

record ScoreDB =
  db_runs :: "RunRow list"
  db_scenarios :: "ScenarioRow list"
  db_groups :: "GroupRow list"
  db_submissions :: "string \<rightharpoonup> string"
  db_progress :: "ProgressRow list"
  db_scores :: "ScoreRow list"
  db_config :: "ConfigRow option"
  db_metrics :: "MetricsRow list"

datatype 'e scErr =
    DbErr 'e
  | NoRows
  | LookupRun string
  | NoRunGroup string
  | NullColumn
  | UnmarshalTaskSpecs
  | MarshalResult
  | ExceedsBigint u64
  | ComputeErr ScoreErr
  | PublishUpdate "'e option"

section \<open>Reading the configuration and the metrics\<close>

definition nonNegativeUint64 :: "i64 \<Rightarrow> u64" where
  "nonNegativeUint64 v = (if v \<le> 0 then 0 else word_of_int v)"

definition uint64ToInt64 :: "u64 \<Rightarrow> 'e scErr + i64" where
  "uint64ToInt64 v = (if v > drop_bit 1 (- 1) then Inl (ExceedsBigint v) else Inr (int64 v))"

definition Config :: "'e option \<Rightarrow> ScoreDB \<Rightarrow> 'e scErr + ScoreConfig" where
  "Config fault db =
     (case fault of Some e \<Rightarrow> Inl (DbErr e)
      | None \<Rightarrow> case db_config db of None \<Rightarrow> Inl NoRows
        | Some r \<Rightarrow> Inr (WithDefaults \<lparr>
            CorrectnessDQThreshold = cr_correctness_dq_threshold r,
            MaxErrorRate = cr_max_error_rate r,
            MaxP99NS = (if cr_max_p99_ns r > 0 then word_of_int (cr_max_p99_ns r) else 0),
            WaveDurationNS = (if cr_wave_duration_ns r > 0 then word_of_int (cr_wave_duration_ns r) else 0),
            MinCoverage = cr_min_coverage r\<rparr>))"

text \<open>\<open>MAX\<close> skips nulls; on doubles NaN is the greatest value.\<close>

definition pgLess :: "float64 \<Rightarrow> float64 \<Rightarrow> bool" where
  "pgLess a b \<longleftrightarrow> flt a b \<or> a \<noteq> NaN \<and> b = NaN"

definition pgMax :: "float64 list \<Rightarrow> float64 option" where
  "pgMax xs = foldl (\<lambda>m x. case m of None \<Rightarrow> Some x | Some y \<Rightarrow> Some (if pgLess y x then x else y)) None xs"

definition pgMaxInt :: "i64 list \<Rightarrow> i64 option" where
  "pgMaxInt xs = (if xs = [] then None else Some (Max (set xs)))"

definition coalesce :: "'a option \<Rightarrow> 'a \<Rightarrow> 'a" where
  "coalesce x d = (case x of None \<Rightarrow> d | Some y \<Rightarrow> y)"

definition notNull :: "'a option list \<Rightarrow> 'a list" where
  "notNull xs = concat (map (\<lambda>x. case x of None \<Rightarrow> [] | Some y \<Rightarrow> [y]) xs)"

definition loadMetrics :: "(float64 list \<Rightarrow> float64 option) \<Rightarrow> ScoreDB \<Rightarrow> string \<Rightarrow> string \<Rightarrow> MetricRow list" where
  "loadMetrics avg db sessionID contestantID =
     (let rows = filter (\<lambda>r. mx_session_id r = sessionID \<and> (contestantID = '''' \<or> mx_contestant_id r = contestantID))
                   (db_metrics db) in
      map (\<lambda>w. let g = filter (\<lambda>r. mx_wave_index r = w) rows in
            \<lparr>mr_WaveIndex = w,
             mr_P99NS = nonNegativeUint64 (coalesce (pgMaxInt (notNull (map mx_p99_ns g))) 0),
             mr_TPS1S = coalesce (avg (notNull (map mx_tps_1s g))) (Fin 0),
             mr_ErrorRate = coalesce (pgMax (notNull (map mx_error_rate g))) (Fin 0)\<rparr>)
        (sort (remdups (map mx_wave_index rows))))"

section \<open>Recording progress\<close>

definition lookupRun :: "'e option \<Rightarrow> ScoreDB \<Rightarrow> string \<Rightarrow> 'e scErr + string \<times> string \<times> string" where
  "lookupRun fault db sessionID =
     (case fault of Some e \<Rightarrow> Inl (DbErr e)
      | None \<Rightarrow> case find (\<lambda>r. ru_session_id r = sessionID) (db_runs db) of
          None \<Rightarrow> Inl (LookupRun sessionID)
        | Some r \<Rightarrow> if coalesce (ru_run_group_id r) '''' = '''' then Inl (NoRunGroup sessionID)
            else Inr (coalesce (ru_run_group_id r) '''', ru_submission_id r, ru_contestant_id r))"

text \<open>
  \<open>BOOL_AND\<close> skips nulls and is null when nothing is left; \<open>HAVING\<close> keeps a group only when its
  condition is true, so a null counts like false.
\<close>

definition boolAnd :: "bool option list \<Rightarrow> bool option" where
  "boolAnd bs = (if notNull bs = [] then None else Some (list_all id (notNull bs)))"

definition isTerminal :: "string option \<Rightarrow> bool option" where
  "isTerminal st = map_option (\<lambda>s. s \<in> {RunStatusCompleted, RunStatusFailed}) st"

definition groupReady :: "ScoreDB \<Rightarrow> string \<Rightarrow> bool" where
  "groupReady db g =
     (let rows = filter (\<lambda>p. pg_run_group_id p = g \<and>
                       list_ex (\<lambda>r. ru_session_id r = pg_session_id p) (db_runs db) \<and>
                       \<not> list_ex (\<lambda>s. sc_run_group_id s = g) (db_scores db)) (db_progress db);
          n = length (remdups (map pg_session_id rows)) in
      n = length (remdups (map ru_session_id (filter (\<lambda>r. ru_run_group_id r = Some g) (db_runs db)))) \<and>
      n \<ge> 1 \<and>
      boolAnd (map (\<lambda>p. isTerminal (pg_terminal_status p)) rows) = Some True \<and>
      boolAnd (map (\<lambda>p. Some (pg_total_fills p \<noteq> None)) rows) = Some True)"

definition ReadyRunGroups :: "'e option \<Rightarrow> ScoreDB \<Rightarrow> string \<Rightarrow> 'e scErr + string list" where
  "ReadyRunGroups fault db g =
     (case fault of Some e \<Rightarrow> Inl (DbErr e) | None \<Rightarrow> Inr (if groupReady db g then [g] else []))"

definition PendingRunGroups :: "'e option \<Rightarrow> ScoreDB \<Rightarrow> 'e scErr + string list" where
  "PendingRunGroups fault db =
     (case fault of Some e \<Rightarrow> Inl (DbErr e)
      | None \<Rightarrow> Inr (filter (groupReady db) (remdups (map pg_run_group_id (db_progress db)))))"

text \<open>\<open>INSERT ... ON CONFLICT (session_id) DO UPDATE\<close>: \<open>ins\<close> is the new row, \<open>upd\<close> the update of an old one.\<close>

fun upsert :: "string \<Rightarrow> ProgressRow \<Rightarrow> (ProgressRow \<Rightarrow> ProgressRow) \<Rightarrow> ProgressRow list \<Rightarrow> ProgressRow list" where
  "upsert s ins upd [] = [ins]"
| "upsert s ins upd (p # ps) = (if pg_session_id p = s then upd p # ps else p # upsert s ins upd ps)"

definition emptyProgress :: "string \<Rightarrow> string \<Rightarrow> string \<Rightarrow> string \<Rightarrow> ProgressRow" where
  "emptyProgress g s sub c = \<lparr>
     pg_run_group_id = g, pg_session_id = s, pg_submission_id = sub, pg_contestant_id = c,
     pg_terminal_status = None, pg_terminal_at = None, pg_valid_fills = None, pg_total_fills = None,
     pg_correctness_score = None, pg_violation_count = None, pg_correctness_at_ns = None,
     pg_sent_count = None, pg_acked_count = None, pg_matched_count = None,
     pg_jitter_p50_us = None, pg_jitter_p99_us = None, pg_jitter_p999_us = None,
     pg_jitter_max_us = None, pg_jitter_inversion_rate = None\<rparr>"

definition setKeys :: "string \<Rightarrow> string \<Rightarrow> string \<Rightarrow> ProgressRow \<Rightarrow> ProgressRow" where
  "setKeys g sub c p = p\<lparr>pg_run_group_id := g, pg_submission_id := sub, pg_contestant_id := c\<rparr>"

definition setStatus :: "BenchmarkStatusUpdated \<Rightarrow> ProgressRow \<Rightarrow> ProgressRow" where
  "setStatus ev p = p\<lparr>pg_terminal_status := Some (bs_Status ev), pg_terminal_at := Some (bs_UpdatedAt ev)\<rparr>"

definition setCorrectness :: "CorrectnessScoreEvent \<Rightarrow> ProgressRow \<Rightarrow> ProgressRow" where
  "setCorrectness ev p = p\<lparr>
     pg_valid_fills := Some (int64 (ce_ValidFills ev)),
     pg_total_fills := Some (int64 (ce_TotalFills ev)),
     pg_correctness_score := Some (ce_CorrectnessScore ev),
     pg_violation_count := Some (int64 (ce_ViolationCount ev)),
     pg_correctness_at_ns := Some (int64 (ce_ComputedAtNS ev)),
     pg_sent_count := Some (int64 (ce_SentCount ev)),
     pg_acked_count := Some (int64 (ce_AckedCount ev)),
     pg_matched_count := Some (int64 (ce_MatchedCount ev)),
     pg_jitter_p50_us := Some (ce_JitterP50US ev),
     pg_jitter_p99_us := Some (ce_JitterP99US ev),
     pg_jitter_p999_us := Some (ce_JitterP999US ev),
     pg_jitter_max_us := Some (ce_JitterMaxUS ev),
     pg_jitter_inversion_rate := Some (ce_JitterInvRate ev)\<rparr>"

record 'e RecFaults =
  rf_lookup :: "'e option"
  rf_exec :: "'e option"
  rf_ready :: "'e option"

definition RecordStatus :: "'e RecFaults \<Rightarrow> ScoreDB \<Rightarrow> BenchmarkStatusUpdated \<Rightarrow> ('e scErr + string list) \<times> ScoreDB" where
  "RecordStatus f db ev =
     (if bs_Status ev \<noteq> RunStatusCompleted \<and> bs_Status ev \<noteq> RunStatusFailed then (Inr [], db)
      else let run = lookupRun (rf_lookup f) db (bs_SessionID ev) in
        case (case run of
                Inr (g, sub, c) \<Rightarrow>
                  Inr (if bs_RunGroupID ev = '''' then g else bs_RunGroupID ev,
                       if bs_SubmissionID ev = '''' then sub else bs_SubmissionID ev, c)
              | Inl e \<Rightarrow> if bs_RunGroupID ev = '''' \<or> bs_SubmissionID ev = '''' then Inl e
                         else Inr (bs_RunGroupID ev, bs_SubmissionID ev, '''')) of
          Inl e \<Rightarrow> (Inl e, db)
        | Inr (g, sub, c) \<Rightarrow>
            case rf_exec f of Some e \<Rightarrow> (Inl (DbErr e), db)
            | None \<Rightarrow>
               let db' = db\<lparr>db_progress := upsert (bs_SessionID ev)
                            (setStatus ev (emptyProgress g (bs_SessionID ev) sub c))
                            (\<lambda>p. setStatus ev (setKeys g sub c p)) (db_progress db)\<rparr> in
               (ReadyRunGroups (rf_ready f) db' g, db'))"

definition RecordCorrectness :: "'e RecFaults \<Rightarrow> ScoreDB \<Rightarrow> CorrectnessScoreEvent \<Rightarrow> ('e scErr + string list) \<times> ScoreDB" where
  "RecordCorrectness f db ev =
     (case lookupRun (rf_lookup f) db (ce_SessionID ev) of Inl e \<Rightarrow> (Inl e, db)
      | Inr (g, sub, rc) \<Rightarrow>
         let c = (if ce_ContestantID ev \<noteq> '''' then ce_ContestantID ev else rc) in
         case rf_exec f of Some e \<Rightarrow> (Inl (DbErr e), db)
         | None \<Rightarrow>
            let db' = db\<lparr>db_progress := upsert (ce_SessionID ev)
                         (setCorrectness ev (emptyProgress g (ce_SessionID ev) sub c))
                         (\<lambda>p. setCorrectness ev (setKeys g sub c p)) (db_progress db)\<rparr> in
            (ReadyRunGroups (rf_ready f) db' g, db'))"

section \<open>Loading the input of a run-group\<close>

record 'e ScoreFaults =
  wf_config :: "'e option"
  wf_group :: "'e option"
  wf_rows :: "'e option"
  wf_metrics :: "'e option"
  wf_save :: "'e option"
  wf_rank :: "'e option"
  wf_mark :: "'e option"
  wf_write :: "'e option"
  wf_nowNS :: u64

text \<open>What the code uses of the database beyond the statements themselves.\<close>

record SqlOps =
  sql_avg :: "float64 list \<Rightarrow> float64 option"
  sql_coll :: "string \<Rightarrow> string \<Rightarrow> bool"

definition sessionRows :: "SqlOps \<Rightarrow> ScoreDB \<Rightarrow> string \<Rightarrow> (RunRow \<times> ScenarioRow \<times> ProgressRow) list" where
  "sessionRows ops db g =
     sort_stable (\<lambda>(_, a, _) (_, b, _). sn_sort_order a < sn_sort_order b \<or>
         sn_sort_order a = sn_sort_order b \<and> sql_coll ops (sn_name a) (sn_name b))
       [(r, sn, p). r \<leftarrow> db_runs db, sn \<leftarrow> db_scenarios db, p \<leftarrow> db_progress db,
          ru_run_group_id r = Some g \<and> ru_scenario_id r = Some (sn_scenario_id sn) \<and> pg_session_id p = ru_session_id r]"

definition sessionOf :: "RunRow \<Rightarrow> ScenarioRow \<Rightarrow> ProgressRow \<Rightarrow> i64 \<Rightarrow> i64 \<Rightarrow> i64 \<Rightarrow> TaskSpec list \<Rightarrow> MetricRow list \<Rightarrow> Session" where
  "sessionOf r sn p valid tot violations tasks metrics = \<lparr>
     se_SessionID = ru_session_id r, se_Scenario = sn_name sn, se_TaskSpecs = tasks,
     se_Correct = \<lparr>co_SessionID = ru_session_id r,
       co_ValidFills = nonNegativeUint64 valid, co_TotalFills = nonNegativeUint64 tot,
       co_ViolationCount = nonNegativeUint64 violations,
       co_SentCount = nonNegativeUint64 (coalesce (pg_sent_count p) 0),
       co_AckedCount = nonNegativeUint64 (coalesce (pg_acked_count p) 0),
       co_MatchedCount = nonNegativeUint64 (coalesce (pg_matched_count p) 0),
       co_JitterP50US = coalesce (pg_jitter_p50_us p) (Fin 0), co_JitterP99US = coalesce (pg_jitter_p99_us p) (Fin 0),
       co_JitterP999US = coalesce (pg_jitter_p999_us p) (Fin 0), co_JitterMaxUS = coalesce (pg_jitter_max_us p) (Fin 0),
       co_JitterInvRate = coalesce (pg_jitter_inversion_rate p) (Fin 0)\<rparr>,
     se_Metrics = metrics, se_DurationNS = nonNegativeUint64 (sn_duration_ns sn)\<rparr>"

fun loadSessions :: "SqlOps \<Rightarrow> 'e option \<Rightarrow> ScoreDB \<Rightarrow> Input \<Rightarrow> (RunRow \<times> ScenarioRow \<times> ProgressRow) list \<Rightarrow> 'e scErr + Input" where
  "loadSessions ops fault db inp [] = Inr inp"
| "loadSessions ops fault db inp ((r, sn, p) # rows) =
     (case (pg_valid_fills p, pg_total_fills p, pg_violation_count p) of
        (Some valid, Some tot, Some violations) \<Rightarrow>
          let inp' = (if in_ContestantID inp = '''' then inp\<lparr>in_ContestantID := ru_contestant_id r\<rparr> else inp) in
          (case sn_task_specs sn of None \<Rightarrow> Inl UnmarshalTaskSpecs
           | Some tasks \<Rightarrow>
              case fault of Some e \<Rightarrow> Inl (DbErr e)
              | None \<Rightarrow> loadSessions ops fault db
                  (inp'\<lparr>in_Sessions := in_Sessions inp' @
                     [sessionOf r sn p valid tot violations tasks
                        (loadMetrics (sql_avg ops) db (ru_session_id r) (in_ContestantID inp'))]\<rparr>) rows)
      | _ \<Rightarrow> Inl NullColumn)"

definition LoadInput :: "SqlOps \<Rightarrow> 'e ScoreFaults \<Rightarrow> ScoreDB \<Rightarrow> string \<Rightarrow> 'e scErr + Input" where
  "LoadInput ops f db g =
     (case Config (wf_config f) db of Inl e \<Rightarrow> Inl e
      | Inr cfg \<Rightarrow>
         case wf_group f of Some e \<Rightarrow> Inl (DbErr e)
         | None \<Rightarrow>
            case find (\<lambda>r. gr_run_group_id r = g) (db_groups db) of None \<Rightarrow> Inl NoRows
            | Some gr \<Rightarrow>
               case wf_rows f of Some e \<Rightarrow> Inl (DbErr e)
               | None \<Rightarrow> loadSessions ops (wf_metrics f) db
                   \<lparr>in_RunGroupID = g, in_SubmissionID = gr_submission_id gr, in_ContestantID = gr_contestant_id gr,
                    in_TeamName = coalesce (db_submissions db (gr_submission_id gr)) '''',
                    in_Sessions = [], in_Config = cfg\<rparr> (sessionRows ops db g))"

section \<open>Saving and ranking\<close>

definition marshalsResult :: "ScoreResult \<Rightarrow> bool" where
  "marshalsResult res \<longleftrightarrow> list_all finiteF [rs_TotalCorrectness res, rs_JitterP50US res, rs_JitterP99US res,
     rs_JitterP999US res, rs_JitterMaxUS res, rs_JitterInvRate res]"

definition scoreRow :: "ScoreResult \<Rightarrow> i64 \<Rightarrow> i64 \<Rightarrow> i64 \<Rightarrow> ScoreRow" where
  "scoreRow res peak p99 recovery = \<lparr>
     sc_run_group_id = rs_RunGroupID res, sc_submission_id = rs_SubmissionID res,
     sc_contestant_id = rs_ContestantID res, sc_team_name = rs_TeamName res,
     sc_peak_sustained_tps = peak, sc_p99_at_peak_ns = p99, sc_spike_recovery_ns = recovery,
     sc_total_correctness = rs_TotalCorrectness res, sc_disqualified = rs_Disqualified res,
     sc_disqualification_code = rs_DisqualificationCode res, sc_rank = None, sc_rank_delta = None,
     sc_incomplete_telemetry = rs_IncompleteTelemetry res,
     sc_jitter_p50_us = rs_JitterP50US res, sc_jitter_p99_us = rs_JitterP99US res,
     sc_jitter_p999_us = rs_JitterP999US res, sc_jitter_max_us = rs_JitterMaxUS res,
     sc_jitter_inversion_rate = rs_JitterInvRate res, sc_score_detail = res, sc_published = False\<rparr>"

definition SaveScore :: "'e option \<Rightarrow> ScoreDB \<Rightarrow> ScoreResult \<Rightarrow> ('e scErr + bool) \<times> ScoreDB" where
  "SaveScore fault db res =
     (if \<not> marshalsResult res then (Inl MarshalResult, db)
      else case uint64ToInt64 (rs_PeakSustainedTPS res) of Inl e \<Rightarrow> (Inl e, db)
      | Inr peak \<Rightarrow> case uint64ToInt64 (rs_P99AtPeakNS res) of Inl e \<Rightarrow> (Inl e, db)
      | Inr p99 \<Rightarrow> case uint64ToInt64 (rs_SpikeRecoveryNS res) of Inl e \<Rightarrow> (Inl e, db)
      | Inr recovery \<Rightarrow> case fault of Some e \<Rightarrow> (Inl (DbErr e), db)
      | None \<Rightarrow>
         if list_ex (\<lambda>s. sc_run_group_id s = rs_RunGroupID res) (db_scores db) then (Inr False, db)
         else (Inr True, db\<lparr>db_scores := db_scores db @ [scoreRow res peak p99 recovery]\<rparr>))"

definition MarkPublished :: "ScoreDB \<Rightarrow> string \<Rightarrow> i64 \<Rightarrow> i64 \<Rightarrow> ScoreDB" where
  "MarkPublished db g rnk delta = db\<lparr>db_scores := map (\<lambda>s. if sc_run_group_id s = g
     then s\<lparr>sc_rank := Some rnk, sc_rank_delta := Some delta, sc_published := True\<rparr> else s) (db_scores db)\<rparr>"

definition rankLess :: "(string \<Rightarrow> string \<Rightarrow> bool) \<Rightarrow> ScoreRow \<Rightarrow> ScoreRow \<Rightarrow> bool" where
  "rankLess coll a b =
     (if sc_disqualified a \<noteq> sc_disqualified b then sc_disqualified b
      else if sc_peak_sustained_tps a \<noteq> sc_peak_sustained_tps b then sc_peak_sustained_tps b < sc_peak_sustained_tps a
      else if sc_p99_at_peak_ns a \<noteq> sc_p99_at_peak_ns b then sc_p99_at_peak_ns a < sc_p99_at_peak_ns b
      else if sc_spike_recovery_ns a \<noteq> sc_spike_recovery_ns b then sc_spike_recovery_ns a < sc_spike_recovery_ns b
      else if sc_total_correctness a \<noteq> sc_total_correctness b then pgLess (sc_total_correctness b) (sc_total_correctness a)
      else coll (sc_run_group_id a) (sc_run_group_id b))"

fun indexOf :: "('a \<Rightarrow> bool) \<Rightarrow> 'a list \<Rightarrow> nat option" where
  "indexOf P [] = None"
| "indexOf P (x # xs) = (if P x then Some 0 else map_option Suc (indexOf P xs))"

definition RankForRunGroup :: "SqlOps \<Rightarrow> 'e option \<Rightarrow> ScoreDB \<Rightarrow> string \<Rightarrow> 'e scErr + i64" where
  "RankForRunGroup ops fault db g =
     (case fault of Some e \<Rightarrow> Inl (DbErr e)
      | None \<Rightarrow> case indexOf (\<lambda>s. sc_run_group_id s = g) (sort_stable (rankLess (sql_coll ops)) (db_scores db)) of
          None \<Rightarrow> Inl NoRows | Some i \<Rightarrow> Inr (int i + 1))"

definition ExistingScore :: "'e option \<Rightarrow> ScoreDB \<Rightarrow> string \<Rightarrow> 'e scErr + ScoreResult option" where
  "ExistingScore fault db g =
     (case fault of Some e \<Rightarrow> Inl (DbErr e)
      | None \<Rightarrow> Inr (map_option sc_score_detail (find (\<lambda>s. sc_run_group_id s = g) (db_scores db))))"

end
