(* ===== verification/ScoreReady.thy ===== *)
theory ScoreReady
  imports ScoreStore Score_Props
begin

text \<open>
  What the statements of the score-computer's store give: the rows \<open>loadMetrics\<close> hands to the
  gate, one per wave, and the exact condition under which a run-group is ready, with nulls
  treated as SQL treats them.
\<close>

section \<open>Metrics as stored\<close>

lemma filter_key_distinct:
  "distinct ws \<Longrightarrow> (\<And>x. k (f x) = x) \<Longrightarrow> filter (\<lambda>r. k r = w) (map f ws) = (if w \<in> set ws then [f w] else [])"
  by (induction ws) auto

definition storedRows :: "ScoreDB \<Rightarrow> string \<Rightarrow> string \<Rightarrow> int \<Rightarrow> MetricsRow list" where
  "storedRows db s c w = filter (\<lambda>r. mx_session_id r = s \<and> (c = [] \<or> mx_contestant_id r = c) \<and> mx_wave_index r = w) (db_metrics db)"

lemma loadMetrics_rowsAt:
  "rowsAt (loadMetrics avg db s c) w =
     (if storedRows db s c w = [] then []
      else [\<lparr>mr_WaveIndex = w,
             mr_P99NS = nonNegativeUint64 (coalesce (pgMaxInt (notNull (map mx_p99_ns (storedRows db s c w)))) 0),
             mr_TPS1S = coalesce (avg (notNull (map mx_tps_1s (storedRows db s c w)))) (Fin 0),
             mr_ErrorRate = coalesce (pgMax (notNull (map mx_error_rate (storedRows db s c w)))) (Fin 0)\<rparr>])"
proof -
  define rows where "rows = filter (\<lambda>r. mx_session_id r = s \<and> (c = [] \<or> mx_contestant_id r = c)) (db_metrics db)"
  have g: "filter (\<lambda>r. mx_wave_index r = w) rows = storedRows db s c w" for w
    by (simp add: rows_def storedRows_def conj_assoc)
  have "storedRows db s c w = [] \<longleftrightarrow> w \<notin> set (sort (remdups (map mx_wave_index rows)))"
    unfolding g [symmetric] by (auto simp: filter_empty_conv)
  then show ?thesis unfolding rowsAt_def loadMetrics_def Let_def rows_def [symmetric]
    by (subst filter_key_distinct) (simp_all add: g)
qed

section \<open>Readiness\<close>

lemma boolAnd_True: "boolAnd bs = Some True \<longleftrightarrow> (\<exists>b. Some b \<in> set bs) \<and> Some False \<notin> set bs"
proof -
  have n: "set (notNull bs) = {b. Some b \<in> set bs}" by (force simp: notNull_def split: option.splits)
  have "notNull bs = [] \<longleftrightarrow> \<not> (\<exists>b. Some b \<in> set bs)" using n by (metis (mono_tags, lifting) empty_set mem_Collect_eq set_empty empty_iff emptyE all_not_in_conv)
  moreover have "list_all id (notNull bs) \<longleftrightarrow> Some False \<notin> set bs" using n by (auto simp: list_all_iff)
  ultimately show ?thesis by (simp add: boolAnd_def)
qed

lemma mem_map_option:
  "Some b \<in> set (map (\<lambda>p. map_option F (h p)) rows) \<longleftrightarrow> (\<exists>p\<in>set rows. \<exists>x. h p = Some x \<and> F x = b)"
  by (induction rows) (auto simp: eq_commute [of "Some b"])

definition progressOk :: "ScoreDB \<Rightarrow> bool" where
  "progressOk db \<longleftrightarrow> distinct (map pg_session_id (db_progress db)) \<and>
     list_all (\<lambda>p. pg_terminal_status p \<in> {None, Some RunStatusCompleted, Some RunStatusFailed} \<and>
       list_all (\<lambda>r. ru_session_id r \<noteq> pg_session_id p \<or> ru_run_group_id r = Some (pg_run_group_id p)) (db_runs db)) (db_progress db)"

definition groupRuns :: "ScoreDB \<Rightarrow> string \<Rightarrow> RunRow list" where
  "groupRuns db g = filter (\<lambda>r. ru_run_group_id r = Some g) (db_runs db)"

definition progressOf :: "ScoreDB \<Rightarrow> string \<Rightarrow> ProgressRow option" where
  "progressOf db s = find (\<lambda>p. pg_session_id p = s) (db_progress db)"

lemma progressOf_mem:
  assumes "progressOk db" "p \<in> set (db_progress db)"
  shows "progressOf db (pg_session_id p) = Some p"
proof -
  have "\<exists>q. progressOf db (pg_session_id p) = Some q"
    using assms(2) unfolding progressOf_def by (cases "find (\<lambda>q. pg_session_id q = pg_session_id p) (db_progress db)") (auto simp: find_None_iff)
  then obtain q where q: "progressOf db (pg_session_id p) = Some q" by blast
  then have "q \<in> set (db_progress db)" "pg_session_id q = pg_session_id p"
    unfolding progressOf_def by (auto simp: find_Some_iff)
  then have "q = p" using assms by (auto simp: progressOk_def distinct_map inj_on_def)
  then show ?thesis using q by simp
qed

lemma progressOf_Some: "progressOf db s = Some p \<Longrightarrow> p \<in> set (db_progress db) \<and> pg_session_id p = s"
  by (auto simp: progressOf_def find_Some_iff)

text \<open>The progress rows that the readiness query groups.\<close>

definition readyRows :: "ScoreDB \<Rightarrow> string \<Rightarrow> ProgressRow list" where
  "readyRows db g = filter (\<lambda>p. pg_run_group_id p = g \<and> list_ex (\<lambda>r. ru_session_id r = pg_session_id p) (db_runs db) \<and>
     \<not> list_ex (\<lambda>s. sc_run_group_id s = g) (db_scores db)) (db_progress db)"

lemma groupReady_cards:
  "groupReady db g \<longleftrightarrow>
     card (pg_session_id ` set (readyRows db g)) = card (ru_session_id ` set (groupRuns db g)) \<and> readyRows db g \<noteq> [] \<and>
     (\<exists>p\<in>set (readyRows db g). pg_terminal_status p \<noteq> None) \<and>
     (\<forall>p\<in>set (readyRows db g). \<forall>s. pg_terminal_status p = Some s \<longrightarrow> s \<in> {RunStatusCompleted, RunStatusFailed}) \<and>
     (\<forall>p\<in>set (readyRows db g). pg_total_fills p \<noteq> None)"
proof -
  have len: "length (remdups xs) = card (set xs)" for xs :: "string list" by (metis length_remdups_card_conv)
  have ne: "card (pg_session_id ` set rows) \<ge> 1 \<longleftrightarrow> rows \<noteq> []" for rows :: "ProgressRow list"
    by (metis One_nat_def Suc_leI card_0_eq card_gt_0_iff finite_imageI finite_set image_is_empty not_one_le_zero set_empty)
  have t: "boolAnd (map (\<lambda>p. isTerminal (pg_terminal_status p)) rows) = Some True \<longleftrightarrow>
      (\<exists>p\<in>set rows. pg_terminal_status p \<noteq> None) \<and>
      (\<forall>p\<in>set rows. \<forall>s. pg_terminal_status p = Some s \<longrightarrow> s \<in> {RunStatusCompleted, RunStatusFailed})" for rows :: "ProgressRow list"
    unfolding boolAnd_True isTerminal_def mem_map_option by blast
  have f: "boolAnd (map (\<lambda>p. Some (pg_total_fills p \<noteq> None)) rows) = Some True \<longleftrightarrow>
      rows \<noteq> [] \<and> (\<forall>p\<in>set rows. pg_total_fills p \<noteq> None)" for rows :: "ProgressRow list"
    unfolding boolAnd_True by (cases rows) (auto simp: image_iff)
  show ?thesis unfolding groupReady_def Let_def readyRows_def [symmetric] groupRuns_def [symmetric] len set_map ne t f by blast
qed

lemma groupReady_iff:
  assumes ok: "progressOk db"
  shows "groupReady db g \<longleftrightarrow>
     g \<notin> sc_run_group_id ` set (db_scores db) \<and> groupRuns db g \<noteq> [] \<and>
     (\<forall>r\<in>set (groupRuns db g). \<exists>p. progressOf db (ru_session_id r) = Some p \<and> pg_total_fills p \<noteq> None) \<and>
     (\<exists>r\<in>set (groupRuns db g). \<exists>p. progressOf db (ru_session_id r) = Some p \<and> pg_terminal_status p \<noteq> None)"
    (is "_ = ?R")
proof (cases "g \<in> sc_run_group_id ` set (db_scores db)")
  case True
  then have "readyRows db g = []" by (auto simp: readyRows_def filter_empty_conv list_ex_iff)
  then show ?thesis using True by (simp add: groupReady_cards)
next
  case False
  let ?S = "pg_session_id ` set (readyRows db g)" let ?T = "ru_session_id ` set (groupRuns db g)"
  have mem: "p \<in> set (readyRows db g) \<longleftrightarrow> p \<in> set (db_progress db) \<and> pg_session_id p \<in> ?T" for p
  proof -
    have "p \<in> set (db_progress db) \<Longrightarrow> r \<in> set (db_runs db) \<Longrightarrow> ru_session_id r = pg_session_id p \<Longrightarrow>
        ru_run_group_id r = Some (pg_run_group_id p)" for r
      using ok by (auto simp: progressOk_def list_all_iff)
    then show ?thesis using False by (auto simp: readyRows_def groupRuns_def list_ex_iff image_iff)
  qed
  then have sub: "?S \<subseteq> ?T" by auto
  have st: "pg_terminal_status p = Some s \<Longrightarrow> s \<in> {RunStatusCompleted, RunStatusFailed}" if "p \<in> set (readyRows db g)" for p s
    using ok that by (auto simp: progressOk_def list_all_iff readyRows_def)
  have row: "p \<in> set (readyRows db g) \<longleftrightarrow> progressOf db (pg_session_id p) = Some p \<and> pg_session_id p \<in> ?T" for p
    using mem [of p] progressOf_mem [OF ok, of p] progressOf_Some [of db "pg_session_id p" p] by blast
  have "card ?S = card ?T \<longleftrightarrow> ?S = ?T" using sub card_subset_eq [of ?T ?S] by auto
  then have "groupReady db g \<longleftrightarrow> ?S = ?T \<and> readyRows db g \<noteq> [] \<and>
      (\<exists>p\<in>set (readyRows db g). pg_terminal_status p \<noteq> None) \<and> (\<forall>p\<in>set (readyRows db g). pg_total_fills p \<noteq> None)"
    using st unfolding groupReady_cards by blast
  also have "\<dots> \<longleftrightarrow> ?R"
  proof
    assume L: "?S = ?T \<and> readyRows db g \<noteq> [] \<and>
      (\<exists>p\<in>set (readyRows db g). pg_terminal_status p \<noteq> None) \<and> (\<forall>p\<in>set (readyRows db g). pg_total_fills p \<noteq> None)"
    have "\<exists>p. progressOf db (ru_session_id r) = Some p \<and> pg_total_fills p \<noteq> None" if "r \<in> set (groupRuns db g)" for r
    proof -
      have "ru_session_id r \<in> ?S" using L that by blast
      then show ?thesis using L row by force
    qed
    moreover have "\<exists>r\<in>set (groupRuns db g). \<exists>p. progressOf db (ru_session_id r) = Some p \<and> pg_terminal_status p \<noteq> None"
      using L row by (metis (no_types, lifting) imageE)
    ultimately show ?R using L False by auto
  next
    assume R: ?R
    have S: "ru_session_id r \<in> ?S" if "r \<in> set (groupRuns db g)" for r
      using R that row progressOf_Some by (metis (no_types, lifting) image_eqI)
    then have "?S = ?T" using sub by blast
    moreover have "\<forall>p\<in>set (readyRows db g). pg_total_fills p \<noteq> None" using R row by (metis (no_types, lifting) imageE option.inject)
    moreover have "\<exists>p\<in>set (readyRows db g). pg_terminal_status p \<noteq> None" using R row progressOf_Some by (metis (no_types, lifting) image_eqI)
    ultimately show "?S = ?T \<and> readyRows db g \<noteq> [] \<and>
      (\<exists>p\<in>set (readyRows db g). pg_terminal_status p \<noteq> None) \<and> (\<forall>p\<in>set (readyRows db g). pg_total_fills p \<noteq> None)" by auto
  qed
  finally show ?thesis .
qed

section \<open>A small database\<close>

definition demoRun :: "string \<Rightarrow> RunRow" where
  "demoRun s = \<lparr>ru_session_id = s, ru_run_group_id = Some ''g'', ru_submission_id = ''u'', ru_contestant_id = ''c'',
     ru_scenario_id = Some ''n''\<rparr>"

definition demoProgress :: "string \<Rightarrow> string option \<Rightarrow> ProgressRow" where
  "demoProgress s st = (emptyProgress ''g'' s ''u'' ''c'')\<lparr>pg_terminal_status := st,
     pg_valid_fills := Some 0, pg_total_fills := Some 0, pg_violation_count := Some 0\<rparr>"

text \<open>Two sessions of one run-group, both graded, only one with a terminal status.\<close>

definition demoDb :: ScoreDB where
  "demoDb = \<lparr>db_runs = [demoRun ''a'', demoRun ''b''],
     db_scenarios = [\<lparr>sn_scenario_id = ''n'', sn_name = ''spike'', sn_duration_ns = 0, sn_sort_order = 0, sn_task_specs = Some []\<rparr>],
     db_groups = [\<lparr>gr_run_group_id = ''g'', gr_submission_id = ''u'', gr_contestant_id = ''c''\<rparr>],
     db_submissions = (\<lambda>_. None),
     db_progress = [demoProgress ''a'' (Some RunStatusCompleted), demoProgress ''b'' None],
     db_scores = [],
     db_config = Some \<lparr>cr_correctness_dq_threshold = Fin 1, cr_max_error_rate = Fin 1, cr_max_p99_ns = 1,
       cr_wave_duration_ns = 1, cr_min_coverage = Fin 1\<rparr>,
     db_metrics = []\<rparr>"

section \<open>Properties\<close>

text \<open>
  C27. The gate metric of a wave whose rows come from the database is not a median: the
  query returns one row per wave with the largest p99 of its seconds, so the stable p99 is
  the maximum over all stored seconds of the wave, and one slow second decides the wave.
\<close>

theorem stored_median_is_maximum:
  "case map_of (summarizeMetrics (loadMetrics avg db s c)) w of
     None \<Rightarrow> storedRows db s c w = []
   | Some m \<Rightarrow> storedRows db s c w \<noteq> [] \<and> ms_Count m = 1 \<and> ms_StableP99NS m = ms_MaxP99NS m \<and>
       ms_StableP99NS m = nonNegativeUint64 (coalesce (pgMaxInt (notNull (map mx_p99_ns (storedRows db s c w)))) 0)"
  by (simp add: summarizeMetrics_lookup loadMetrics_rowsAt summaryOf_def medianU64_def sort_stable_def)

text \<open>
  C26. A run-group is ready exactly when it has sessions, is not scored yet, every session of
  it has its correctness recorded, and some session of it has a terminal status: the null
  status of a session without one is skipped by the query instead of holding it back. The
  recovery scan finds the same run-groups. (The progress rows have distinct sessions and
  agree with the table of runs.)
\<close>

theorem ready_exactly:
  assumes "progressOk db"
  shows "(groupReady db g \<longleftrightarrow>
     g \<notin> sc_run_group_id ` set (db_scores db) \<and> groupRuns db g \<noteq> [] \<and>
     (\<forall>r\<in>set (groupRuns db g). \<exists>p. progressOf db (ru_session_id r) = Some p \<and> pg_total_fills p \<noteq> None) \<and>
     (\<exists>r\<in>set (groupRuns db g). \<exists>p. progressOf db (ru_session_id r) = Some p \<and> pg_terminal_status p \<noteq> None)) \<and>
    (\<exists>gs. PendingRunGroups None db = Inr gs \<and> set gs = {g. groupReady db g})"
proof -
  have "groupReady db g \<Longrightarrow> g \<in> pg_run_group_id ` set (db_progress db)" for g
  proof -
    assume "groupReady db g"
    then have "readyRows db g \<noteq> []" by (simp add: groupReady_cards)
    then show ?thesis by (auto simp: readyRows_def filter_empty_conv)
  qed
  then have "set (filter (groupReady db) (remdups (map pg_run_group_id (db_progress db)))) = {g. groupReady db g}" by auto
  then show ?thesis using groupReady_iff [OF assms, of g] by (auto simp: PendingRunGroups_def)
qed

theorem ready_exactly_witness:
  "groupReady demoDb ''g'' \<and> map_option pg_terminal_status (progressOf demoDb ''b'') = Some None"
proof -
  have ok: "progressOk demoDb" by code_simp
  have b: "progressOf demoDb ''b'' = Some (demoProgress ''b'' None)"
    "progressOf demoDb ''a'' = Some (demoProgress ''a'' (Some RunStatusCompleted))" by code_simp+
  have "groupRuns demoDb ''g'' = [demoRun ''a'', demoRun ''b'']" by code_simp
  then have "groupReady demoDb ''g''" using b conjunct1 [OF ready_exactly [OF ok, of "''g''"]]
    by (simp add: demoRun_def demoProgress_def) (simp add: demoDb_def)
  then show ?thesis by (simp add: b demoProgress_def emptyProgress_def)
qed

end
