(* ===== verification/ScoreWorker.thy ===== *)
theory ScoreWorker
  imports ScoreStore Score_Props
begin

text \<open>
  The running score-computer: the two consumers that record progress and queue run-groups
  (\<open>consumer.go\<close>), the workers that score them (\<open>worker.go\<close>) and the recovery scan at start
  (\<open>main.go\<close>), as a transition system. The database commits one statement at a time, so a
  worker's \<open>score\<close> is cut at its statements into the jobs below, and the steps of several
  workers and of the consumers interleave freely, between the rank query and the mark of
  one worker as well; \<open>score\<close> itself is one worker running alone. \<open>sw_updates\<close> are the updates whose write
  was acknowledged, one entry per acknowledged call: the messages a retrying writer leaves
  on the broker, more of them or one although the call failed, are below this model.
\<close>

section \<open>One run-group\<close>

record LeaderboardUpdateEvent =
  lu_RunGroupID :: string
  lu_SubmissionID :: string
  lu_ContestantID :: string
  lu_TeamName :: string
  lu_Rank :: i64
  lu_RankDelta :: i64
  lu_PeakSustainedTPS :: u64
  lu_P99NSAtPeakTPS :: u64
  lu_SpikeRecoveryNS :: u64
  lu_TotalCorrectness :: float64
  lu_Disqualified :: bool
  lu_DisqualificationCode :: DQCode
  lu_UpdatedAtNS :: u64

datatype Job = Computed ScoreResult | Inserted ScoreResult | Ranked ScoreResult i64 | Marked ScoreResult i64

record ScoreWorld =
  sw_db :: ScoreDB
  sw_queue :: "string list"
  sw_jobs :: "Job list"
  sw_updates :: "LeaderboardUpdateEvent list"

definition updateEvent :: "ScoreResult \<Rightarrow> i64 \<Rightarrow> i64 \<Rightarrow> u64 \<Rightarrow> LeaderboardUpdateEvent" where
  "updateEvent res rnk delta now = \<lparr>
     lu_RunGroupID = rs_RunGroupID res, lu_SubmissionID = rs_SubmissionID res,
     lu_ContestantID = rs_ContestantID res, lu_TeamName = rs_TeamName res,
     lu_Rank = rnk, lu_RankDelta = delta,
     lu_PeakSustainedTPS = rs_PeakSustainedTPS res, lu_P99NSAtPeakTPS = rs_P99AtPeakNS res,
     lu_SpikeRecoveryNS = rs_SpikeRecoveryNS res, lu_TotalCorrectness = rs_TotalCorrectness res,
     lu_Disqualified = rs_Disqualified res, lu_DisqualificationCode = rs_DisqualificationCode res,
     lu_UpdatedAtNS = now\<rparr>"

definition PublishUpdate_lu :: "'e option \<Rightarrow> ScoreWorld \<Rightarrow> LeaderboardUpdateEvent \<Rightarrow> 'e scErr option \<times> ScoreWorld" where
  "PublishUpdate_lu fault w ev =
     (if \<not> finiteF (lu_TotalCorrectness ev) then (Some (PublishUpdate None), w)
      else case fault of Some e \<Rightarrow> (Some (PublishUpdate (Some e)), w)
      | None \<Rightarrow> (None, w\<lparr>sw_updates := sw_updates w @ [ev]\<rparr>))"

definition loadAndCompute :: "SqlOps \<Rightarrow> 'e ScoreFaults \<Rightarrow> ScoreDB \<Rightarrow> string \<Rightarrow> 'e scErr + ScoreResult" where
  "loadAndCompute ops f db g =
     (case LoadInput ops f db g of Inl e \<Rightarrow> Inl e
      | Inr inp \<Rightarrow> case Compute inp of (res, None) \<Rightarrow> Inr res | (_, Some e) \<Rightarrow> Inl (ComputeErr e))"

definition rankAndMark :: "SqlOps \<Rightarrow> 'e ScoreFaults \<Rightarrow> ScoreDB \<Rightarrow> string \<Rightarrow> ('e scErr + i64) \<times> ScoreDB" where
  "rankAndMark ops f db g =
     (case RankForRunGroup ops (wf_rank f) db g of Inl e \<Rightarrow> (Inl e, db)
      | Inr rnk \<Rightarrow> case wf_mark f of Some e \<Rightarrow> (Inl (DbErr e), db)
        | None \<Rightarrow> (Inr rnk, MarkPublished db g rnk 0))"

definition score :: "SqlOps \<Rightarrow> 'e ScoreFaults \<Rightarrow> ScoreWorld \<Rightarrow> string \<Rightarrow> 'e scErr option \<times> ScoreWorld" where
  "score ops f w g =
     (case loadAndCompute ops f (sw_db w) g of Inl e \<Rightarrow> (Some e, w)
      | Inr res \<Rightarrow>
         case SaveScore (wf_save f) (sw_db w) res of (Inl e, db) \<Rightarrow> (Some e, w\<lparr>sw_db := db\<rparr>)
         | (Inr False, db) \<Rightarrow> (None, w\<lparr>sw_db := db\<rparr>)
         | (Inr True, db) \<Rightarrow>
            case rankAndMark ops f db g of (Inl e, db) \<Rightarrow> (Some e, w\<lparr>sw_db := db\<rparr>)
            | (Inr rnk, db) \<Rightarrow> PublishUpdate_lu (wf_write f) (w\<lparr>sw_db := db\<rparr>) (updateEvent res rnk 0 (wf_nowNS f)))"

section \<open>The consumers and the workers\<close>

text \<open>
  A message is \<open>None\<close> when it does not decode; then it is committed and dropped. The first
  component says whether the message is committed.
\<close>

definition enqueue :: "ScoreWorld \<Rightarrow> 'e scErr + string list \<Rightarrow> bool \<times> ScoreWorld" where
  "enqueue w ready = (case ready of Inl e \<Rightarrow> (False, w) | Inr gs \<Rightarrow> (True, w\<lparr>sw_queue := sw_queue w @ gs\<rparr>))"

definition RunStatus :: "'e RecFaults \<Rightarrow> ScoreWorld \<Rightarrow> BenchmarkStatusUpdated option \<Rightarrow> bool \<times> ScoreWorld" where
  "RunStatus f w msg = (case msg of None \<Rightarrow> (True, w)
     | Some ev \<Rightarrow> let (ready, db) = RecordStatus f (sw_db w) ev in enqueue (w\<lparr>sw_db := db\<rparr>) ready)"

definition RunCorrectness :: "'e RecFaults \<Rightarrow> ScoreWorld \<Rightarrow> CorrectnessScoreEvent option \<Rightarrow> bool \<times> ScoreWorld" where
  "RunCorrectness f w msg = (case msg of None \<Rightarrow> (True, w)
     | Some ev \<Rightarrow> let (ready, db) = RecordCorrectness f (sw_db w) ev in enqueue (w\<lparr>sw_db := db\<rparr>) ready)"

definition takeJob :: "SqlOps \<Rightarrow> 'e ScoreFaults \<Rightarrow> ScoreWorld \<Rightarrow> ScoreWorld" where
  "takeJob ops f w = (case sw_queue w of [] \<Rightarrow> w
     | g # q \<Rightarrow> let w' = w\<lparr>sw_queue := q\<rparr> in
        case loadAndCompute ops f (sw_db w) g of Inl e \<Rightarrow> w'
        | Inr res \<Rightarrow> w'\<lparr>sw_jobs := sw_jobs w @ [Computed res]\<rparr>)"

fun jobStep :: "SqlOps \<Rightarrow> 'e ScoreFaults \<Rightarrow> ScoreWorld \<Rightarrow> Job \<Rightarrow> ScoreWorld \<times> Job option" where
  "jobStep ops f w (Computed res) =
     (let (r, db) = SaveScore (wf_save f) (sw_db w) res in
      (w\<lparr>sw_db := db\<rparr>, if r = Inr True then Some (Inserted res) else None))"
| "jobStep ops f w (Inserted res) =
     (w, case RankForRunGroup ops (wf_rank f) (sw_db w) (rs_RunGroupID res) of Inl e \<Rightarrow> None | Inr rnk \<Rightarrow> Some (Ranked res rnk))"
| "jobStep ops f w (Ranked res rnk) =
     (case wf_mark f of Some e \<Rightarrow> (w, None)
      | None \<Rightarrow> (w\<lparr>sw_db := MarkPublished (sw_db w) (rs_RunGroupID res) rnk 0\<rparr>, Some (Marked res rnk)))"
| "jobStep ops f w (Marked res rnk) =
     (snd (PublishUpdate_lu (wf_write f) w (updateEvent res rnk 0 (wf_nowNS f))), None)"

definition replaceAt :: "nat \<Rightarrow> 'a option \<Rightarrow> 'a list \<Rightarrow> 'a list" where
  "replaceAt i x xs = take i xs @ (case x of None \<Rightarrow> [] | Some y \<Rightarrow> [y]) @ drop (Suc i) xs"

definition workOn :: "SqlOps \<Rightarrow> 'e ScoreFaults \<Rightarrow> nat \<Rightarrow> ScoreWorld \<Rightarrow> ScoreWorld" where
  "workOn ops f i w = (let (w', j) = jobStep ops f w (sw_jobs w ! i) in
     w'\<lparr>sw_jobs := replaceAt i j (sw_jobs w)\<rparr>)"

text \<open>A restart loses the queue and the jobs; the recovery scan queues what is still pending.\<close>

definition restart :: "'e option \<Rightarrow> ScoreWorld \<Rightarrow> ScoreWorld" where
  "restart fault w = w\<lparr>sw_jobs := [], sw_queue :=
     (case PendingRunGroups fault (sw_db w) of Inl e \<Rightarrow> [] | Inr gs \<Rightarrow> gs)\<rparr>"

text \<open>The other services write the other tables.\<close>

definition othersWrite :: "ScoreDB \<Rightarrow> ScoreWorld \<Rightarrow> ScoreWorld" where
  "othersWrite db w = w\<lparr>sw_db := db\<lparr>db_progress := db_progress (sw_db w), db_scores := db_scores (sw_db w)\<rparr>\<rparr>"

inductive sstep :: "SqlOps \<Rightarrow> ScoreWorld \<Rightarrow> ScoreWorld \<Rightarrow> bool" for ops where
  status: "sstep ops w (snd (RunStatus (f :: string RecFaults) w ev))"
| correctness: "sstep ops w (snd (RunCorrectness (f :: string RecFaults) w cev))"
| take_job: "sstep ops w (takeJob ops (sf :: string ScoreFaults) w)"
| work: "i < length (sw_jobs w) \<Longrightarrow> sstep ops w (workOn ops (sf :: string ScoreFaults) i w)"
| restart: "sstep ops w (restart (rf :: string option) w)"
| others: "sstep ops w (othersWrite db w)"

inductive_cases sstepE: "sstep ops w w'"

abbreviation ssteps :: "SqlOps \<Rightarrow> ScoreWorld \<Rightarrow> ScoreWorld \<Rightarrow> bool" where
  "ssteps ops \<equiv> (sstep ops)\<^sup>*\<^sup>*"

section \<open>What a step changes\<close>

lemma progress_only [simp]:
  "db_scores (snd (RecordStatus f db ev)) = db_scores db"
  "db_scores (snd (RecordCorrectness f db cev)) = db_scores db"
  by (simp_all add: RecordStatus_def RecordCorrectness_def Let_def split: option.split sum.split prod.split)

lemma enqueue_keeps [simp]:
  "sw_db (snd (enqueue w r)) = sw_db w" "sw_jobs (snd (enqueue w r)) = sw_jobs w" "sw_updates (snd (enqueue w r)) = sw_updates w"
  by (simp_all add: enqueue_def split: sum.split)

lemma consumer_keeps [simp]:
  "db_scores (sw_db (snd (RunStatus f w ev))) = db_scores (sw_db w)"
  "sw_jobs (snd (RunStatus f w ev)) = sw_jobs w" "sw_updates (snd (RunStatus f w ev)) = sw_updates w"
  "db_scores (sw_db (snd (RunCorrectness f w cev))) = db_scores (sw_db w)"
  "sw_jobs (snd (RunCorrectness f w cev)) = sw_jobs w" "sw_updates (snd (RunCorrectness f w cev)) = sw_updates w"
  by (simp_all add: RunStatus_def RunCorrectness_def case_prod_beta split: option.split)

lemma takeJob_keeps [simp]:
  "sw_db (takeJob ops f w) = sw_db w" "sw_updates (takeJob ops f w) = sw_updates w"
  "set (sw_jobs w) \<subseteq> set (sw_jobs (takeJob ops f w))"
  by (auto simp: takeJob_def Let_def split: list.split sum.split)

lemma takeJob_jobs:
  "sw_jobs (takeJob ops f w) = sw_jobs w \<or> (\<exists>res. sw_jobs (takeJob ops f w) = sw_jobs w @ [Computed res])"
  by (auto simp: takeJob_def Let_def split: list.split sum.split)

end
