(* ===== verification/ScoreWorker_Props.thy ===== *)
theory ScoreWorker_Props
  imports ScoreWorker ScoreReady
begin

text \<open>
  What the score-computer guarantees under every interleaving of its consumers, workers,
  restarts and of the other services: stored rows are faithful to the result they detail,
  a run-group is announced at most once, and the rank is the position in \<open>SortResults\<close>.
  And what it does not: an announcement that fails is lost for good, and the stored
  aggregation of the metrics turns the median gate into a maximum gate.
\<close>

section \<open>The rows of the score table\<close>

definition rowOk :: "ScoreRow \<Rightarrow> bool" where
  "rowOk s \<longleftrightarrow> (let r = sc_score_detail s in
     sc_run_group_id s = rs_RunGroupID r \<and> sc_disqualified s = rs_Disqualified r \<and>
     sc_total_correctness s = rs_TotalCorrectness r \<and> finiteF (rs_TotalCorrectness r) \<and>
     sc_peak_sustained_tps s = uint (rs_PeakSustainedTPS r) \<and> sc_p99_at_peak_ns s = uint (rs_P99AtPeakNS r) \<and>
     sc_spike_recovery_ns s = uint (rs_SpikeRecoveryNS r))"

definition scoresOk :: "ScoreRow list \<Rightarrow> bool" where
  "scoresOk ss \<longleftrightarrow> distinct (map sc_run_group_id ss) \<and> list_all rowOk ss"

lemma uint64ToInt64_uint: "uint64ToInt64 v = Inr x \<Longrightarrow> x = uint v"
proof -
  assume a: "uint64ToInt64 v = Inr x"
  have "drop_bit 1 (- 1 :: u64) = 9223372036854775807" by code_simp
  then have "v \<le> 9223372036854775807" "x = sint v"
    using a by (auto simp: uint64ToInt64_def int64_def not_less split: if_splits)
  then have "uint v < 2 ^ 63" by (simp add: word_le_def)
  moreover have "- (2 ^ 63) \<le> uint v" by (rule order_trans [OF _ uint_ge_0]) simp
  ultimately have "signed_take_bit 63 (uint v) = uint v" by (intro signed_take_bit_int_eq_self)
  then show ?thesis using \<open>x = sint v\<close> by (simp add: sint_uint)
qed

lemma SaveScore_cases:
  "SaveScore f db res = (r, db') \<Longrightarrow>
     (db' = db \<and> r \<noteq> Inr True) \<or>
     (r = Inr True \<and> rs_RunGroupID res \<notin> sc_run_group_id ` set (db_scores db) \<and>
      (\<exists>s. db' = db\<lparr>db_scores := db_scores db @ [s]\<rparr> \<and> rowOk s \<and> sc_score_detail s = res))"
  by (auto simp: SaveScore_def scoreRow_def rowOk_def marshalsResult_def list_ex_iff image_iff
      split: sum.splits option.splits if_splits dest!: uint64ToInt64_uint)

lemma MarkPublished_rows:
  "map sc_score_detail (db_scores (MarkPublished db g r d)) = map sc_score_detail (db_scores db)"
  "map sc_run_group_id (db_scores (MarkPublished db g r d)) = map sc_run_group_id (db_scores db)"
  "list_all rowOk (db_scores (MarkPublished db g r d)) \<longleftrightarrow> list_all rowOk (db_scores db)"
proof -
  have "rowOk (s\<lparr>sc_rank := a, sc_rank_delta := b, sc_published := c\<rparr>) = rowOk s" for s a b c by (simp add: rowOk_def)
  then have "list_all rowOk (map (\<lambda>s. if sc_run_group_id s = g
      then s\<lparr>sc_rank := Some r, sc_rank_delta := Some d, sc_published := True\<rparr> else s) ss) = list_all rowOk ss" for ss
    by (induction ss) simp_all
  then show "list_all rowOk (db_scores (MarkPublished db g r d)) \<longleftrightarrow> list_all rowOk (db_scores db)"
    by (simp add: MarkPublished_def)
qed (simp_all add: MarkPublished_def)

lemma rankAndMark_rows:
  assumes "rankAndMark ops f db g = (r, db')"
  shows "map sc_score_detail (db_scores db') = map sc_score_detail (db_scores db)"
    and "map sc_run_group_id (db_scores db') = map sc_run_group_id (db_scores db)"
    and "list_all rowOk (db_scores db') \<longleftrightarrow> list_all rowOk (db_scores db)"
  using assms by (auto simp: rankAndMark_def MarkPublished_rows split: sum.splits option.splits)

section \<open>Announced at most once\<close>

lemma distinct_move:
  assumes "distinct (ps @ xs @ y # zs)"
  shows "distinct (ps @ xs @ zs)" "distinct (ps @ [y] @ xs @ zs)"
  using assms by auto

fun busyJob :: "Job \<Rightarrow> ScoreResult list" where
  "busyJob (Computed res) = []"
| "busyJob (Inserted res) = [res]"
| "busyJob (Ranked res rnk) = [res]"
| "busyJob (Marked res rnk) = [res]"

definition busy :: "Job list \<Rightarrow> ScoreResult list" where
  "busy js = concat (map busyJob js)"

definition published :: "ScoreWorld \<Rightarrow> string list" where
  "published w = map lu_RunGroupID (sw_updates w)"

definition details :: "ScoreWorld \<Rightarrow> ScoreResult set" where
  "details w = sc_score_detail ` set (db_scores (sw_db w))"

definition announces :: "ScoreWorld \<Rightarrow> LeaderboardUpdateEvent \<Rightarrow> bool" where
  "announces w u \<longleftrightarrow> (\<exists>res\<in>details w. \<exists>rnk now. u = updateEvent res rnk 0 now)"

definition scoreInv :: "ScoreWorld \<Rightarrow> bool" where
  "scoreInv w \<longleftrightarrow> scoresOk (db_scores (sw_db w)) \<and>
     distinct (published w @ map rs_RunGroupID (busy (sw_jobs w))) \<and>
     set (busy (sw_jobs w)) \<subseteq> details w \<and> list_all (announces w) (sw_updates w)"

lemma scoreInv_same:
  assumes "scoreInv w" "db_scores (sw_db w') = db_scores (sw_db w)" "sw_updates w' = sw_updates w"
    and "busy (sw_jobs w') = busy (sw_jobs w)"
  shows "scoreInv w'"
  using assms by (simp add: scoreInv_def published_def details_def announces_def [abs_def])

lemma busy_append [simp]: "busy (xs @ ys) = busy xs @ busy ys"
  by (simp add: busy_def)

lemma busy_Cons [simp]: "busy [] = []" "busy (j # js) = busyJob j @ busy js"
  by (simp_all add: busy_def)

lemma takeJob_busy [simp]: "busy (sw_jobs (takeJob ops f w)) = busy (sw_jobs w)"
  using takeJob_jobs [of ops f w] by (auto simp: busy_def)

lemma restart_inv: "scoreInv w \<Longrightarrow> scoreInv (restart f w)"
  by (simp add: scoreInv_def restart_def published_def details_def announces_def [abs_def] busy_def)

lemma published_detail: "scoreInv w \<Longrightarrow> g \<in> set (published w) \<Longrightarrow> g \<in> rs_RunGroupID ` details w"
  by (auto simp: scoreInv_def published_def list_all_iff announces_def updateEvent_def)

lemma details_ids: "scoreInv w \<Longrightarrow> rs_RunGroupID ` details w = sc_run_group_id ` set (db_scores (sw_db w))"
  by (auto simp: scoreInv_def scoresOk_def list_all_iff details_def rowOk_def Let_def image_iff)

lemma save_inv:
  assumes inv: "scoreInv w" and js: "sw_jobs w = as @ Computed res # bs"
    and save: "SaveScore f (sw_db w) res = (r, db)"
  shows "scoreInv (w\<lparr>sw_db := db, sw_jobs := as @ (if r = Inr True then [Inserted res] else []) @ bs\<rparr>)"
  using SaveScore_cases [OF save]
proof
  assume "db = sw_db w \<and> r \<noteq> Inr True"
  then show ?thesis using inv js by (intro scoreInv_same [OF inv]) (simp_all add: busy_def)
next
  assume r: "r = Inr True \<and> rs_RunGroupID res \<notin> sc_run_group_id ` set (db_scores (sw_db w)) \<and>
      (\<exists>s. db = (sw_db w)\<lparr>db_scores := db_scores (sw_db w) @ [s]\<rparr> \<and> rowOk s \<and> sc_score_detail s = res)"
  then obtain s where s: "db = (sw_db w)\<lparr>db_scores := db_scores (sw_db w) @ [s]\<rparr>" "rowOk s" "sc_score_detail s = res" by blast
  define w' where "w' = w\<lparr>sw_db := db, sw_jobs := as @ [Inserted res] @ bs\<rparr>"
  have new: "rs_RunGroupID res \<notin> rs_RunGroupID ` details w" using r details_ids [OF inv] by simp
  have d: "details w' = insert res (details w)" using s by (simp add: details_def w'_def)
  have "rs_RunGroupID res \<notin> set (published w)" using published_detail [OF inv] new by blast
  moreover have "rs_RunGroupID res \<notin> rs_RunGroupID ` set (busy (sw_jobs w))" using inv new by (auto simp: scoreInv_def)
  ultimately have "rs_RunGroupID res \<notin> set (published w @ map rs_RunGroupID (busy as) @ map rs_RunGroupID (busy bs))"
    using js by (simp add: image_Un)
  moreover have "distinct (published w @ map rs_RunGroupID (busy as) @ map rs_RunGroupID (busy bs))"
    using inv js by (simp add: scoreInv_def)
  ultimately have "distinct (published w' @ map rs_RunGroupID (busy (sw_jobs w')))"
    by (auto simp: published_def w'_def)
  moreover have "scoresOk (db_scores (sw_db w'))" using inv s r by (auto simp: scoreInv_def scoresOk_def w'_def rowOk_def Let_def)
  moreover have "set (busy (sw_jobs w')) \<subseteq> details w'" using inv js d by (auto simp: scoreInv_def w'_def busy_def)
  moreover have "list_all (announces w') (sw_updates w')"
    using inv d by (auto simp: scoreInv_def w'_def list_all_iff announces_def)
  ultimately show ?thesis using r by (simp add: scoreInv_def w'_def)
qed

lemma mark_inv:
  assumes inv: "scoreInv w" and js: "sw_jobs w = as @ job # bs" "busyJob job = [res]"
    and mark: "db = sw_db w \<or> db = MarkPublished (sw_db w) g rnk d" and j: "busy j = [] \<or> busy j = [res]"
  shows "scoreInv (w\<lparr>sw_db := db, sw_jobs := as @ j @ bs\<rparr>)"
proof -
  let ?w = "w\<lparr>sw_db := db, sw_jobs := as @ j @ bs\<rparr>"
  have rows: "map sc_score_detail (db_scores db) = map sc_score_detail (db_scores (sw_db w))"
      "map sc_run_group_id (db_scores db) = map sc_run_group_id (db_scores (sw_db w))"
      "list_all rowOk (db_scores db) \<longleftrightarrow> list_all rowOk (db_scores (sw_db w))"
    using mark MarkPublished_rows by auto
  have d: "details ?w = details w" using arg_cong [OF rows(1), of set] by (simp add: details_def image_set [symmetric])
  then have a: "announces ?w = announces w" by (simp add: announces_def [abs_def])
  have "scoresOk (db_scores (sw_db ?w))" using inv rows by (simp add: scoreInv_def scoresOk_def)
  moreover have b: "busy (sw_jobs w) = busy as @ res # busy bs" using js by simp
  have dis: "distinct (published w @ map rs_RunGroupID (busy as) @ rs_RunGroupID res # map rs_RunGroupID (busy bs))"
    using inv b by (simp add: scoreInv_def)
  have p: "published ?w = published w" by (simp add: published_def)
  have "distinct (published ?w @ map rs_RunGroupID (busy (sw_jobs ?w)))"
    unfolding p using j dis distinct_move(1) [OF dis] by (elim disjE) simp_all
  moreover have "set (busy (sw_jobs ?w)) \<subseteq> set (busy (sw_jobs w))" using j b by auto
  ultimately show ?thesis using inv d a unfolding scoreInv_def by (auto simp: published_def)
qed

lemma publish_inv:
  assumes inv: "scoreInv w" and js: "sw_jobs w = as @ Marked res rnk # bs"
  shows "scoreInv ((snd (PublishUpdate_lu f w (updateEvent res rnk 0 now)))\<lparr>sw_jobs := as @ bs\<rparr>)" (is "scoreInv ?w")
proof -
  have d: "details ?w = details w" by (simp add: PublishUpdate_lu_def details_def split: option.split)
  then have a: "announces ?w = announces w" by (simp add: announces_def [abs_def])
  have n: "announces w (updateEvent res rnk 0 now)" using inv js by (auto simp: scoreInv_def announces_def busy_def)
  have "scoresOk (db_scores (sw_db ?w))" using inv by (simp add: scoreInv_def PublishUpdate_lu_def split: option.split)
  moreover have dis: "distinct (published w @ map rs_RunGroupID (busy as) @ rs_RunGroupID res # map rs_RunGroupID (busy bs))"
    using inv js by (simp add: scoreInv_def)
  have "published ?w = published w \<or> published ?w = published w @ [rs_RunGroupID res]"
    by (simp add: published_def PublishUpdate_lu_def updateEvent_def split: option.split)
  then have "distinct (published ?w @ map rs_RunGroupID (busy (sw_jobs ?w)))"
    using distinct_move [OF dis] by (elim disjE) simp_all
  moreover have "set (busy (sw_jobs ?w)) \<subseteq> details ?w" using inv js d by (auto simp: scoreInv_def busy_def)
  moreover have "list_all (announces w) (sw_updates ?w)" using inv n by (simp add: scoreInv_def PublishUpdate_lu_def split: option.split)
  ultimately show ?thesis using a by (simp add: scoreInv_def)
qed

lemma workOn_inv:
  assumes inv: "scoreInv w" and i: "i < length (sw_jobs w)"
  shows "scoreInv (workOn ops f i w)"
proof -
  define as where "as = take i (sw_jobs w)"
  define bs where "bs = drop (Suc i) (sw_jobs w)"
  have js: "sw_jobs w = as @ sw_jobs w ! i # bs" using i by (simp add: as_def bs_def id_take_nth_drop)
  show ?thesis
  proof (cases "sw_jobs w ! i")
    case (Computed res)
    obtain r db where s: "SaveScore (wf_save f) (sw_db w) res = (r, db)" by fastforce
    from save_inv [OF inv js [unfolded Computed] s] show ?thesis
      by (auto simp: workOn_def Computed s replaceAt_def as_def bs_def cong: if_cong split: if_splits)
  next
    case (Inserted res)
    have "scoreInv (w\<lparr>sw_db := sw_db w, sw_jobs := as @ j @ bs\<rparr>)" if "busy j = [] \<or> busy j = [res]" for j
      by (rule mark_inv [OF inv js _ disjI1 that]) (simp_all add: Inserted)
    from this [of "[]"] this [of "[Ranked res _]"] show ?thesis
      by (cases "RankForRunGroup ops (wf_rank f) (sw_db w) (rs_RunGroupID res)")
         (simp_all add: workOn_def Inserted replaceAt_def as_def bs_def)
  next
    case (Ranked res rnk)
    have "scoreInv (w\<lparr>sw_db := db, sw_jobs := as @ j @ bs\<rparr>)"
      if "busy j = [] \<or> busy j = [res]" "db = sw_db w \<or> db = MarkPublished (sw_db w) (rs_RunGroupID res) rnk 0" for j db
      by (rule mark_inv [OF inv js _ that(2,1)]) (simp add: Ranked)
    from this [of "[]" "sw_db w"] this [of "[Marked res rnk]" "MarkPublished (sw_db w) (rs_RunGroupID res) rnk 0"] show ?thesis
      by (cases "wf_mark f") (simp_all add: workOn_def Ranked replaceAt_def as_def bs_def)
  next
    case (Marked res rnk)
    from publish_inv [OF inv js [unfolded Marked]] show ?thesis
      by (simp add: workOn_def Marked replaceAt_def as_def bs_def)
  qed
qed

lemma sstep_inv: "sstep ops w w' \<Longrightarrow> scoreInv w \<Longrightarrow> scoreInv w'"
  by (erule sstepE) (auto intro: scoreInv_same workOn_inv restart_inv simp: othersWrite_def)

lemma ssteps_inv: "ssteps ops w w' \<Longrightarrow> scoreInv w \<Longrightarrow> scoreInv w'"
  by (induction rule: rtranclp_induct) (auto intro: sstep_inv)

section \<open>An announcement that fails\<close>

definition settled :: "string \<Rightarrow> ScoreWorld \<Rightarrow> bool" where
  "settled g w \<longleftrightarrow> g \<in> sc_run_group_id ` set (db_scores (sw_db w)) \<and>
     g \<notin> rs_RunGroupID ` set (busy (sw_jobs w)) \<and> g \<notin> set (published w)"

lemma settled_same:
  assumes "settled g w" "db_scores (sw_db w') = db_scores (sw_db w)" "sw_updates w' = sw_updates w"
    and "set (busy (sw_jobs w')) \<subseteq> set (busy (sw_jobs w))"
  shows "settled g w'"
  using assms by (auto simp: settled_def published_def)

lemma rows_ids: "map sc_run_group_id xs = map sc_run_group_id ys \<Longrightarrow> sc_run_group_id ` set xs = sc_run_group_id ` set ys"
  by (metis image_set)

lemma workOn_settled:
  assumes st: "settled g w" and i: "i < length (sw_jobs w)"
  shows "settled g (workOn ops f i w)"
proof -
  define as where "as = take i (sw_jobs w)"
  define bs where "bs = drop (Suc i) (sw_jobs w)"
  have js: "sw_jobs w = as @ sw_jobs w ! i # bs" using i by (simp add: as_def bs_def id_take_nth_drop)
  then have b: "busy (sw_jobs w) = busy as @ busyJob (sw_jobs w ! i) @ busy bs" by (metis busy_append busy_Cons(2))
  show ?thesis
  proof (cases "sw_jobs w ! i")
    case (Computed res)
    obtain r db where s: "SaveScore (wf_save f) (sw_db w) res = (r, db)" by fastforce
    have w': "workOn ops f i w = w\<lparr>sw_db := db, sw_jobs := as @ (if r = Inr True then [Inserted res] else []) @ bs\<rparr>"
      by (simp add: workOn_def Computed s replaceAt_def as_def bs_def)
    from SaveScore_cases [OF s] show ?thesis
    proof
      assume "db = sw_db w \<and> r \<noteq> Inr True"
      then show ?thesis unfolding w' using st b by (simp add: settled_def published_def Computed)
    next
      assume a: "r = Inr True \<and> rs_RunGroupID res \<notin> sc_run_group_id ` set (db_scores (sw_db w)) \<and>
        (\<exists>s. db = (sw_db w)\<lparr>db_scores := db_scores (sw_db w) @ [s]\<rparr> \<and> rowOk s \<and> sc_score_detail s = res)"
      then have "g \<noteq> rs_RunGroupID res" using st unfolding settled_def by metis
      then show ?thesis unfolding w' using a st b by (auto simp: settled_def published_def Computed)
    qed
  next
    case (Inserted res)
    then show ?thesis using st b
      by (cases "RankForRunGroup ops (wf_rank f) (sw_db w) (rs_RunGroupID res)")
         (simp_all add: workOn_def replaceAt_def settled_def published_def as_def bs_def)
  next
    case (Ranked res rnk)
    then show ?thesis using st b rows_ids [OF MarkPublished_rows(2)]
      by (cases "wf_mark f") (simp_all add: workOn_def replaceAt_def settled_def published_def as_def bs_def)
  next
    case (Marked res rnk)
    have w': "workOn ops f i w = (snd (PublishUpdate_lu (wf_write f) w (updateEvent res rnk 0 (wf_nowNS f))))\<lparr>sw_jobs := as @ bs\<rparr>"
      by (simp add: workOn_def Marked replaceAt_def as_def bs_def)
    show ?thesis using st b unfolding w'
      by (auto simp: settled_def published_def Marked PublishUpdate_lu_def updateEvent_def split: option.splits)
  qed
qed

lemma restart_settled: "settled g w \<Longrightarrow> settled g (restart f w)"
  by (simp add: settled_def restart_def published_def)

lemma sstep_settled: "sstep ops w w' \<Longrightarrow> settled g w \<Longrightarrow> settled g w'"
  by (erule sstepE) (auto intro: settled_same workOn_settled restart_settled simp: othersWrite_def)

lemma ssteps_settled: "ssteps ops w w' \<Longrightarrow> settled g w \<Longrightarrow> settled g w'"
  by (induction rule: rtranclp_induct) (auto intro: sstep_settled)

lemma loadSessions_id: "loadSessions ops f db inp rows = Inr inp' \<Longrightarrow> in_RunGroupID inp' = in_RunGroupID inp"
  by (induction ops f db inp rows rule: loadSessions.induct)
     (auto simp: Let_def split: option.splits prod.splits if_splits)

lemma Compute_id: "rs_RunGroupID (fst (Compute inp)) = in_RunGroupID inp"
  by (simp add: Compute_eq Let_def)

lemma loadAndCompute_id: "loadAndCompute ops f db g = Inr res \<Longrightarrow> rs_RunGroupID res = g"
  by (auto simp: loadAndCompute_def LoadInput_def split: sum.splits option.splits prod.splits dest!: loadSessions_id)
     (metis Compute_id fst_conv)

lemma MarkPublished_flag:
  "s \<in> set (db_scores db) \<Longrightarrow> sc_run_group_id s = g \<Longrightarrow>
   \<exists>s'\<in>set (db_scores (MarkPublished db g r d)). sc_run_group_id s' = g \<and> sc_published s'"
  by (auto simp: MarkPublished_def intro!: bexI [of _ "s\<lparr>sc_rank := Some r, sc_rank_delta := Some d, sc_published := True\<rparr>"])

lemma loadSessions_err: "loadSessions ops f db inp rows \<noteq> Inl (PublishUpdate x)"
  by (induction ops f db inp rows rule: loadSessions.induct)
     (auto simp: Let_def split: option.splits prod.splits if_splits)

lemma loadAndCompute_err [simp]: "loadAndCompute ops f db g \<noteq> Inl (PublishUpdate x)"
  by (auto simp: loadAndCompute_def LoadInput_def Config_def loadSessions_err split: sum.splits option.splits prod.splits)

lemma SaveScore_err [simp]: "SaveScore f db res \<noteq> (Inl (PublishUpdate x), db')"
  by (auto simp: SaveScore_def uint64ToInt64_def split: sum.splits option.splits if_splits)

lemma rankAndMark_err [simp]: "rankAndMark ops f db g \<noteq> (Inl (PublishUpdate x), db')"
  by (auto simp: rankAndMark_def RankForRunGroup_def split: sum.splits option.splits)

lemma score_publish_failed:
  assumes inv: "scoreInv w" and run: "score ops f w g = (Some (PublishUpdate e), w1)"
  shows "settled g w1" and "\<exists>s\<in>set (db_scores (sw_db w1)). sc_run_group_id s = g \<and> sc_published s"
proof -
  obtain res where res: "loadAndCompute ops f (sw_db w) g = Inr res"
    using run by (cases "loadAndCompute ops f (sw_db w) g") (auto simp: score_def)
  note g = loadAndCompute_id [OF res]
  obtain r db where s: "SaveScore (wf_save f) (sw_db w) res = (r, db)" by fastforce
  have r: "r = Inr True" using run res s by (auto simp: score_def split: sum.splits bool.splits)
  then obtain row where row: "g \<notin> sc_run_group_id ` set (db_scores (sw_db w))"
      "db = (sw_db w)\<lparr>db_scores := db_scores (sw_db w) @ [row]\<rparr>" "rowOk row" "sc_score_detail row = res"
    using SaveScore_cases [OF s] g by auto
  obtain q db2 where m: "rankAndMark ops f db g = (q, db2)" by fastforce
  obtain rnk where q: "q = Inr rnk" using run res s r m by (cases q) (auto simp: score_def)
  have db2: "db2 = MarkPublished db g rnk 0" using m q by (auto simp: rankAndMark_def split: sum.splits option.splits)
  have w1: "sw_db w1 = db2" "sw_jobs w1 = sw_jobs w" "sw_updates w1 = sw_updates w"
    using run res s r m q by (auto simp: score_def PublishUpdate_lu_def split: if_splits option.splits)
  have id: "sc_run_group_id row = g" using row(3,4) g by (simp add: rowOk_def Let_def)
  have "g \<notin> rs_RunGroupID ` details w" using row(1) details_ids [OF inv] by simp
  then have "g \<notin> set (published w)" "g \<notin> rs_RunGroupID ` set (busy (sw_jobs w))"
    using published_detail [OF inv] inv unfolding scoreInv_def by blast+
  moreover have "sc_run_group_id ` set (db_scores db2) = sc_run_group_id ` set (db_scores db)"
    by (rule rows_ids) (rule rankAndMark_rows(2) [OF m])
  ultimately show "settled g w1" using w1 row(2) id by (simp add: settled_def published_def)
  show "\<exists>s\<in>set (db_scores (sw_db w1)). sc_run_group_id s = g \<and> sc_published s"
    unfolding w1 db2 using row(2) id by (intro MarkPublished_flag) simp_all
qed

section \<open>Rank\<close>

lemma insertBack_map:
  "\<forall>y\<in>set ys. lt' (f x) (f y) = lt x y \<Longrightarrow> insertBack lt' (f x) (map f ys) = map f (insertBack lt x ys)"
  by (induction ys) auto

lemma sort_stable_map:
  assumes "\<forall>x\<in>set xs. \<forall>y\<in>set xs. lt' (f x) (f y) = lt x y"
  shows "sort_stable lt' (map f xs) = map f (sort_stable lt xs)"
proof -
  have "fold (insertBack lt') (map f ys) (map f acc) = map f (fold (insertBack lt) ys acc)"
    if "set ys \<union> set acc \<subseteq> set xs" for ys acc
    using that
  proof (induction ys arbitrary: acc)
    case (Cons y ys)
    have "insertBack lt' (f y) (map f acc) = map f (insertBack lt y acc)"
      using Cons.prems assms by (intro insertBack_map) auto
    then show ?case using Cons.IH [of "insertBack lt y acc"] Cons.prems by simp
  qed simp
  from this [of xs "[]"] show ?thesis by (simp add: sort_stable_def rev_map)
qed

lemma indexOf_map: "indexOf P (map f xs) = indexOf (\<lambda>x. P (f x)) xs"
  by (induction xs) simp_all

lemma indexOf_cong: "(\<And>x. x \<in> set xs \<Longrightarrow> P x = Q x) \<Longrightarrow> indexOf P xs = indexOf Q xs"
  by (induction xs) auto

lemma rankLess_detail:
  assumes "rowOk a" "rowOk b"
  shows "rankLess (<) a b = resultLess (sc_score_detail a) (sc_score_detail b)"
proof -
  obtain x y where xy: "rs_TotalCorrectness (sc_score_detail a) = Fin x" "rs_TotalCorrectness (sc_score_detail b) = Fin y"
    using assms by (auto simp: rowOk_def Let_def elim!: finiteF.elims)
  show ?thesis using assms xy
    by (simp add: rowOk_def rankLess_def resultLess_def Let_def fne_def pgLess_def word_less_def word_uint_eq_iff)
qed

lemma rank_position:
  assumes "scoresOk (db_scores db)" "sql_coll ops = (<)"
  shows "RankForRunGroup ops None db g =
    (case indexOf (\<lambda>r. rs_RunGroupID r = g) (SortResults (map sc_score_detail (db_scores db))) of
       None \<Rightarrow> Inl NoRows | Some i \<Rightarrow> Inr (int i + 1))"
proof -
  have ok: "rowOk s" if "s \<in> set (db_scores db)" for s using assms(1) that by (auto simp: scoresOk_def list_all_iff)
  have "SortResults (map sc_score_detail (db_scores db)) = map sc_score_detail (sort_stable (rankLess (<)) (db_scores db))"
    unfolding SortResults_def by (rule sort_stable_map) (simp add: ok rankLess_detail)
  then have "indexOf (\<lambda>r. rs_RunGroupID r = g) (SortResults (map sc_score_detail (db_scores db))) =
      indexOf (\<lambda>s. rs_RunGroupID (sc_score_detail s) = g) (sort_stable (rankLess (<)) (db_scores db))"
    by (simp add: indexOf_map)
  also have "\<dots> = indexOf (\<lambda>s. sc_run_group_id s = g) (sort_stable (rankLess (<)) (db_scores db))"
    by (rule indexOf_cong) (use ok in \<open>auto simp: rowOk_def Let_def\<close>)
  finally show ?thesis using assms(2) by (simp add: RankForRunGroup_def)
qed

section \<open>A small run\<close>

definition freshScorer :: "ScoreWorld \<Rightarrow> bool" where
  "freshScorer w \<longleftrightarrow> scoresOk (db_scores (sw_db w)) \<and> sw_jobs w = [] \<and> sw_updates w = []"

lemma freshScorer_inv: "freshScorer w \<Longrightarrow> scoreInv w"
  by (simp add: freshScorer_def scoreInv_def published_def)

definition demoOps :: SqlOps where
  "demoOps = \<lparr>sql_avg = (\<lambda>_. None), sql_coll = (<)\<rparr>"

definition demoFaults :: "string option \<Rightarrow> string ScoreFaults" where
  "demoFaults wr = \<lparr>wf_config = None, wf_group = None, wf_rows = None, wf_metrics = None, wf_save = None, wf_rank = None,
     wf_mark = None, wf_write = wr, wf_nowNS = 7\<rparr>"

definition demoScorer :: ScoreWorld where
  "demoScorer = \<lparr>sw_db = demoDb, sw_queue = [''g''], sw_jobs = [], sw_updates = []\<rparr>"

definition demoScored :: ScoreWorld where
  "demoScored = workOn demoOps (demoFaults None) 0 (workOn demoOps (demoFaults None) 0
     (workOn demoOps (demoFaults None) 0 (workOn demoOps (demoFaults None) 0 (takeJob demoOps (demoFaults None) demoScorer))))"

lemma demoScorer_fresh: "freshScorer demoScorer"
  by (simp add: freshScorer_def demoScorer_def demoDb_def scoresOk_def)

lemma demo_jobs:
  "0 < length (sw_jobs (takeJob demoOps (demoFaults None) demoScorer))"
  "0 < length (sw_jobs (workOn demoOps (demoFaults None) 0 (takeJob demoOps (demoFaults None) demoScorer)))"
  "0 < length (sw_jobs (workOn demoOps (demoFaults None) 0 (workOn demoOps (demoFaults None) 0
     (takeJob demoOps (demoFaults None) demoScorer))))"
  "0 < length (sw_jobs (workOn demoOps (demoFaults None) 0 (workOn demoOps (demoFaults None) 0 (workOn demoOps (demoFaults None) 0
     (takeJob demoOps (demoFaults None) demoScorer)))))"
  by code_simp+

lemma ssteps_snoc:
  "ssteps ops w0 w \<Longrightarrow> i < length (sw_jobs w) \<Longrightarrow> ssteps ops w0 (workOn ops (sf :: string ScoreFaults) i w)"
  "ssteps ops w0 w \<Longrightarrow> ssteps ops w0 (takeJob ops (sf :: string ScoreFaults) w)"
  by (auto intro: rtranclp.rtrancl_into_rtrancl sstep.intros)

lemma demo_run: "ssteps demoOps demoScorer demoScored"
  unfolding demoScored_def by (intro ssteps_snoc demo_jobs rtranclp.rtrancl_refl)

lemma demo_published: "published demoScored = [''g'']" "sc_run_group_id ` set (db_scores (sw_db demoScored)) = {''g''}"
  by code_simp+

section \<open>Properties\<close>

text \<open>
  C24. Under every interleaving of the consumers, the workers, restarts and the other
  services, a run-group is announced on the leaderboard topic at most once, every
  announcement carries the figures of the score stored for it, and stored rows have
  distinct run-groups and columns that agree with their detail.
\<close>

theorem announced_at_most_once:
  assumes "freshScorer w0" and "ssteps ops w0 w"
  shows "distinct (published w) \<and> list_all (announces w) (sw_updates w) \<and> scoresOk (db_scores (sw_db w))"
  using ssteps_inv [OF assms(2) freshScorer_inv [OF assms(1)]] by (simp add: scoreInv_def)

theorem announced_at_most_once_witness:
  "published demoScored = [''g''] \<and> list_all (announces demoScored) (sw_updates demoScored)"
  using announced_at_most_once [OF demoScorer_fresh demo_run] demo_published by simp

text \<open>
  C28. A failed announcement is never made up for. When a worker has stored the score of a
  run-group and publishing its update fails, the row is marked as published, and whatever
  happens later, restarts included, no update for that run-group is ever published.
\<close>

theorem lost_announcement:
  assumes "freshScorer w0" and "ssteps ops w0 w"
    and "score ops f w g = (Some (PublishUpdate e), w1)" and "ssteps ops w1 w2"
  shows "g \<notin> set (published w2) \<and> (\<exists>s\<in>set (db_scores (sw_db w1)). sc_run_group_id s = g \<and> sc_published s)"
proof -
  have inv: "scoreInv w" using ssteps_inv [OF assms(2) freshScorer_inv [OF assms(1)]] .
  show ?thesis using score_publish_failed [OF inv assms(3)] ssteps_settled [OF assms(4)] by (auto simp: settled_def)
qed

theorem lost_announcement_witness:
  "\<exists>w1. score demoOps (demoFaults (Some ''down'')) demoScorer ''g'' = (Some (PublishUpdate (Some ''down'')), w1) \<and>
     ''g'' \<notin> set (published (restart (None :: string option) w1))"
proof -
  let ?r = "score demoOps (demoFaults (Some ''down'')) demoScorer ''g''"
  have "fst ?r = Some (PublishUpdate (Some ''down''))" by code_simp
  then have r: "?r = (Some (PublishUpdate (Some ''down'')), snd ?r)" by (simp add: prod_eq_iff)
  have "ssteps demoOps (snd ?r) (restart (None :: string option) (snd ?r))" by (rule r_into_rtranclp) (rule sstep.restart)
  from lost_announcement [OF demoScorer_fresh rtranclp.rtrancl_refl r this] r show ?thesis by blast
qed

text \<open>
  C25. The rank the store computes is the position in \<open>SortResults\<close> of the stored results:
  the order of the query and the order of the Go comparison agree on every table the service
  can reach, given a collation that compares run-group ids by bytes.
\<close>

theorem rank_is_position:
  assumes "freshScorer w0" and "ssteps ops w0 w" and "sql_coll ops = (<)"
  shows "RankForRunGroup ops None (sw_db w) g =
    (case indexOf (\<lambda>r. rs_RunGroupID r = g) (SortResults (map sc_score_detail (db_scores (sw_db w)))) of
       None \<Rightarrow> Inl NoRows | Some i \<Rightarrow> Inr (int i + 1))"
  using ssteps_inv [OF assms(2) freshScorer_inv [OF assms(1)]] assms(3) by (intro rank_position) (simp_all add: scoreInv_def)

theorem rank_is_position_witness:
  "RankForRunGroup demoOps (None :: string option) (sw_db demoScored) ''g'' = Inr 1"
proof -
  have i: "indexOf (\<lambda>r. rs_RunGroupID r = ''g'') (SortResults (map sc_score_detail (db_scores (sw_db demoScored)))) = Some 0"
    by code_simp
  show ?thesis using rank_is_position [OF demoScorer_fresh demo_run, of "''g''"] unfolding i by (simp add: demoOps_def)
qed

end
