(* ===== verification/Lease.thy ===== *)
theory Lease
  imports Prelude
begin

text \<open>
  The lease allocator of the bot-fleet-controller, \<open>lease.go\<close>. Every section of the code
  that holds the mutex is one operation on the allocator's state. The order in which Go
  ranges over the map of free partitions is arbitrary: it is the argument \<open>iter\<close> of each
  operation, a function that lists a set, and a step of the system may use any such
  function. A waiter is identified by the number of its \<open>Acquire\<close> call, which stands for
  its pointer; the buffered channel of a waiter is the map \<open>la_grants\<close>.
\<close>

section \<open>The allocator\<close>

record leaseWaiter =
  lw_id :: nat
  lw_sessionID :: string
  lw_count :: nat

record LeaseAllocator =
  la_total :: nat
  la_free :: "nat set"
  la_leasedBy :: "string \<rightharpoonup> nat list"
  la_queue :: "leaseWaiter list"
  la_grants :: "nat \<rightharpoonup> nat list"

datatype leaseErr =
    CountNotPositive int
  | ExceedsTotal int nat
  | AlreadyLeased string
  | CtxDone

definition newLeaseAllocator :: "nat \<Rightarrow> LeaseAllocator" where
  "newLeaseAllocator n = \<lparr>la_total = n, la_free = {0..<n}, la_leasedBy = Map.empty, la_queue = [], la_grants = Map.empty\<rparr>"

definition takeLocked :: "(nat set \<Rightarrow> nat list) \<Rightarrow> string \<Rightarrow> nat \<Rightarrow> LeaseAllocator \<Rightarrow> nat list \<times> LeaseAllocator" where
  "takeLocked iter s n a =
     (let parts = sort (take n (iter (la_free a))) in
      (parts, a\<lparr>la_free := la_free a - set parts, la_leasedBy := (la_leasedBy a)(s \<mapsto> parts)\<rparr>))"

text \<open>The loop of \<open>serveQueueLocked\<close>, on the queue it goes through.\<close>

fun serveLoop :: "(nat set \<Rightarrow> nat list) \<Rightarrow> leaseWaiter list \<Rightarrow> LeaseAllocator \<Rightarrow> LeaseAllocator" where
  "serveLoop iter [] a = a\<lparr>la_queue := []\<rparr>"
| "serveLoop iter (w # q) a =
     (if card (la_free a) < lw_count w then a\<lparr>la_queue := w # q\<rparr>
      else let (parts, a') = takeLocked iter (lw_sessionID w) (lw_count w) a in
        serveLoop iter q (a'\<lparr>la_grants := (la_grants a')(lw_id w \<mapsto> parts)\<rparr>))"

definition serveQueueLocked :: "(nat set \<Rightarrow> nat list) \<Rightarrow> LeaseAllocator \<Rightarrow> LeaseAllocator" where
  "serveQueueLocked iter a = serveLoop iter (la_queue a) a"

datatype acquireResult = Failed leaseErr | Leased "nat list" | Queued

text \<open>\<open>Acquire\<close> up to its \<open>select\<close>; \<open>i\<close> is the number of the call.\<close>

definition acquireStart :: "(nat set \<Rightarrow> nat list) \<Rightarrow> nat \<Rightarrow> string \<Rightarrow> int \<Rightarrow> LeaseAllocator \<Rightarrow> acquireResult \<times> LeaseAllocator" where
  "acquireStart iter i s cnt a =
     (if cnt \<le> 0 then (Failed (CountNotPositive cnt), a)
      else if cnt > int (la_total a) then (Failed (ExceedsTotal cnt (la_total a)), a)
      else if la_leasedBy a s \<noteq> None then (Failed (AlreadyLeased s), a)
      else if la_queue a = [] \<and> int (card (la_free a)) \<ge> cnt
      then let (parts, a') = takeLocked iter s (nat cnt) a in (Leased parts, a')
      else (Queued, a\<lparr>la_queue := la_queue a @ [\<lparr>lw_id = i, lw_sessionID = s, lw_count = nat cnt\<rparr>]\<rparr>))"

text \<open>The first case of the \<open>select\<close>: the grant is received.\<close>

definition receiveGrant :: "nat \<Rightarrow> LeaseAllocator \<Rightarrow> (nat list \<times> LeaseAllocator) option" where
  "receiveGrant i a = map_option (\<lambda>parts. (parts, a\<lparr>la_grants := (la_grants a)(i := None)\<rparr>)) (la_grants a i)"

text \<open>
  The second case, the context is done: either the waiter is still queued and leaves, or it
  has been granted in the meantime. Then the mutex is given up, the grant received and, in
  a second critical section, undone.
\<close>

definition cancelQueued :: "(nat set \<Rightarrow> nat list) \<Rightarrow> nat \<Rightarrow> LeaseAllocator \<Rightarrow> LeaseAllocator option" where
  "cancelQueued iter i a =
     (if list_ex (\<lambda>w. lw_id w = i) (la_queue a)
      then Some (serveQueueLocked iter (a\<lparr>la_queue := filter (\<lambda>w. lw_id w \<noteq> i) (la_queue a)\<rparr>)) else None)"

definition undoGrant :: "(nat set \<Rightarrow> nat list) \<Rightarrow> string \<Rightarrow> nat list \<Rightarrow> LeaseAllocator \<Rightarrow> LeaseAllocator" where
  "undoGrant iter s parts a = serveQueueLocked iter
     (a\<lparr>la_free := la_free a \<union> set parts, la_leasedBy := (la_leasedBy a)(s := None)\<rparr>)"

definition ReleaseLease :: "(nat set \<Rightarrow> nat list) \<Rightarrow> string \<Rightarrow> LeaseAllocator \<Rightarrow> LeaseAllocator" where
  "ReleaseLease iter s a = (case la_leasedBy a s of None \<Rightarrow> a
     | Some parts \<Rightarrow> serveQueueLocked iter
         (a\<lparr>la_free := la_free a \<union> set parts, la_leasedBy := (la_leasedBy a)(s := None)\<rparr>))"

definition LeasedCount :: "LeaseAllocator \<Rightarrow> int" where
  "LeasedCount a = int (la_total a) - int (card (la_free a))"

section \<open>The sessions that use it\<close>

text \<open>
  What one \<open>Acquire\<close> call is doing. A session runs at most once at a time: \<open>SessionManager.Add\<close>
  refuses a session that is still tracked, and it is dropped only after its lease is released.
\<close>

datatype leaseProc = Waiting | Undoing "nat list" | Holding "nat list"

record LeaseSystem =
  ly_alloc :: LeaseAllocator
  ly_procs :: "nat \<rightharpoonup> string \<times> leaseProc"
  ly_next :: nat

definition anyOrder :: "(nat set \<Rightarrow> nat list) \<Rightarrow> bool" where
  "anyOrder iter \<longleftrightarrow> (\<forall>A. finite A \<longrightarrow> set (iter A) = A \<and> distinct (iter A))"

definition begins :: "(nat set \<Rightarrow> nat list) \<Rightarrow> string \<Rightarrow> int \<Rightarrow> LeaseSystem \<Rightarrow> LeaseSystem" where
  "begins iter s n y =
     (let (r, a) = acquireStart iter (ly_next y) s n (ly_alloc y) in
      y\<lparr>ly_alloc := a, ly_next := Suc (ly_next y),
        ly_procs := (case r of Failed e \<Rightarrow> ly_procs y
          | Leased parts \<Rightarrow> (ly_procs y)(ly_next y \<mapsto> (s, Holding parts))
          | Queued \<Rightarrow> (ly_procs y)(ly_next y \<mapsto> (s, Waiting)))\<rparr>)"

inductive lstep :: "LeaseSystem \<Rightarrow> LeaseSystem \<Rightarrow> bool" where
  acquire: "\<lbrakk>anyOrder iter; s \<notin> fst ` ran (ly_procs y)\<rbrakk> \<Longrightarrow> lstep y (begins iter s n y)"
| receive: "\<lbrakk>ly_procs y i = Some (s, Waiting); receiveGrant i (ly_alloc y) = Some (parts, a)\<rbrakk> \<Longrightarrow>
    lstep y (y\<lparr>ly_alloc := a, ly_procs := (ly_procs y)(i \<mapsto> (s, Holding parts))\<rparr>)"
| cancel: "\<lbrakk>anyOrder iter; ly_procs y i = Some (s, Waiting); cancelQueued iter i (ly_alloc y) = Some a\<rbrakk> \<Longrightarrow>
    lstep y (y\<lparr>ly_alloc := a, ly_procs := (ly_procs y)(i := None)\<rparr>)"
| late_cancel: "\<lbrakk>anyOrder iter; ly_procs y i = Some (s, Waiting); cancelQueued iter i (ly_alloc y) = None;
    receiveGrant i (ly_alloc y) = Some (parts, a)\<rbrakk> \<Longrightarrow>
    lstep y (y\<lparr>ly_alloc := a, ly_procs := (ly_procs y)(i \<mapsto> (s, Undoing parts))\<rparr>)"
| undo: "\<lbrakk>anyOrder iter; ly_procs y i = Some (s, Undoing parts)\<rbrakk> \<Longrightarrow>
    lstep y (y\<lparr>ly_alloc := undoGrant iter s parts (ly_alloc y), ly_procs := (ly_procs y)(i := None)\<rparr>)"
| release: "\<lbrakk>anyOrder iter; ly_procs y i = Some (s, Holding parts)\<rbrakk> \<Longrightarrow>
    lstep y (y\<lparr>ly_alloc := ReleaseLease iter s (ly_alloc y), ly_procs := (ly_procs y)(i := None)\<rparr>)"

inductive_cases lstepE: "lstep y y'"

definition freshSystem :: "nat \<Rightarrow> LeaseSystem" where
  "freshSystem n = \<lparr>ly_alloc = newLeaseAllocator n, ly_procs = Map.empty, ly_next = 0\<rparr>"

section \<open>The partitions are shared out exactly\<close>

definition shared :: "nat \<Rightarrow> nat set \<Rightarrow> (string \<rightharpoonup> nat list) \<Rightarrow> bool" where
  "shared n free L \<longleftrightarrow>
     free \<union> (\<Union>p\<in>ran L. set p) = {0..<n} \<and>
     (\<forall>s p. L s = Some p \<longrightarrow> distinct p \<and> set p \<inter> free = {}) \<and>
     (\<forall>s t p q. L s = Some p \<longrightarrow> L t = Some q \<longrightarrow> s \<noteq> t \<longrightarrow> set p \<inter> set q = {})"

lemma shared_finite: "shared n free L \<Longrightarrow> finite free"
  unfolding shared_def by (metis finite_Un finite_atLeastLessThan)

lemma shared_new: "shared n {0..<n} Map.empty"
  by (simp add: shared_def)

lemma shared_take:
  assumes "shared n free L" "L s = None" "set p \<subseteq> free" "distinct p"
  shows "shared n (free - set p) (L(s \<mapsto> p))"
  unfolding shared_def
proof (intro conjI allI impI)
  have r: "ran (L(s \<mapsto> p)) = insert p (ran L)" using assms(2) by (simp add: ran_map_upd)
  have "(\<Union>q\<in>ran L. set q) \<inter> free = {}" using assms(1) unfolding shared_def ran_def by blast
  then show "free - set p \<union> (\<Union>q\<in>ran (L(s \<mapsto> p)). set q) = {0..<n}"
    unfolding r using assms(1,3) unfolding shared_def by auto
next
  fix t q assume "(L(s \<mapsto> p)) t = Some q"
  then show "distinct q" "set q \<inter> (free - set p) = {}"
    using assms(1,4) unfolding shared_def by (auto split: if_splits)
next
  fix t u q r assume "(L(s \<mapsto> p)) t = Some q" "(L(s \<mapsto> p)) u = Some r" "t \<noteq> u"
  then show "set q \<inter> set r = {}" using assms(1,3) unfolding shared_def by (auto split: if_splits) blast+
qed

lemma sharedD:
  assumes "shared n free L"
  shows "free \<union> (\<Union>p\<in>ran L. set p) = {0..<n}" "L s = Some p \<Longrightarrow> distinct p" "L s = Some p \<Longrightarrow> set p \<inter> free = {}"
    "L s = Some p \<Longrightarrow> L t = Some q \<Longrightarrow> s \<noteq> t \<Longrightarrow> set p \<inter> set q = {}"
  using assms unfolding shared_def by blast+

lemma shared_return:
  assumes sh: "shared n free L" and s: "L s = Some p"
  shows "shared n (free \<union> set p) (L(s := None))"
  unfolding shared_def
proof (intro conjI allI impI)
  have "q = p \<or> q \<in> ran (L(s := None))" if "q \<in> ran L" for q
  proof -
    obtain t where "L t = Some q" using \<open>q \<in> ran L\<close> by (auto simp: ran_def)
    then show ?thesis using s by (cases "t = s") (auto intro: ranI [of "L(s := None)" t])
  qed
  moreover have "ran (L(s := None)) \<subseteq> ran L" by (auto simp: ran_def split: if_splits)
  moreover have "p \<in> ran L" using s by (rule ranI)
  ultimately have "ran L = insert p (ran (L(s := None)))" by blast
  then show "free \<union> set p \<union> (\<Union>q\<in>ran (L(s := None)). set q) = {0..<n}"
    using sharedD(1) [OF sh] by (simp add: Un_assoc)
next
  fix t q assume "(L(s := None)) t = Some q"
  then have t: "t \<noteq> s" "L t = Some q" by (auto split: if_splits)
  show "distinct q" using sharedD(2) [OF sh t(2)] .
  show "set q \<inter> (free \<union> set p) = {}" using sharedD(3) [OF sh t(2)] sharedD(4) [OF sh t(2) s t(1)] by (simp add: Int_Un_distrib)
next
  fix t u q r assume "(L(s := None)) t = Some q" "(L(s := None)) u = Some r" "t \<noteq> u"
  then have "L t = Some q" "L u = Some r" by (auto split: if_splits)
  then show "set q \<inter> set r = {}" using sharedD(4) [OF sh] \<open>t \<noteq> u\<close> by blast
qed

lemma anyOrder_take:
  assumes "anyOrder iter" "finite A"
  shows "set (take k (iter A)) \<subseteq> A" "distinct (take k (iter A))" "k \<le> card A \<Longrightarrow> length (take k (iter A)) = k"
proof -
  have i: "set (iter A) = A" "distinct (iter A)" using assms by (auto simp: anyOrder_def)
  show "set (take k (iter A)) \<subseteq> A" using set_take_subset i(1) by fast
  show "distinct (take k (iter A))" using i(2) by simp
  show "k \<le> card A \<Longrightarrow> length (take k (iter A)) = k" using distinct_card [OF i(2)] i(1) by simp
qed

section \<open>The invariant\<close>

fun leaseOf :: "(nat \<rightharpoonup> nat list) \<Rightarrow> nat \<Rightarrow> leaseProc \<Rightarrow> nat list option" where
  "leaseOf g i Waiting = g i"
| "leaseOf g i (Undoing p) = Some p"
| "leaseOf g i (Holding p) = Some p"

text \<open>The invariant with the queue \<open>q\<close> in place of the allocator's, as in the middle of serving it.\<close>

definition queueInv :: "leaseWaiter list \<Rightarrow> LeaseAllocator \<Rightarrow> (nat \<rightharpoonup> string \<times> leaseProc) \<Rightarrow> bool" where
  "queueInv q a P \<longleftrightarrow>
     shared (la_total a) (la_free a) (la_leasedBy a) \<and>
     (\<forall>i s st j st'. P i = Some (s, st) \<longrightarrow> P j = Some (s, st') \<longrightarrow> i = j) \<and>
     (\<forall>i s st. P i = Some (s, st) \<longrightarrow> la_leasedBy a s = leaseOf (la_grants a) i st) \<and>
     (\<forall>s p. la_leasedBy a s = Some p \<longrightarrow> (\<exists>i st. P i = Some (s, st))) \<and>
     (\<forall>i p. la_grants a i = Some p \<longrightarrow> (\<exists>s. P i = Some (s, Waiting))) \<and>
     distinct (map lw_id q) \<and>
     (\<forall>w\<in>set q. P (lw_id w) = Some (lw_sessionID w, Waiting) \<and> la_grants a (lw_id w) = None \<and>
        0 < lw_count w \<and> lw_count w \<le> la_total a) \<and>
     (\<forall>i s. P i = Some (s, Waiting) \<longrightarrow> la_grants a i = None \<longrightarrow> i \<in> lw_id ` set q)"

text \<open>Nobody is kept waiting who could be served.\<close>

definition served :: "LeaseAllocator \<Rightarrow> bool" where
  "served a \<longleftrightarrow> (case la_queue a of [] \<Rightarrow> True | w # _ \<Rightarrow> card (la_free a) < lw_count w)"

definition leaseInv :: "LeaseSystem \<Rightarrow> bool" where
  "leaseInv y \<longleftrightarrow> queueInv (la_queue (ly_alloc y)) (ly_alloc y) (ly_procs y) \<and> served (ly_alloc y) \<and>
     (\<forall>i. ly_procs y i \<noteq> None \<longrightarrow> i < ly_next y)"

lemma queueInv_queue [simp]: "queueInv q (a\<lparr>la_queue := q'\<rparr>) P = queueInv q a P"
  by (simp add: queueInv_def)

lemma takeLocked_eq:
  assumes "anyOrder iter" "finite (la_free a)" "n \<le> card (la_free a)" "takeLocked iter s n a = (p, a')"
  shows "a' = a\<lparr>la_free := la_free a - set p, la_leasedBy := (la_leasedBy a)(s \<mapsto> p)\<rparr>"
    and "set p \<subseteq> la_free a" "distinct p" "length p = n"
  using assms anyOrder_take [OF assms(1,2), of n] by (auto simp: takeLocked_def Let_def)

lemma grant_inv:
  assumes inv: "queueInv (w # q) a P" and it: "anyOrder iter" and fits: "\<not> card (la_free a) < lw_count w"
    and take: "takeLocked iter (lw_sessionID w) (lw_count w) a = (p, a')"
  shows "queueInv q (a'\<lparr>la_grants := (la_grants a')(lw_id w \<mapsto> p)\<rparr>) P"
proof -
  let ?i = "lw_id w" let ?s = "lw_sessionID w"
  have sh: "shared (la_total a) (la_free a) (la_leasedBy a)" using inv by (simp add: queueInv_def)
  note t = takeLocked_eq [OF it shared_finite [OF sh] _ take]
  have w: "P ?i = Some (?s, Waiting)" "la_grants a ?i = None" using inv by (auto simp: queueInv_def)
  then have none: "la_leasedBy a ?s = None" using inv unfolding queueInv_def by (metis leaseOf.simps(1))
  have uniq: "P j = Some (?s, st) \<Longrightarrow> j = ?i" for j st using inv w(1) unfolding queueInv_def by blast
  have a': "a' = a\<lparr>la_free := la_free a - set p, la_leasedBy := (la_leasedBy a)(?s \<mapsto> p)\<rparr>" using t(1) fits by simp
  have "shared (la_total a) (la_free a - set p) ((la_leasedBy a)(?s \<mapsto> p))"
    using shared_take [OF sh none] t(2,3) fits by simp
  moreover have "((la_leasedBy a)(?s \<mapsto> p)) s = leaseOf ((la_grants a)(?i \<mapsto> p)) j st" if "P j = Some (s, st)" for j s st
  proof (cases "j = ?i")
    case True
    then show ?thesis using that w by simp
  next
    case False
    then have "s \<noteq> ?s" using uniq that by blast
    moreover have "leaseOf ((la_grants a)(?i \<mapsto> p)) j st = leaseOf (la_grants a) j st" using False by (cases st) simp_all
    ultimately show ?thesis using inv that unfolding queueInv_def by simp
  qed
  moreover have "\<exists>j st. P j = Some (s, st)" if "((la_leasedBy a)(?s \<mapsto> p)) s = Some r" for s r
    using that w inv unfolding queueInv_def by (metis fun_upd_apply)
  moreover have "?i \<notin> lw_id ` set q" using inv by (simp add: queueInv_def)
  ultimately show ?thesis using inv w unfolding queueInv_def a' by (auto simp: image_iff)
qed

lemma serveLoop_inv:
  assumes "anyOrder iter" "queueInv q a P"
  shows "queueInv (la_queue (serveLoop iter q a)) (serveLoop iter q a) P \<and> served (serveLoop iter q a) \<and>
    la_total (serveLoop iter q a) = la_total a"
  using assms(2)
proof (induction q arbitrary: a)
  case Nil
  then show ?case by (simp add: served_def)
next
  case (Cons w q)
  show ?case
  proof (cases "card (la_free a) < lw_count w")
    case True
    then show ?thesis using Cons.prems by (simp add: served_def)
  next
    case False
    obtain p a' where t: "takeLocked iter (lw_sessionID w) (lw_count w) a = (p, a')" by fastforce
    then have "la_total a' = la_total a" by (auto simp: takeLocked_def Let_def)
    then show ?thesis using Cons.IH [OF grant_inv [OF Cons.prems assms(1) False t]] False t by simp
  qed
qed

lemma queueInvD:
  assumes "queueInv q a P"
  shows "shared (la_total a) (la_free a) (la_leasedBy a)"
    "P i = Some (s, st) \<Longrightarrow> P j = Some (s, st') \<Longrightarrow> i = j"
    "P i = Some (s, st) \<Longrightarrow> la_leasedBy a s = leaseOf (la_grants a) i st"
    "la_leasedBy a s = Some p \<Longrightarrow> \<exists>i st. P i = Some (s, st)"
    "la_grants a i = Some p \<Longrightarrow> \<exists>s. P i = Some (s, Waiting)"
    "distinct (map lw_id q)"
    "w \<in> set q \<Longrightarrow> P (lw_id w) = Some (lw_sessionID w, Waiting)"
    "w \<in> set q \<Longrightarrow> la_grants a (lw_id w) = None"
    "w \<in> set q \<Longrightarrow> 0 < lw_count w \<and> lw_count w \<le> la_total a"
    "P i = Some (s, Waiting) \<Longrightarrow> la_grants a i = None \<Longrightarrow> i \<in> lw_id ` set q"
  using assms unfolding queueInv_def by blast+

lemma queueInvI:
  assumes "shared (la_total a) (la_free a) (la_leasedBy a)"
    "\<And>i s st j st'. P i = Some (s, st) \<Longrightarrow> P j = Some (s, st') \<Longrightarrow> i = j"
    "\<And>i s st. P i = Some (s, st) \<Longrightarrow> la_leasedBy a s = leaseOf (la_grants a) i st"
    "\<And>s p. la_leasedBy a s = Some p \<Longrightarrow> \<exists>i st. P i = Some (s, st)"
    "\<And>i p. la_grants a i = Some p \<Longrightarrow> \<exists>s. P i = Some (s, Waiting)"
    "distinct (map lw_id q)"
    "\<And>w. w \<in> set q \<Longrightarrow> P (lw_id w) = Some (lw_sessionID w, Waiting) \<and> la_grants a (lw_id w) = None \<and>
       0 < lw_count w \<and> lw_count w \<le> la_total a"
    "\<And>i s. P i = Some (s, Waiting) \<Longrightarrow> la_grants a i = None \<Longrightarrow> i \<in> lw_id ` set q"
  shows "queueInv q a P"
  using assms unfolding queueInv_def by blast

lemma enqueue_inv:
  assumes inv: "queueInv q a P" and i: "P i = None" and s: "s \<notin> fst ` ran P" and n: "0 < n" "n \<le> la_total a"
  shows "queueInv (q @ [\<lparr>lw_id = i, lw_sessionID = s, lw_count = n\<rparr>]) a (P(i \<mapsto> (s, Waiting)))"
proof (rule queueInvI)
  note d = queueInvD [OF inv]
  have fresh: "P j \<noteq> Some (s, st)" for j st using s by (force simp: ran_def)
  have gi: "la_grants a i = None" using d(5) [of i] i by (cases "la_grants a i") auto
  have ls: "la_leasedBy a s = None" using d(4) [of s] fresh by (cases "la_leasedBy a s") auto
  show "shared (la_total a) (la_free a) (la_leasedBy a)" by (rule d(1))
  show "j = k" if "(P(i \<mapsto> (s, Waiting))) j = Some (t, st)" "(P(i \<mapsto> (s, Waiting))) k = Some (t, st')" for j t st k st'
    using that d(2) fresh by (auto split: if_splits)
  show "la_leasedBy a t = leaseOf (la_grants a) j st" if "(P(i \<mapsto> (s, Waiting))) j = Some (t, st)" for j t st
    using that d(3) gi ls by (auto split: if_splits)
  show "\<exists>j st. (P(i \<mapsto> (s, Waiting))) j = Some (t, st)" if "la_leasedBy a t = Some p" for t p
    using d(4) [OF that] i by (metis fun_upd_apply option.distinct(1))
  show "\<exists>t. (P(i \<mapsto> (s, Waiting))) j = Some (t, Waiting)" if "la_grants a j = Some p" for j p
    using d(5) [OF that] gi that by (cases "j = i") auto
  have "i \<notin> lw_id ` set q" using d(7) i by force
  then show "distinct (map lw_id (q @ [\<lparr>lw_id = i, lw_sessionID = s, lw_count = n\<rparr>]))" using d(6) by simp
  show "(P(i \<mapsto> (s, Waiting))) (lw_id w) = Some (lw_sessionID w, Waiting) \<and> la_grants a (lw_id w) = None \<and>
      0 < lw_count w \<and> lw_count w \<le> la_total a" if "w \<in> set (q @ [\<lparr>lw_id = i, lw_sessionID = s, lw_count = n\<rparr>])" for w
    using that d(7-9) gi n \<open>i \<notin> lw_id ` set q\<close> by (auto simp: image_iff)
  show "j \<in> lw_id ` set (q @ [\<lparr>lw_id = i, lw_sessionID = s, lw_count = n\<rparr>])"
    if "(P(i \<mapsto> (s, Waiting))) j = Some (t, Waiting)" "la_grants a j = None" for j t
    using that d(10) by (cases "j = i") auto
qed

lemma direct_inv:
  assumes inv: "queueInv q a P" and i: "P i = None" and s: "s \<notin> fst ` ran P"
    and p: "set p \<subseteq> la_free a" "distinct p"
  shows "queueInv q (a\<lparr>la_free := la_free a - set p, la_leasedBy := (la_leasedBy a)(s \<mapsto> p)\<rparr>) (P(i \<mapsto> (s, Holding p)))"
proof -
  note d = queueInvD [OF inv]
  have fresh: "P j \<noteq> Some (s, st)" for j st using s by (force simp: ran_def)
  have gi: "la_grants a i = None" using d(5) [of i] i by (cases "la_grants a i") auto
  have ls: "la_leasedBy a s = None" using d(4) [of s] fresh by (cases "la_leasedBy a s") auto
  have w: "lw_id w \<noteq> i" if "w \<in> set q" for w using d(7) [OF that] i by auto
  show ?thesis
  proof (rule queueInvI, simp_all, goal_cases)
    case 1 then show ?case using shared_take [OF d(1) ls p] .
  next
    case (2 j t st k st') then show ?case using d(2) fresh by (auto split: if_splits)
  next
    case (3 j t st)
    show ?case
    proof (cases "j = i")
      case False
      then have "P j = Some (t, st)" using 3 by simp
      then show ?thesis using d(3) [of j t st] fresh [of j st] by auto
    qed (use 3 in auto)
  next
    case (4 t r) then show ?case using d(4) [of t r] i by (metis option.distinct(1))
  next
    case (5 j r) then show ?case using d(5) [of j r] gi by (cases "j = i") auto
  next
    case 6 show ?case by (rule d(6))
  next
    case (7 x) then show ?case using d(7-9) [of x] w [of x] by auto
  next
    case (8 j t) then show ?case using d(10) [of j t] by (cases "j = i") auto
  qed
qed

lemma received_inv:
  assumes inv: "queueInv q a P" and i: "P i = Some (s, Waiting)" and g: "la_grants a i = Some p" and st: "st = Holding p \<or> st = Undoing p"
  shows "queueInv q (a\<lparr>la_grants := (la_grants a)(i := None)\<rparr>) (P(i \<mapsto> (s, st)))"
proof -
  note d = queueInvD [OF inv]
  have l: "la_leasedBy a s = Some p" using d(3) [OF i] g by simp
  have w: "lw_id w \<noteq> i" if "w \<in> set q" for w using d(8) [OF that] g by auto
  have nw: "st \<noteq> Waiting" "leaseOf h i st = Some p" for h using st by auto
  show ?thesis
  proof (rule queueInvI, simp_all, goal_cases)
    case 1 show ?case by (rule d(1))
  next
    case (2 j t st1 k st2) then show ?case using d(2) i by (auto split: if_splits)
  next
    case (3 j t st1)
    show ?case
    proof (cases "j = i")
      case True
      then show ?thesis using 3 l nw by auto
    next
      case False
      then have "P j = Some (t, st1)" using 3 by simp
      then show ?thesis using d(3) [of j t st1] False by (cases st1) auto
    qed
  next
    case (4 t r) then show ?case using d(4) [of t r] i by (metis option.inject prod.inject)
  next
    case (5 j r) then show ?case using d(5) [of j r] by (auto split: if_splits)
  next
    case 6 show ?case by (rule d(6))
  next
    case (7 x) then show ?case using d(7-9) [of x] w [of x] by auto
  next
    case (8 j t) then show ?case using d(10) [of j t] nw(1) by (cases "j = i") auto
  qed
qed

lemma left_inv:
  assumes inv: "queueInv q a P" and i: "P i = Some (s, Waiting)" and m: "i \<in> lw_id ` set q"
  shows "queueInv (filter (\<lambda>w. lw_id w \<noteq> i) q) a (P(i := None))"
proof -
  note d = queueInvD [OF inv]
  have gi: "la_grants a i = None" using d(8) m by auto
  then have ls: "la_leasedBy a s = None" using d(3) [OF i] by simp
  show ?thesis
  proof (rule queueInvI, simp_all, goal_cases)
    case 1 show ?case by (rule d(1))
  next
    case (2 j t st k st') then show ?case using d(2) by (auto split: if_splits)
  next
    case (3 j t st) then show ?case using d(3) [of j t st] by (auto split: if_splits)
  next
    case (4 t r) then show ?case using d(4) [of t r] i ls by (metis option.distinct(1) option.inject prod.inject)
  next
    case (5 j r) then show ?case using d(5) [of j r] gi by (auto split: if_splits)
  next
    case 6 show ?case using d(6) by (rule distinct_map_filter)
  next
    case (7 x) then show ?case using d(7-9) [of x] by auto
  next
    case (8 j t) then show ?case using d(10) [of j t] by (auto split: if_splits)
  qed
qed

lemma returned_inv:
  assumes inv: "queueInv q a P" and i: "P i = Some (s, st)" and st: "st = Holding p \<or> st = Undoing p"
  shows "la_leasedBy a s = Some p"
    and "queueInv q (a\<lparr>la_free := la_free a \<union> set p, la_leasedBy := (la_leasedBy a)(s := None)\<rparr>) (P(i := None))"
proof -
  note d = queueInvD [OF inv]
  show l: "la_leasedBy a s = Some p" using d(3) [OF i] st by auto
  have w: "lw_id w \<noteq> i" if "w \<in> set q" for w using d(7) [OF that] i st by auto
  show "queueInv q (a\<lparr>la_free := la_free a \<union> set p, la_leasedBy := (la_leasedBy a)(s := None)\<rparr>) (P(i := None))"
  proof (rule queueInvI, simp_all, goal_cases)
    case 1 show ?case by (rule shared_return [OF d(1) l])
  next
    case (2 j t st1 k st2) then show ?case using d(2) by (auto split: if_splits)
  next
    case (3 j t st1)
    then have "t \<noteq> s" "P j = Some (t, st1)" using d(2) [OF i] by (auto split: if_splits)
    then show ?case using d(3) by simp
  next
    case (4 t r) then show ?case using d(4) [of t r] i by (metis option.distinct(1) option.inject prod.inject)
  next
    case (5 j r) then show ?case using d(5) [of j r] i st by (auto split: if_splits)
  next
    case 6 show ?case by (rule d(6))
  next
    case (7 x) then show ?case using d(7-9) [of x] w [of x] by auto
  next
    case (8 j t) then show ?case using d(10) [of j t] by (auto split: if_splits)
  qed
qed

lemma serve_inv:
  assumes "anyOrder iter" "queueInv (la_queue a) a P"
  shows "queueInv (la_queue (serveQueueLocked iter a)) (serveQueueLocked iter a) P" "served (serveQueueLocked iter a)"
    "la_total (serveQueueLocked iter a) = la_total a"
  using serveLoop_inv [OF assms] by (simp_all add: serveQueueLocked_def)

lemma begins_inv:
  assumes inv: "leaseInv y" and it: "anyOrder iter" and s: "s \<notin> fst ` ran (ly_procs y)"
  shows "leaseInv (begins iter s n y)"
proof -
  let ?a = "ly_alloc y" let ?i = "ly_next y"
  have q: "queueInv (la_queue ?a) ?a (ly_procs y)" and sv: "served ?a" and b: "\<And>i. ly_procs y i \<noteq> None \<Longrightarrow> i < ?i"
    using inv by (auto simp: leaseInv_def)
  have i: "ly_procs y ?i = None" using b [of ?i] by blast
  obtain r a where st: "acquireStart iter ?i s n ?a = (r, a)" by fastforce
  show ?thesis
  proof (cases r)
    case (Failed e)
    then have "a = ?a" using st by (auto simp: acquireStart_def split: if_splits prod.splits)
    then show ?thesis using Failed st q sv b by (simp add: leaseInv_def begins_def less_SucI)
  next
    case (Leased p)
    then have c: "la_queue ?a = []" "nat n \<le> card (la_free ?a)" "takeLocked iter s (nat n) ?a = (p, a)"
      using st by (auto simp: acquireStart_def split: if_splits prod.splits)
    note t = takeLocked_eq [OF it shared_finite [OF queueInvD(1) [OF q]] c(2,3)]
    have "queueInv [] a ((ly_procs y)(?i \<mapsto> (s, Holding p)))" using direct_inv [OF q i s t(2,3)] c(1) t(1) by simp
    moreover have "la_queue a = []" using t(1) c(1) by simp
    ultimately show ?thesis using Leased st b by (simp add: leaseInv_def begins_def served_def less_SucI)
  next
    case Queued
    then have c: "a = ?a\<lparr>la_queue := la_queue ?a @ [\<lparr>lw_id = ?i, lw_sessionID = s, lw_count = nat n\<rparr>]\<rparr>"
      "0 < nat n" "nat n \<le> la_total ?a" "la_queue ?a \<noteq> [] \<or> int (card (la_free ?a)) < n"
      using st by (auto simp: acquireStart_def split: if_splits prod.splits)
    have "served a" using c(1,4) sv by (auto simp: served_def split: list.splits)
    then show ?thesis using Queued st b c(1) enqueue_inv [OF q i s c(2,3)] by (simp add: leaseInv_def begins_def less_SucI)
  qed
qed

lemma lstep_inv: assumes "lstep y y'" "leaseInv y" shows "leaseInv y'"
proof -
  let ?a = "ly_alloc y"
  have q: "queueInv (la_queue ?a) ?a (ly_procs y)" and sv: "served ?a" and b: "\<And>i. ly_procs y i \<noteq> None \<Longrightarrow> i < ly_next y"
    using assms(2) by (auto simp: leaseInv_def)
  have r: "leaseInv (y\<lparr>ly_alloc := a\<lparr>la_grants := (la_grants a)(i := None)\<rparr>, ly_procs := (ly_procs y)(i \<mapsto> (s, st))\<rparr>)"
    if "a = ?a" "ly_procs y i = Some (s, Waiting)" "la_grants ?a i = Some p" "st = Holding p \<or> st = Undoing p" for a i s st p
    using received_inv [OF q that(2-4)] sv b that by (auto simp: leaseInv_def served_def split: list.splits)
  have f: "leaseInv (y\<lparr>ly_alloc := serveQueueLocked iter a, ly_procs := (ly_procs y)(i := None)\<rparr>)"
    if "anyOrder iter" "queueInv (la_queue a) a ((ly_procs y)(i := None))" for iter a i
    using serve_inv [OF that] b by (simp add: leaseInv_def)
  from assms(1) show ?thesis
  proof cases
    case (acquire iter s n) then show ?thesis using begins_inv [OF assms(2)] by simp
  next
    case (receive i s p a) then show ?thesis using r [of ?a i s p] by (auto simp: receiveGrant_def)
  next
    case (cancel iter i s a)
    then have "i \<in> lw_id ` set (la_queue ?a)"
      "a = serveQueueLocked iter (?a\<lparr>la_queue := filter (\<lambda>w. lw_id w \<noteq> i) (la_queue ?a)\<rparr>)"
      by (auto simp: cancelQueued_def list_ex_iff split: if_splits)
    then show ?thesis using cancel f left_inv [OF q] by simp
  next
    case (late_cancel iter i s p a) then show ?thesis using r [of ?a i s p] by (auto simp: receiveGrant_def)
  next
    case (undo iter i s p)
    then show ?thesis using returned_inv(2) [OF q, of i s "Undoing p" p] f by (simp add: undoGrant_def)
  next
    case (release iter i s p)
    then show ?thesis using returned_inv [OF q, of i s "Holding p" p] f by (simp add: ReleaseLease_def)
  qed
qed

lemma takeLocked_total: "takeLocked iter s n a = (p, a') \<Longrightarrow> la_total a' = la_total a"
  by (auto simp: takeLocked_def Let_def)

lemma serveLoop_total: "la_total (serveLoop iter q a) = la_total a"
  by (induction iter q a rule: serveLoop.induct) (auto dest: takeLocked_total split: prod.splits)

lemma lstep_total: "lstep y y' \<Longrightarrow> la_total (ly_alloc y') = la_total (ly_alloc y)"
  by (erule lstep.cases) (auto simp: begins_def acquireStart_def receiveGrant_def cancelQueued_def undoGrant_def
      ReleaseLease_def serveQueueLocked_def serveLoop_total dest: takeLocked_total split: if_splits prod.splits option.splits)

lemma freshSystem_inv: "leaseInv (freshSystem n)"
  using shared_new [of n] by (simp add: leaseInv_def freshSystem_def newLeaseAllocator_def queueInv_def served_def)

lemma lsteps_inv: assumes "lstep\<^sup>*\<^sup>* (freshSystem n) y" shows "leaseInv y \<and> la_total (ly_alloc y) = n"
  using assms
proof (induction rule: rtranclp_induct)
  case base
  then show ?case using freshSystem_inv by (simp add: freshSystem_def newLeaseAllocator_def)
next
  case (step y z)
  then show ?case using lstep_inv lstep_total by simp
qed

section \<open>The queue is served in order\<close>

lemma serveLoop_grants: "i \<notin> lw_id ` set q \<Longrightarrow> la_grants (serveLoop iter q a) i = la_grants a i"
  by (induction iter q a rule: serveLoop.induct) (auto simp: takeLocked_def Let_def)

lemma serveLoop_fifo:
  assumes "anyOrder iter" "finite (la_free a)" "distinct (map lw_id q)"
  shows "\<exists>k. la_queue (serveLoop iter q a) = drop k q \<and>
    (\<forall>w. w \<in> set (take k q) \<longrightarrow> (\<exists>p. la_grants (serveLoop iter q a) (lw_id w) = Some p \<and> length p = lw_count w)) \<and>
    (\<forall>i. i \<notin> lw_id ` set (take k q) \<longrightarrow> la_grants (serveLoop iter q a) i = la_grants a i)"
  using assms
proof (induction iter q a rule: serveLoop.induct)
  case (1 iter a)
  then show ?case by (intro exI [of _ 0]) simp
next
  case (2 iter w q a)
  show ?case
  proof (cases "card (la_free a) < lw_count w")
    case True
    then show ?thesis by (intro exI [of _ 0]) simp
  next
    case False
    obtain p a' where t: "takeLocked iter (lw_sessionID w) (lw_count w) a = (p, a')" by fastforce
    note e = takeLocked_eq [OF 2(2,3) _ t]
    let ?b = "a'\<lparr>la_grants := (la_grants a')(lw_id w \<mapsto> p)\<rparr>"
    obtain k where k: "la_queue (serveLoop iter q ?b) = drop k q"
      "\<And>v. v \<in> set (take k q) \<Longrightarrow> \<exists>p. la_grants (serveLoop iter q ?b) (lw_id v) = Some p \<and> length p = lw_count v"
      "\<And>i. i \<notin> lw_id ` set (take k q) \<Longrightarrow> la_grants (serveLoop iter q ?b) i = la_grants ?b i"
      using 2(1) [OF False t [symmetric] refl] 2(2-4) False e(1) by auto
    have w: "lw_id w \<notin> lw_id ` set (take k q)" using 2(4) set_take_subset [of k q] by auto
    have "la_grants ?b i = la_grants a i" if "i \<noteq> lw_id w" for i using e(1) False that by simp
    then show ?thesis using k w e(4) False t by (intro exI [of _ "Suc k"]) auto
  qed
qed

section \<open>Properties\<close>

lemma holder:
  assumes "queueInv q a P" "P i = Some (s, st)" "leaseOf (la_grants a) i st = Some p"
  shows "la_leasedBy a s = Some p"
  using assms unfolding queueInv_def by metis

lemma holders_disjoint:
  assumes "leaseInv y" "ly_procs y i = Some (s, Holding p)" "ly_procs y j = Some (t, Holding q)" "i \<noteq> j"
  shows "set p \<inter> set q = {}"
proof -
  have inv: "queueInv (la_queue (ly_alloc y)) (ly_alloc y) (ly_procs y)" using assms(1) by (simp add: leaseInv_def)
  have "s \<noteq> t" using queueInvD(2) [OF inv, of i s _ j] assms(2-4) by blast
  moreover have "la_leasedBy (ly_alloc y) s = Some p" "la_leasedBy (ly_alloc y) t = Some q"
    using holder [OF inv assms(2)] holder [OF inv assms(3)] by simp_all
  ultimately show ?thesis using sharedD(4) [OF queueInvD(1) [OF inv]] by blast
qed

lemma shared_count:
  assumes "shared n free L"
  shows "int n - int (card free) = int (card (\<Union>p\<in>ran L. set p))"
proof -
  let ?U = "\<Union>p\<in>ran L. set p"
  have u: "free \<union> ?U = {0..<n}" using sharedD(1) [OF assms] .
  have "free \<inter> ?U = {}" using assms unfolding shared_def ran_def by blast
  moreover have "finite free" "finite ?U" using u by (metis finite_Un finite_atLeastLessThan)+
  ultimately have "card free + card ?U = n" using card_Un_disjoint [of free ?U] u by simp
  then show ?thesis by linarith
qed

text \<open>A run to apply the properties to: one session holds a partition of two, another one waits for both.\<close>

lemma anyOrder_sorted: "anyOrder sorted_list_of_set"
  by (simp add: anyOrder_def)

definition runHoldWait :: LeaseSystem where
  "runHoldWait = begins sorted_list_of_set ''b'' 2 (begins sorted_list_of_set ''a'' 1 (freshSystem 2))"

lemma runHoldWait_eq:
  "runHoldWait = \<lparr>ly_alloc = \<lparr>la_total = 2, la_free = {1}, la_leasedBy = [''a'' \<mapsto> [0]],
     la_queue = [\<lparr>lw_id = 1, lw_sessionID = ''b'', lw_count = 2\<rparr>], la_grants = Map.empty\<rparr>,
     ly_procs = [0 \<mapsto> (''a'', Holding [0]), 1 \<mapsto> (''b'', Waiting)], ly_next = 2\<rparr>"
proof -
  have "{0..<2::nat} = {0, 1}" "sorted_list_of_set {0, 1::nat} = [0, 1]" by auto
  then show ?thesis
    by (simp add: runHoldWait_def begins_def acquireStart_def freshSystem_def newLeaseAllocator_def takeLocked_def Let_def insert_Diff_if numeral_2_eq_2)
qed

lemma lstep_twice: "lstep x y \<Longrightarrow> lstep y z \<Longrightarrow> lstep\<^sup>*\<^sup>* x z"
  by (meson rtranclp.simps)

lemma two_begin: "lstep\<^sup>*\<^sup>* (freshSystem 2) (begins sorted_list_of_set ''b'' n (begins sorted_list_of_set ''a'' 1 (freshSystem 2)))"
proof -
  have p: "ly_procs (begins sorted_list_of_set ''a'' 1 (freshSystem 2)) = [0 \<mapsto> (''a'', Holding [0])]"
    by (simp add: begins_def acquireStart_def freshSystem_def newLeaseAllocator_def takeLocked_def Let_def numeral_2_eq_2 atLeast0_lessThan_Suc)
  have s1: "lstep (freshSystem 2) (begins sorted_list_of_set ''a'' 1 (freshSystem 2))"
    by (rule acquire [OF anyOrder_sorted]) (simp add: freshSystem_def)
  have s2: "lstep (begins sorted_list_of_set ''a'' 1 (freshSystem 2))
      (begins sorted_list_of_set ''b'' n (begins sorted_list_of_set ''a'' 1 (freshSystem 2)))"
    by (rule acquire [OF anyOrder_sorted]) (simp add: p)
  show ?thesis by (fact lstep_twice [OF s1 s2])
qed

lemma runHoldWait_reached: "lstep\<^sup>*\<^sup>* (freshSystem 2) runHoldWait"
  unfolding runHoldWait_def by (rule two_begin)

text \<open>Another one, in which both sessions hold a partition.\<close>

definition runTwoHold :: LeaseSystem where
  "runTwoHold = begins sorted_list_of_set ''b'' 1 (begins sorted_list_of_set ''a'' 1 (freshSystem 2))"

lemma runTwoHold_procs: "ly_procs runTwoHold = [0 \<mapsto> (''a'', Holding [0]), 1 \<mapsto> (''b'', Holding [1])]"
proof -
  have "{0..<2::nat} = {0, 1}" "sorted_list_of_set {0, 1::nat} = [0, 1]" by auto
  then show ?thesis
    by (simp add: runTwoHold_def begins_def acquireStart_def freshSystem_def newLeaseAllocator_def takeLocked_def Let_def insert_Diff_if numeral_2_eq_2)
qed

lemma runTwoHold_reached: "lstep\<^sup>*\<^sup>* (freshSystem 2) runTwoHold"
  unfolding runTwoHold_def by (rule two_begin)

text \<open>C29.
  No partition is leased twice and none is lost. In every state that any interleaving of
  acquiring, receiving, cancelling and releasing sessions can reach, the partitions that two
  sessions hold are disjoint, each is a partition of the topic and not free, the counter that
  feeds the autoscaler is the number of partitions on loan, and once no session is using the
  allocator every partition is free again.
\<close>

theorem lease_exclusive:
  assumes "lstep\<^sup>*\<^sup>* (freshSystem n) y"
  shows "(\<forall>i s p j t q. ly_procs y i = Some (s, Holding p) \<and> ly_procs y j = Some (t, Holding q) \<and> i \<noteq> j \<longrightarrow> set p \<inter> set q = {}) \<and>
    (\<forall>i s p. ly_procs y i = Some (s, Holding p) \<longrightarrow> distinct p \<and> set p \<subseteq> {0..<n} - la_free (ly_alloc y)) \<and>
    LeasedCount (ly_alloc y) = int (card (\<Union>p\<in>ran (la_leasedBy (ly_alloc y)). set p)) \<and>
    (ly_procs y = Map.empty \<longrightarrow> la_free (ly_alloc y) = {0..<n})"
proof -
  let ?a = "ly_alloc y"
  have q: "queueInv (la_queue ?a) ?a (ly_procs y)" and n: "la_total ?a = n"
    using lsteps_inv [OF assms] by (auto simp: leaseInv_def)
  have sh: "shared n (la_free ?a) (la_leasedBy ?a)" using q n by (simp add: queueInv_def)
  have h: "la_leasedBy ?a s = Some p" if "ly_procs y i = Some (s, Holding p)" for i s p using holder [OF q that] by simp
  have "set p \<inter> set r = {}" if "ly_procs y i = Some (s, Holding p)" "ly_procs y j = Some (t, Holding r)" "i \<noteq> j" for i s p j t r
    using holders_disjoint [of y] lsteps_inv [OF assms] that by blast
  moreover have "distinct p \<and> set p \<subseteq> {0..<n} - la_free ?a" if "ly_procs y i = Some (s, Holding p)" for i s p
    using sharedD(1,2,3) [OF sh] h [OF that] ranI [of "la_leasedBy ?a" s p] by blast
  moreover have "la_free ?a = {0..<n}" if "ly_procs y = Map.empty"
  proof -
    have "la_leasedBy ?a = Map.empty" using q that unfolding queueInv_def by fastforce
    then show ?thesis using sharedD(1) [OF sh] by simp
  qed
  ultimately show ?thesis using shared_count [OF sh] n unfolding LeasedCount_def by blast
qed

theorem lease_exclusive_witness:
  "set [0] \<subseteq> {0..<2} - la_free (ly_alloc runHoldWait) \<and> LeasedCount (ly_alloc runHoldWait) = 1"
  using lease_exclusive [OF runHoldWait_reached] by (simp add: runHoldWait_eq)

text \<open>C30.
  Nobody is left waiting. In every reachable state the queue holds exactly the calls that wait
  without a grant, its head asks for more partitions than are free, and then some call has
  a lease that it will return; and whenever partitions come free, the queue is served from its
  front, each served call receiving exactly the number it asked for, nobody being overtaken.
\<close>

theorem lease_queue_progress:
  assumes "lstep\<^sup>*\<^sup>* (freshSystem n) y"
  shows "(\<forall>i. i \<in> lw_id ` set (la_queue (ly_alloc y)) \<longleftrightarrow> (\<exists>s. ly_procs y i = Some (s, Waiting)) \<and> la_grants (ly_alloc y) i = None) \<and>
    (la_queue (ly_alloc y) \<noteq> [] \<longrightarrow> card (la_free (ly_alloc y)) < lw_count (hd (la_queue (ly_alloc y))) \<and>
       (\<exists>i s st p. ly_procs y i = Some (s, st) \<and> leaseOf (la_grants (ly_alloc y)) i st = Some p)) \<and>
    (\<forall>iter free. anyOrder iter \<and> finite free \<longrightarrow>
       (let a = serveQueueLocked iter ((ly_alloc y)\<lparr>la_free := free\<rparr>) in
        \<exists>k. la_queue a = drop k (la_queue (ly_alloc y)) \<and>
         (\<forall>w. w \<in> set (take k (la_queue (ly_alloc y))) \<longrightarrow> (\<exists>p. la_grants a (lw_id w) = Some p \<and> length p = lw_count w)) \<and>
         (\<forall>i. i \<notin> lw_id ` set (take k (la_queue (ly_alloc y))) \<longrightarrow> la_grants a i = la_grants (ly_alloc y) i)))"
proof -
  let ?a = "ly_alloc y"
  have q: "queueInv (la_queue ?a) ?a (ly_procs y)" and sv: "served ?a" and n: "la_total ?a = n"
    using lsteps_inv [OF assms] by (auto simp: leaseInv_def)
  have sh: "shared n (la_free ?a) (la_leasedBy ?a)" using q n by (simp add: queueInv_def)
  have ids: "distinct (map lw_id (la_queue ?a))" using q by (simp add: queueInv_def)
  have "i \<in> lw_id ` set (la_queue ?a) \<longleftrightarrow> (\<exists>s. ly_procs y i = Some (s, Waiting)) \<and> la_grants ?a i = None" for i
  proof
    assume "i \<in> lw_id ` set (la_queue ?a)"
    then obtain w where "w \<in> set (la_queue ?a)" "i = lw_id w" by (elim imageE)
    then show "(\<exists>s. ly_procs y i = Some (s, Waiting)) \<and> la_grants ?a i = None" using queueInvD(7,8) [OF q] by simp
  next
    assume "(\<exists>s. ly_procs y i = Some (s, Waiting)) \<and> la_grants ?a i = None"
    then show "i \<in> lw_id ` set (la_queue ?a)" using queueInvD(10) [OF q] by (elim conjE exE)
  qed
  moreover have "card (la_free ?a) < lw_count (hd (la_queue ?a)) \<and>
      (\<exists>i s st p. ly_procs y i = Some (s, st) \<and> leaseOf (la_grants ?a) i st = Some p)" if "la_queue ?a \<noteq> []"
  proof -
    obtain w r where w: "la_queue ?a = w # r" using \<open>la_queue ?a \<noteq> []\<close> by (meson neq_Nil_conv)
    then have c: "card (la_free ?a) < lw_count w" "lw_count w \<le> n" using sv q n by (auto simp: served_def queueInv_def)
    have "la_leasedBy ?a \<noteq> Map.empty" using c sharedD(1) [OF sh] by auto
    then obtain s p where "la_leasedBy ?a s = Some p" by fastforce
    moreover then obtain i st where "ly_procs y i = Some (s, st)" using queueInvD(4) [OF q] by blast
    ultimately have "ly_procs y i = Some (s, st) \<and> leaseOf (la_grants ?a) i st = Some p" using queueInvD(3) [OF q] by simp
    then show ?thesis using c w by auto
  qed
  moreover have "let a = serveQueueLocked iter (?a\<lparr>la_free := free\<rparr>) in
      \<exists>k. la_queue a = drop k (la_queue ?a) \<and>
        (\<forall>w. w \<in> set (take k (la_queue ?a)) \<longrightarrow> (\<exists>p. la_grants a (lw_id w) = Some p \<and> length p = lw_count w)) \<and>
        (\<forall>i. i \<notin> lw_id ` set (take k (la_queue ?a)) \<longrightarrow> la_grants a i = la_grants ?a i)"
    if "anyOrder iter" "finite free" for iter free
    using serveLoop_fifo [OF that(1) _ ids, of "?a\<lparr>la_free := free\<rparr>"] that(2) by (simp add: serveQueueLocked_def Let_def)
  ultimately show ?thesis by simp
qed

theorem lease_queue_progress_witness:
  "(\<exists>i s st p. ly_procs runHoldWait i = Some (s, st) \<and> leaseOf (la_grants (ly_alloc runHoldWait)) i st = Some p) \<and>
   card (la_free (ly_alloc runHoldWait)) < lw_count (hd (la_queue (ly_alloc runHoldWait)))"
  using lease_queue_progress [OF runHoldWait_reached] by (simp add: runHoldWait_eq)

text \<open>
  The allocator relies on its callers not to wait twice under one name: the check for a lease
  that is already held does not look at the queue. Two queued calls of one session are both
  served, the second overwrites the first one's entry, and the first one's partitions
  are never freed again.
\<close>

lemma duplicate_waiters_leak:
  "la_free (ReleaseLease sorted_list_of_set s (serveQueueLocked sorted_list_of_set
      ((newLeaseAllocator 2)\<lparr>la_queue := [\<lparr>lw_id = 0, lw_sessionID = s, lw_count = 1\<rparr>, \<lparr>lw_id = 1, lw_sessionID = s, lw_count = 1\<rparr>]\<rparr>))) = {1}"
proof -
  have "{0..<2::nat} = {0, 1}" "sorted_list_of_set {0, 1::nat} = [0, 1]" by auto
  then show ?thesis
    by (simp add: newLeaseAllocator_def serveQueueLocked_def takeLocked_def ReleaseLease_def Let_def insert_Diff_if)
qed

end
