(* ===== verification/Sharding.thy ===== *)
theory Sharding
  imports Topics
begin

text \<open>
  How the bot-fleet-controller cuts a scenario into the workloads of its workers
  (\<open>runner.go\<close>) and routes them to the leased partitions (\<open>producer.go\<close>): the number of
  workers, the targets and ports of a submission, the workload specs, and the messages.
  Operations on \<open>int\<close>, \<open>uint32\<close> and \<open>uint64\<close> wrap as the machine's do; a panic is \<open>None\<close>.
\<close>

section \<open>The number of workers\<close>

definition go_div :: "int \<Rightarrow> int \<Rightarrow> int" where
  "go_div a b = sgn a * sgn b * (\<bar>a\<bar> div \<bar>b\<bar>)"

definition DefaultMaxTasksPerWorker :: int where
  "DefaultMaxTasksPerWorker = 1000"

definition computeWorkerCount :: "int \<Rightarrow> int \<Rightarrow> u32" where
  "computeWorkerCount totalTasks maxTasksPerWorker =
     (if totalTasks \<le> 0 then 1
      else let m = (if maxTasksPerWorker \<le> 0 then DefaultMaxTasksPerWorker else maxTasksPerWorker) in
        word_of_int (go_div (int64 (word_of_int (totalTasks + m - 1))) m))"

definition totalTargetRPS :: "TaskSpec list \<Rightarrow> u64" where
  "totalTargetRPS specs = foldl (\<lambda>t s. t + ucast (TargetRPS s)) 0 specs"

definition computeWorkerCountForLoad :: "int \<Rightarrow> u64 \<Rightarrow> int \<Rightarrow> u64 \<Rightarrow> u32" where
  "computeWorkerCountForLoad totalTasks totalRPS maxTasksPerWorker workerRPSCapacity =
     (let byTasks = computeWorkerCount totalTasks maxTasksPerWorker in
      if workerRPSCapacity = 0 \<or> totalRPS = 0 then byTasks
      else let byRate = (totalRPS + workerRPSCapacity - 1) div workerRPSCapacity in
        if byRate > ucast byTasks then ucast byRate else byTasks)"

section \<open>Targets and ports\<close>

record SubmissionInfo =
  si_SubmissionID :: string
  si_ContestantID :: string
  si_Protocol :: string
  si_Port :: int
  si_ImageRef :: string

definition submissionTargets :: "SubmissionInfo \<Rightarrow> TargetSpec list" where
  "submissionTargets sub =
     map (\<lambda>p. \<lparr>ts_Protocol = p, ts_Port = PortForProtocol p\<rparr>)
       (case ParseProtocols (si_Protocol sub) of Inl _ \<Rightarrow> [si_Protocol sub] | Inr parts \<Rightarrow> parts)"

fun portLoop :: "int list \<Rightarrow> TargetSpec list \<Rightarrow> int list" where
  "portLoop ports [] = ports"
| "portLoop ports (t # ts) = (let p = uint (ts_Port t) in
     portLoop (if p \<in> set ports then ports else ports @ [p]) ts)"

definition submissionPorts :: "SubmissionInfo \<Rightarrow> int list" where
  "submissionPorts sub = portLoop [] (submissionTargets sub)"

section \<open>Workload specs\<close>

record RunConfig =
  rc_GlobalSeed :: u64
  rc_FIXVersion :: string
  rc_ConnectTimeoutMS :: u64
  rc_WriteTimeoutMS :: u64
  rc_MaxTasksPerWorker :: int
  rc_WorkerRPSCapacity :: u64

text \<open>The loop over the tasks; \<open>k\<close> is the number of targets and \<open>i\<close> the index of the next task.\<close>

fun shardTasks :: "nat \<Rightarrow> u32 \<Rightarrow> nat \<Rightarrow> TaskSpec list \<Rightarrow> TaskSpec list list \<Rightarrow> TaskSpec list list option" where
  "shardTasks k w i [] acc = Some acc"
| "shardTasks k w i (ts # rest) acc =
     (if w = 0 then None
      else let shard = unat ((of_nat i :: u32) mod w) in
        shardTasks k w (Suc i) rest (acc[shard := acc ! shard @ [ts\<lparr>TargetIdx := of_nat (i mod k)\<rparr>]]))"

text \<open>\<open>now i\<close> is the clock when the spec of worker \<open>i\<close> is stamped, \<open>host\<close> the slot's endpoint.\<close>

definition buildWorkloadSpecs ::
  "RunConfig \<Rightarrow> (nat \<Rightarrow> u64) \<Rightarrow> string \<Rightarrow> string \<Rightarrow> string \<Rightarrow> SubmissionInfo \<Rightarrow> TaskSpec list \<Rightarrow> u32 \<Rightarrow> u32 \<Rightarrow> WorkloadSpec list option" where
  "buildWorkloadSpecs cfg now sessionID submissionID host sub tasks workerCount orderBand =
     (let targets = submissionTargets sub; legacyTarget = hd targets in
      map_option (\<lambda>tasksByWorker.
        map (\<lambda>i. \<lparr>w_SessionID = sessionID, w_SubmissionID = submissionID, w_ContestantID = si_ContestantID sub,
            w_TargetHost = host, w_TargetPort = ts_Port legacyTarget, w_Protocol = ts_Protocol legacyTarget,
            w_Targets = targets, w_WorkerIndex = of_nat i, w_WorkerCount = workerCount,
            w_GlobalSeed = rc_GlobalSeed cfg, w_FIXVersion = rc_FIXVersion cfg,
            w_ConnectTimeoutMS = rc_ConnectTimeoutMS cfg, w_WriteTimeoutMS = rc_WriteTimeoutMS cfg,
            w_PublishedAtUnixNS = now i, w_OrderBand = orderBand, w_Tasks = tasksByWorker ! i\<rparr>)
          [0..<unat workerCount])
        (shardTasks (length targets) workerCount 0 tasks (replicate (unat workerCount) [])))"

section \<open>Messages\<close>

text \<open>
  A message of the writer: its key \<open>session:worker\<close>, the spec it carries as payload, and the
  partition in \<open>WriterData\<close>.
\<close>

datatype workloadKey = WorkloadKey string u32

record workloadMessage =
  m_Key :: workloadKey
  m_Value :: WorkloadSpec
  m_WriterData :: "int option"

definition buildWorkloadMessages :: "WorkloadSpec list \<Rightarrow> int list \<Rightarrow> workloadMessage list" where
  "buildWorkloadMessages specs leases =
     map (\<lambda>i. \<lparr>m_Key = WorkloadKey (w_SessionID (specs ! i)) (w_WorkerIndex (specs ! i)),
              m_Value = specs ! i, m_WriterData = Some (leases ! i)\<rparr>) [0..<length specs]"

text \<open>The hash balancer of the Kafka library is the argument \<open>fallback\<close>.\<close>

definition Balance :: "(workloadMessage \<Rightarrow> int list \<Rightarrow> int) \<Rightarrow> workloadMessage \<Rightarrow> int list \<Rightarrow> int" where
  "Balance fallback msg partitions = (case m_WriterData msg of
     None \<Rightarrow> fallback msg partitions
   | Some leased \<Rightarrow> if leased \<in> set partitions then leased else leased)"

datatype 'e publishErr = LeaseMismatch nat nat | WriteFailed 'e

text \<open>\<open>write\<close> is the Kafka writer: it stores the messages or reports an error.\<close>

definition PublishWorkloadSpec ::
  "(workloadMessage list \<Rightarrow> 'e option) \<Rightarrow> bool \<Rightarrow> WorkloadSpec list \<Rightarrow> int list \<Rightarrow> 'e publishErr option \<times> workloadMessage list" where
  "PublishWorkloadSpec write noop specs leases =
     (if noop then (None, [])
      else if length leases \<noteq> length specs then (Some (LeaseMismatch (length leases) (length specs)), [])
      else let msgs = buildWorkloadMessages specs leases in (map_option WriteFailed (write msgs), msgs))"

section \<open>Round-robin\<close>

definition stamp :: "nat \<Rightarrow> TaskSpec list \<Rightarrow> nat \<Rightarrow> TaskSpec" where
  "stamp k tasks j = (tasks ! j)\<lparr>TargetIdx := of_nat (j mod k)\<rparr>"

definition shardOf :: "nat \<Rightarrow> nat \<Rightarrow> nat \<Rightarrow> nat list" where
  "shardOf w n i = filter (\<lambda>j. j mod w = i) [0..<n]"

lemma shardTasks_eq:
  assumes "w \<noteq> 0" "i + length ts < 2 ^ 32" "length acc = unat w" "i \<le> n" "ts = drop i tasks" "n = length tasks"
    "\<And>s. s < unat w \<Longrightarrow> acc ! s = map (stamp k tasks) (shardOf (unat w) i s)"
  shows "shardTasks k w i ts acc = Some (map (\<lambda>s. map (stamp k tasks) (shardOf (unat w) n s)) [0..<unat w])"
  using assms
proof (induction ts arbitrary: i acc)
  case Nil
  then have "i = n" by simp
  then show ?case using Nil.prems(3,7) by (simp add: list_eq_iff_nth_eq)
next
  case (Cons t ts)
  let ?s = "unat ((of_nat i :: u32) mod w)"
  have i: "i < n" using Cons.prems(5,6) by (metis drop_all list.distinct(1) not_le)
  have s: "?s = i mod unat w" using Cons.prems(2) by (simp add: unat_mod unat_of_nat take_bit_nat_eq_self)
  have t: "tasks ! i = t" "ts = drop (Suc i) tasks"
    using Cons.prems(5,6) i by (metis Cons_nth_drop_Suc list.inject)+
  have "(acc[?s := acc ! ?s @ [t\<lparr>TargetIdx := of_nat (i mod k)\<rparr>]]) ! v = map (stamp k tasks) (shardOf (unat w) (Suc i) v)"
    if "v < unat w" for v
    using Cons.prems(3,7) that s t by (auto simp: shardOf_def stamp_def nth_list_update)
  then show ?case
    using Cons.IH [of "Suc i" "acc[?s := acc ! ?s @ [t\<lparr>TargetIdx := of_nat (i mod k)\<rparr>]]"] Cons.prems(1-3,6) i t
    by (simp add: Let_def)
qed

lemma div_unique_nat: "x = r + q * w \<Longrightarrow> r < w \<Longrightarrow> x div w = (q :: nat)"
  by simp

lemma shardOf_length: "0 < w \<Longrightarrow> i < w \<Longrightarrow> length (shardOf w n i) = (n + w - 1 - i) div w"
proof (induction n)
  case 0
  then show ?case by (simp add: shardOf_def)
next
  case (Suc n)
  obtain q r where n: "n = q * w + r" "r < w" using mod_less_divisor [OF Suc.prems(1), of n] by (metis div_mult_mod_eq)
  then have r: "n mod w = r" by simp
  note d = div_unique_nat
  consider "r = i" | "r < i" | "i < r" by linarith
  then have "(n + w - i) div w = (if r = i then Suc q else (n + w - 1 - i) div w) \<and> (r = i \<longrightarrow> (n + w - 1 - i) div w = q)"
  proof cases
    case 1
    then show ?thesis using d [of "n + w - i" 0 "Suc q" w] d [of "n + w - 1 - i" "w - 1" q w] n Suc.prems by (simp add: ac_simps)
  next
    case 2
    then show ?thesis using d [of "n + w - i" "r + w - i" q w] d [of "n + w - 1 - i" "r + w - 1 - i" q w] n Suc.prems by (simp add: ac_simps)
  next
    case 3
    then have "n + w - i = (r - i) + Suc q * w" "n + w - 1 - i = (r - 1 - i) + Suc q * w" "r - i < w" "r - 1 - i < w"
      using n by (simp_all add: less_imp_diff_less)
    then show ?thesis using d [of "n + w - i" "r - i" "Suc q" w] d [of "n + w - 1 - i" "r - 1 - i" "Suc q" w] 3 by simp
  qed
  then show ?case using Suc r by (auto simp: shardOf_def)
qed

lemma shards_mset:
  "(\<And>x. x \<in> set xs \<Longrightarrow> g x < w) \<Longrightarrow> (\<Sum>i<w. mset (filter (\<lambda>x. g x = i) xs)) = mset xs" for g :: "'a \<Rightarrow> nat"
proof (induction xs)
  case (Cons x xs)
  have "(\<Sum>i<w. mset (filter (\<lambda>x. g x = i) (x # xs))) =
      (\<Sum>i<w. (if g x = i then {#x#} else {#}) + mset (filter (\<lambda>x. g x = i) xs))"
    by (intro sum.cong) auto
  then show ?case using Cons by (simp add: sum.distrib sum.delta)
qed simp

lemma mset_concat_upt: "mset (concat (map h [0..<w])) = (\<Sum>i<w. mset (h i))"
  by (induction w) (simp_all add: add.commute)

lemma image_mset_lessThan: "image_mset f (\<Sum>i<w. h i) = (\<Sum>i<(w::nat). image_mset f (h i))"
  by (induction w) simp_all

lemma submissionTargets_length: "0 < length (submissionTargets sub) \<and> length (submissionTargets sub) \<le> 3"
proof (cases "ParseProtocols (si_Protocol sub)")
  case (Inr parts)
  then have p: "parts \<noteq> []" "distinct parts" "set parts \<subseteq> {''FIX'', ''REST'', ''WS''}" using ParseProtocols_sound by blast+
  have "length parts = card (set parts)" using p(2) by (simp add: distinct_card)
  also have "\<dots> \<le> card {''FIX'', ''REST'', ''WS''}" using p(3) by (intro card_mono) auto
  also have "\<dots> = 3" by simp
  finally show ?thesis using Inr p(1) by (simp add: submissionTargets_def)
qed (simp add: submissionTargets_def)

lemma portLoop_ports:
  "distinct ports \<Longrightarrow> distinct (portLoop ports ts) \<and> set (portLoop ports ts) = set ports \<union> (\<lambda>t. uint (ts_Port t)) ` set ts"
  by (induction ports ts rule: portLoop.induct) (auto simp: Let_def)

lemma submissionPorts_exact:
  "distinct (submissionPorts sub) \<and> set (submissionPorts sub) = (\<lambda>t. uint (ts_Port t)) ` set (submissionTargets sub)"
  using portLoop_ports [of "[]"] by (simp add: submissionPorts_def)

lemma buildWorkloadSpecs_shards:
  assumes "w \<noteq> 0" "length tasks < 2 ^ 32"
    "specs = map (\<lambda>i. \<lparr>w_SessionID = sessionID, w_SubmissionID = submissionID, w_ContestantID = si_ContestantID sub,
       w_TargetHost = host, w_TargetPort = ts_Port (hd (submissionTargets sub)), w_Protocol = ts_Protocol (hd (submissionTargets sub)),
       w_Targets = submissionTargets sub, w_WorkerIndex = of_nat i, w_WorkerCount = w,
       w_GlobalSeed = rc_GlobalSeed cfg, w_FIXVersion = rc_FIXVersion cfg,
       w_ConnectTimeoutMS = rc_ConnectTimeoutMS cfg, w_WriteTimeoutMS = rc_WriteTimeoutMS cfg,
       w_PublishedAtUnixNS = now i, w_OrderBand = band,
       w_Tasks = map (stamp (length (submissionTargets sub)) tasks) (shardOf (unat w) (length tasks) i)\<rparr>) [0..<unat w]"
  shows "buildWorkloadSpecs cfg now sessionID submissionID host sub tasks w band = Some specs"
proof -
  have "shardTasks (length (submissionTargets sub)) w 0 tasks (replicate (unat w) []) =
      Some (map (\<lambda>s. map (stamp (length (submissionTargets sub)) tasks) (shardOf (unat w) (length tasks) s)) [0..<unat w])"
    by (rule shardTasks_eq [where tasks = tasks]) (use assms(1,2) in \<open>auto simp: shardOf_def\<close>)
  then show ?thesis by (simp add: buildWorkloadSpecs_def Let_def assms(3))
qed

lemma stamp_target: "0 < k \<Longrightarrow> k \<le> 3 \<Longrightarrow> unat (TargetIdx (stamp k tasks j)) = j mod k"
proof -
  assume k: "0 < k" "k \<le> 3"
  then have "j mod k < 3" using mod_less_divisor [of k j] by linarith
  then show ?thesis by (simp add: stamp_def unat_of_nat take_bit_nat_eq_self)
qed

section \<open>Properties of the workloads\<close>

text \<open>C31.
  Sharding loses and duplicates nothing. For a positive number of workers the specs exist, one
  for each worker index in order; worker \<open>i\<close> gets exactly the tasks whose index is \<open>i\<close> modulo
  the number of workers, in scenario order, changed in nothing but the target index; together
  the workers have every task exactly once; and every task's target is in the spec's
  target table, on a port the sandbox pod was told to open, each port being listed once.
\<close>

theorem shards_partition_tasks:
  assumes "w \<noteq> 0" "length tasks < 2 ^ 32"
  shows "\<exists>specs. buildWorkloadSpecs cfg now sessionID submissionID host sub tasks w band = Some specs \<and>
    map w_WorkerIndex specs = map of_nat [0..<unat w] \<and>
    map w_Tasks specs = map (\<lambda>i. map (stamp (length (submissionTargets sub)) tasks) (shardOf (unat w) (length tasks) i)) [0..<unat w] \<and>
    mset (concat (map w_Tasks specs)) = mset (map (stamp (length (submissionTargets sub)) tasks) [0..<length tasks]) \<and>
    distinct (submissionPorts sub) \<and>
    list_all (\<lambda>s. list_all (\<lambda>t. unat (TargetIdx t) < length (ResolvedTargets s) \<and>
      uint (ts_Port (ResolvedTargets s ! unat (TargetIdx t))) \<in> set (submissionPorts sub)) (w_Tasks s)) specs"
proof -
  let ?k = "length (submissionTargets sub)" let ?n = "length tasks"
  obtain specs where b: "buildWorkloadSpecs cfg now sessionID submissionID host sub tasks w band = Some specs"
    and t: "map w_Tasks specs = map (\<lambda>i. map (stamp ?k tasks) (shardOf (unat w) ?n i)) [0..<unat w]"
    and i: "map w_WorkerIndex specs = map of_nat [0..<unat w]"
    and r: "\<And>s. s \<in> set specs \<Longrightarrow> w_Targets s = submissionTargets sub"
    using buildWorkloadSpecs_shards [OF assms refl] by fastforce
  note k = submissionTargets_length [of sub]
  have w: "0 < unat w" using assms(1) by (simp add: unat_gt_0)
  have "mset (concat (map w_Tasks specs)) = (\<Sum>i<unat w. image_mset (stamp ?k tasks) (mset (shardOf (unat w) ?n i)))"
    unfolding t by (simp add: mset_concat_upt)
  also have "\<dots> = image_mset (stamp ?k tasks) (\<Sum>i<unat w. mset (shardOf (unat w) ?n i))"
    by (simp add: image_mset_lessThan)
  also have "\<dots> = mset (map (stamp ?k tasks) [0..<?n])" using shards_mset [of "[0..<?n]" "\<lambda>j. j mod unat w" "unat w"] w by (simp add: shardOf_def)
  finally have m: "mset (concat (map w_Tasks specs)) = mset (map (stamp ?k tasks) [0..<?n])" .
  have "unat (TargetIdx u) < length (ResolvedTargets s) \<and> uint (ts_Port (ResolvedTargets s ! unat (TargetIdx u))) \<in> set (submissionPorts sub)"
    if s: "s \<in> set specs" and u: "u \<in> set (w_Tasks s)" for s u
  proof -
    have "w_Tasks s \<in> set (map w_Tasks specs)" using s by simp
    then obtain j where "u = stamp ?k tasks j" using u unfolding t by auto
    then have "unat (TargetIdx u) < ?k" using stamp_target k by simp
    then show ?thesis using r [OF s] k submissionPorts_exact [of sub] by (simp add: ResolvedTargets_def)
  qed
  then show ?thesis using b t i m submissionPorts_exact [of sub] by (auto simp: list_all_iff)
qed

definition demoShardTask :: "u32 \<Rightarrow> u32 \<Rightarrow> TaskSpec" where
  "demoShardTask i rps = \<lparr>TaskID = i, Profile = ''hft'', TargetRPS = rps, StartOffsetNs = 0, DurationNs = 1000, MarketPct = 10,
     CancelPct = 5, ReplacePct = 5, TargetIdx = 0, SMPIDCount = 0\<rparr>"

definition demoSub :: SubmissionInfo where
  "demoSub = \<lparr>si_SubmissionID = ''sub'', si_ContestantID = ''c'', si_Protocol = ''REST,FIX'', si_Port = 8080, si_ImageRef = ''img''\<rparr>"

definition demoConfig :: RunConfig where
  "demoConfig = \<lparr>rc_GlobalSeed = 1, rc_FIXVersion = ''FIX.4.4'', rc_ConnectTimeoutMS = 1000, rc_WriteTimeoutMS = 1000,
     rc_MaxTasksPerWorker = 2, rc_WorkerRPSCapacity = 100\<rparr>"

theorem shards_partition_tasks_witness:
  "\<exists>specs. buildWorkloadSpecs demoConfig (\<lambda>_. 7) ''s'' ''sub'' ''h'' demoSub [demoShardTask 0 10, demoShardTask 1 10, demoShardTask 2 10] 2 0 = Some specs \<and>
     map (map TaskID) (map w_Tasks specs) = [[0, 2], [1]]"
proof -
  let ?ts = "[demoShardTask 0 10, demoShardTask 1 10, demoShardTask 2 10]"
  have h: "(2 :: u32) \<noteq> 0" "length ?ts < 2 ^ 32" by simp_all
  obtain specs where b: "buildWorkloadSpecs demoConfig (\<lambda>_. 7) ''s'' ''sub'' ''h'' demoSub ?ts 2 0 = Some specs"
    and t: "map w_Tasks specs = map (\<lambda>i. map (stamp (length (submissionTargets demoSub)) ?ts) (shardOf (unat (2 :: u32)) (length ?ts) i)) [0..<unat (2 :: u32)]"
    using shards_partition_tasks [OF h, of demoConfig "\<lambda>_. 7" "''s''" "''sub''" "''h''" demoSub 0] by blast
  have "map (map TaskID) (map w_Tasks specs) = [[0, 2], [1]]" unfolding t by code_simp
  with b show ?thesis by (intro exI [of _ specs] conjI)
qed

subsection \<open>Sizes\<close>

lemma go_div_pos: "0 \<le> a \<Longrightarrow> 0 < b \<Longrightarrow> go_div a b = a div b"
  by (cases "a = 0") (simp_all add: go_div_def sgn_if)

lemma int64_id: "- (2 ^ 63) \<le> x \<Longrightarrow> x < 2 ^ 63 \<Longrightarrow> int64 (word_of_int x) = x"
  unfolding int64_def by (subst signed_of_int) (simp add: signed_take_bit_int_eq_self)

lemma computeWorkerCount_ceil:
  assumes "0 < n" "n < 2 ^ 32" "0 < m" "n + m \<le> 2 ^ 63"
  shows "uint (computeWorkerCount n m) = (n + m - 1) div m"
proof -
  have "(n + m - 1) div m = (n - 1) div m + 1" using assms(3) div_add_self2 [of m "n - 1"] by (simp add: algebra_simps)
  moreover have "(n - 1) div m \<le> n - 1" using zdiv_mono2 [of "n - 1" 1 m] assms(1,3) by simp
  ultimately have d: "(n + m - 1) div m \<le> n" "0 \<le> (n + m - 1) div m"
    using assms(1,3) by (simp_all add: pos_imp_zdiv_nonneg_iff)
  have "int64 (word_of_int (n + m - 1)) = n + m - 1"
    using assms by (intro int64_id) linarith+
  then show ?thesis using assms d
    by (simp add: computeWorkerCount_def Let_def go_div_pos uint_word_of_int take_bit_int_eq_self)
qed

lemma byRate_ceil:
  assumes "(C :: u64) \<noteq> 0" "(R :: u64) \<noteq> 0" "uint R + uint C \<le> 2 ^ 64"
  shows "uint ((R + C - 1) div C) = (uint R + uint C - 1) div uint C"
proof -
  have p: "0 < uint C" "0 < uint R" using assms(1,2) by (simp_all add: word_neq_0_conv word_less_def)
  have "uint (R + C - 1) = uint R + uint C - 1"
  proof -
    have "R + C - 1 = word_of_int (uint R + uint C - 1)" by simp
    then show ?thesis using p assms(3) by (simp only: uint_word_of_int) (simp add: mod_pos_pos_trivial)
  qed
  then show ?thesis by (simp add: uint_div)
qed

lemma computeWorkerCountForLoad_covers:
  assumes "0 < n" "n < 2 ^ 32" "0 < m" "n + m \<le> 2 ^ 63" "uint R + uint C \<le> 2 ^ 64" "uint R \<le> uint C * (2 ^ 32 - 1) \<or> C = 0"
  shows "n \<le> uint (computeWorkerCountForLoad n R m C) * m \<and> 0 < uint (computeWorkerCountForLoad n R m C) \<and>
    (C = 0 \<or> uint R \<le> uint (computeWorkerCountForLoad n R m C) * uint C)"
proof -
  let ?t = "computeWorkerCount n m" let ?w = "computeWorkerCountForLoad n R m C"
  have ceil: "x \<le> ((x + y - 1) div y) * y" if "0 < y" for x y :: int
    using pos_mod_bound [OF that, of "x + y - 1"] div_mult_mod_eq [of "x + y - 1" y] by linarith
  have div_less: "x div y < z" if "0 < y" "x < y * z" for x y z :: int
  proof (rule ccontr)
    assume "\<not> x div y < z"
    then have "z * y \<le> x div y * y" using \<open>0 < y\<close> by (intro mult_right_mono) auto
    then show False using \<open>x < y * z\<close> pos_mod_sign [OF \<open>0 < y\<close>, of x] div_mult_mod_eq [of x y] mult.commute [of y z] by linarith
  qed
  have t: "uint ?t = (n + m - 1) div m" using computeWorkerCount_ceil [OF assms(1-4)] .
  have tm: "n \<le> uint ?t * m" unfolding t using ceil [OF assms(3)] .
  have t0: "0 < uint ?t" unfolding t using assms(1,3) by (simp add: pos_imp_zdiv_pos_iff)
  show ?thesis
  proof (cases "C = 0 \<or> R = 0")
    case True
    then have "?w = ?t" by (simp add: computeWorkerCountForLoad_def Let_def)
    then show ?thesis using True tm t0 by auto
  next
    case False
    let ?r = "(R + C - 1) div C"
    have r: "uint ?r = (uint R + uint C - 1) div uint C" using byRate_ceil False assms(5) by blast
    have C: "0 < uint C" using False by (simp add: word_neq_0_conv word_less_def)
    have rC: "uint R \<le> uint ?r * uint C" unfolding r using ceil [OF C] .
    have "uint R + uint C - 1 < uint C * 2 ^ 32" using assms(6) False C by (simp add: right_diff_distrib)
    then have "uint ?r < 2 ^ 32" unfolding r using div_less [OF C] by simp
    then have u: "uint (ucast ?r :: u32) = uint ?r" by (simp add: unsigned_ucast_eq take_bit_int_eq_self)
    have g: "ucast ?t < ?r \<longleftrightarrow> uint ?t < uint ?r" using unsigned_less [of ?t, where 'a = int] by (simp add: word_less_def unsigned_ucast_eq take_bit_int_eq_self)
    have w: "?w = (if uint ?t < uint ?r then ucast ?r else ?t)" using False g by (simp add: computeWorkerCountForLoad_def Let_def)
    show ?thesis
    proof (cases "uint ?t < uint ?r")
      case True
      then have "uint ?t * m \<le> uint ?r * m" using assms(3) by (intro mult_right_mono) auto
      then show ?thesis using True w u rC tm t0 by simp
    next
      case f: False
      then have "uint ?r * uint C \<le> uint ?t * uint C" using C by (intro mult_right_mono) auto
      then show ?thesis using f w rC tm t0 by simp
    qed
  qed
qed

lemma rps_foldl:
  "uint (acc :: u64) + (\<Sum>t\<leftarrow>ts. uint (TargetRPS t)) < 2 ^ 64 \<Longrightarrow>
     uint (foldl (\<lambda>t s. t + ucast (TargetRPS s)) acc ts) = uint acc + (\<Sum>t\<leftarrow>ts. uint (TargetRPS t))"
proof (induction ts arbitrary: acc)
  case (Cons t ts)
  have u: "uint (ucast (TargetRPS t) :: u64) = uint (TargetRPS t)"
    using unsigned_less [of "TargetRPS t", where 'a = int] by (simp add: unsigned_ucast_eq take_bit_int_eq_self)
  have s: "0 \<le> (\<Sum>t\<leftarrow>ts. uint (TargetRPS t))" by (intro sum_list_nonneg) auto
  have "uint (acc + ucast (TargetRPS t)) = uint acc + uint (TargetRPS t)"
    using uint_plus_simple_iff [of acc "ucast (TargetRPS t)"] Cons.prems u s no_olen_add [of acc "ucast (TargetRPS t)"] by auto
  then show ?case using Cons by simp
qed simp

lemma totalTargetRPS_sum:
  assumes "length ts < 2 ^ 32"
  shows "uint (totalTargetRPS ts) = (\<Sum>t\<leftarrow>ts. uint (TargetRPS t))"
proof -
  have "(\<Sum>t\<leftarrow>ts. uint (TargetRPS t)) \<le> (\<Sum>t\<leftarrow>ts. 2 ^ 32 - 1)"
  proof (intro sum_list_mono)
    fix t show "uint (TargetRPS t) \<le> 2 ^ 32 - 1" using unsigned_less [of "TargetRPS t", where 'a = int] by simp
  qed
  also have "\<dots> = int (length ts) * (2 ^ 32 - 1)" by (simp add: sum_list_triv)
  also have "\<dots> < 2 ^ 64" using assms by simp
  finally show ?thesis using rps_foldl [of 0 ts] by (simp add: totalTargetRPS_def)
qed

lemma shardOf_bounds:
  assumes "0 < w" "i < w"
  shows "n div w \<le> length (shardOf w n i) \<and> length (shardOf w n i) \<le> n div w + 1 \<and> (n \<le> w * m \<longrightarrow> length (shardOf w n i) \<le> m)"
proof -
  have "n div w \<le> (n + w - 1 - i) div w" using assms by (intro div_le_mono) simp
  moreover have "(n + w - 1 - i) div w \<le> (n + w) div w" by (intro div_le_mono) simp
  moreover have "(n + w - 1 - i) div w < Suc m" if "n \<le> w * m"
    using that assms by (subst div_less_iff_less_mult) (auto simp: mult.commute)
  moreover have "(n + w) div w = n div w + 1" using assms(1) by (metis add.commute div_add_self2 less_not_refl)
  ultimately show ?thesis using shardOf_length [OF assms, of n] by (auto simp: less_Suc_eq_le)
qed

text \<open>C32.
  The number of workers is enough for the tasks. Unless the arithmetic leaves its range, the
  workload that the controller builds for the number of workers it computes exists, gives no
  worker more than \<open>MaxTasksPerWorker\<close> tasks, balances the workers to within one task, and
  the workers together have the capacity for the scenario's total rate, which is computed
  without overflow.
\<close>

theorem worker_count_suffices:
  assumes "0 < length tasks" "length tasks < 2 ^ 32" "0 < m" "int (length tasks) + m \<le> 2 ^ 63"
    "(\<Sum>t\<leftarrow>tasks. uint (TargetRPS t)) + uint C \<le> 2 ^ 64"
    "C = 0 \<or> (\<Sum>t\<leftarrow>tasks. uint (TargetRPS t)) \<le> uint C * (2 ^ 32 - 1)"
    "w = computeWorkerCountForLoad (int (length tasks)) (totalTargetRPS tasks) m C"
  shows "\<exists>specs. buildWorkloadSpecs cfg now sessionID submissionID host sub tasks w band = Some specs \<and> length specs = unat w \<and>
    list_all (\<lambda>s. int (length (w_Tasks s)) \<le> m \<and> length tasks div unat w \<le> length (w_Tasks s) \<and>
      length (w_Tasks s) \<le> length tasks div unat w + 1) specs \<and>
    (C = 0 \<or> (\<Sum>t\<leftarrow>tasks. uint (TargetRPS t)) \<le> int (length specs) * uint C)"
proof -
  let ?n = "length tasks"
  note sums = totalTargetRPS_sum [OF assms(2)]
  have c: "int ?n \<le> uint w * m" "0 < uint w" "C = 0 \<or> (\<Sum>t\<leftarrow>tasks. uint (TargetRPS t)) \<le> uint w * uint C"
    using computeWorkerCountForLoad_covers [of "int ?n" m "totalTargetRPS tasks" C] assms sums by auto
  have w: "w \<noteq> 0" "uint w = int (unat w)" using c(2) by auto
  then have w3: "0 < unat w" by (simp add: unat_gt_0)
  have m: "int (nat m) = m" using assms(3) by simp
  have "int (unat w * nat m) = uint w * m" unfolding of_nat_mult m w(2) ..
  then have "int ?n \<le> int (unat w * nat m)" using c(1) by linarith
  then have le: "?n \<le> unat w * nat m" by (simp only: of_nat_le_iff)
  obtain specs where b: "buildWorkloadSpecs cfg now sessionID submissionID host sub tasks w band = Some specs"
    and t: "map w_Tasks specs = map (\<lambda>i. map (stamp (length (submissionTargets sub)) tasks) (shardOf (unat w) ?n i)) [0..<unat w]"
    using buildWorkloadSpecs_shards [OF w(1) assms(2) refl] by fastforce
  have len: "length specs = unat w" using arg_cong [OF t, of length] by simp
  have "int (length (w_Tasks s)) \<le> m \<and> ?n div unat w \<le> length (w_Tasks s) \<and> length (w_Tasks s) \<le> ?n div unat w + 1"
    if s: "s \<in> set specs" for s
  proof -
    have "w_Tasks s \<in> set (map w_Tasks specs)" using s by simp
    then obtain i where "i < unat w" "length (w_Tasks s) = length (shardOf (unat w) ?n i)" unfolding t by auto
    then show ?thesis using shardOf_bounds [OF w3, of i ?n "nat m"] le assms(3) by auto
  qed
  moreover have "C = 0 \<or> (\<Sum>t\<leftarrow>tasks. uint (TargetRPS t)) \<le> int (length specs) * uint C" using c(3) unfolding len w(2) .
  ultimately show ?thesis using b len by (auto simp: list_all_iff)
qed

theorem worker_count_suffices_witness:
  "\<exists>specs. buildWorkloadSpecs demoConfig (\<lambda>_. 7) ''s'' ''sub'' ''h'' demoSub [demoShardTask 0 150, demoShardTask 1 100, demoShardTask 2 50] 3 0 = Some specs \<and>
     list_all (\<lambda>s. length (w_Tasks s) \<le> 2) specs"
proof -
  let ?ts = "[demoShardTask 0 150, demoShardTask 1 100, demoShardTask 2 50]"
  have w: "3 = computeWorkerCountForLoad (int (length ?ts)) (totalTargetRPS ?ts) 2 100" by code_simp
  have "\<exists>specs. buildWorkloadSpecs demoConfig (\<lambda>_. 7) ''s'' ''sub'' ''h'' demoSub ?ts 3 0 = Some specs \<and> length specs = unat (3 :: u32) \<and>
    list_all (\<lambda>s. int (length (w_Tasks s)) \<le> 2 \<and> length ?ts div unat (3 :: u32) \<le> length (w_Tasks s) \<and>
      length (w_Tasks s) \<le> length ?ts div unat (3 :: u32) + 1) specs \<and>
    ((100 :: u64) = 0 \<or> (\<Sum>t\<leftarrow>?ts. uint (TargetRPS t)) \<le> int (length specs) * uint (100 :: u64))"
    by (rule worker_count_suffices [OF _ _ _ _ _ _ w]) (simp_all add: demoShardTask_def)
  then show ?thesis by (auto simp: list_all_iff)
qed

text \<open>C33.
  The rate ceiling holds for the session, not for a worker. A scenario with one task above one
  worker's capacity gets two workers or more, yet the first one still has to send the whole
  rate, and every other one gets a spec without tasks, which the bot-fleet's
  \<open>validate_spec\<close> refuses: no such worker reports ready.
\<close>

theorem rate_sizing_splits_no_task:
  assumes "0 < uint c" "uint c < uint (TargetRPS t)" "0 < m" "m < 2 ^ 62"
    "w = computeWorkerCountForLoad 1 (totalTargetRPS [t]) m c"
  shows "\<exists>specs. buildWorkloadSpecs cfg now sessionID submissionID host sub [t] w band = Some specs \<and> 2 \<le> length specs \<and>
    uint c < uint (totalTargetRPS (w_Tasks (hd specs))) \<and> list_all (\<lambda>s. w_Tasks s = []) (tl specs)"
proof -
  have r: "uint (totalTargetRPS [t]) = uint (TargetRPS t)" using totalTargetRPS_sum [of "[t]"] by simp
  have lt: "uint (TargetRPS t) < 2 ^ 32" using unsigned_less [of "TargetRPS t", where 'a = int] by simp
  have "1 * (2 ^ 32 - 1) \<le> uint c * (2 ^ 32 - 1)" using assms(1) by (intro mult_right_mono) auto
  then have "uint (TargetRPS t) \<le> uint c * (2 ^ 32 - 1)" using lt by simp
  then have "uint (TargetRPS t) \<le> uint w * uint c"
    using computeWorkerCountForLoad_covers [of 1 m "totalTargetRPS [t]" c] assms r lt by auto
  then have "uint w \<noteq> 0" "uint w \<noteq> 1" using assms(1,2) by auto
  then have "2 \<le> uint w" using unsigned_greater_eq [of w, where 'a = int] by linarith
  then have "2 \<le> unat w" by (metis nat_mono nat_numeral unat_eq_nat_uint)
  then have w: "w \<noteq> 0" "2 \<le> unat w" by auto
  obtain specs where b: "buildWorkloadSpecs cfg now sessionID submissionID host sub [t] w band = Some specs"
    and t: "map w_Tasks specs = map (\<lambda>i. map (stamp (length (submissionTargets sub)) [t]) (shardOf (unat w) 1 i)) [0..<unat w]"
    using buildWorkloadSpecs_shards [OF w(1), of "[t]"] by fastforce
  have len: "length specs = unat w" using arg_cong [OF t, of length] by simp
  have s: "w_Tasks (specs ! i) = map (stamp (length (submissionTargets sub)) [t]) (shardOf (unat w) 1 i)" if "i < unat w" for i
    using arg_cong [OF t, of "\<lambda>l. l ! i"] that len by simp
  have z: "shardOf (unat w) 1 i = (if i = 0 then [0] else [])" for i by (simp add: shardOf_def)
  have "hd specs = specs ! 0" using len w(2) by (cases specs) auto
  then have "uint (totalTargetRPS (w_Tasks (hd specs))) = uint (TargetRPS t)"
    using s [of 0] w(2) totalTargetRPS_sum [of "[stamp (length (submissionTargets sub)) [t] 0]"] z [of 0] by (simp add: stamp_def)
  moreover have "list_all (\<lambda>s. w_Tasks s = []) (tl specs)"
    unfolding list_all_length using s z len by (auto simp: nth_tl)
  ultimately show ?thesis using b len w(2) assms(2) by auto
qed

theorem rate_sizing_splits_no_task_witness:
  "\<exists>specs. buildWorkloadSpecs demoConfig (\<lambda>_. 7) ''s'' ''sub'' ''h'' demoSub [demoShardTask 0 250] 3 0 = Some specs \<and>
     list_all (\<lambda>s. w_Tasks s = []) (tl specs)"
proof -
  have w: "3 = computeWorkerCountForLoad 1 (totalTargetRPS [demoShardTask 0 250]) 2 100" by code_simp
  show ?thesis
    using rate_sizing_splits_no_task [OF _ _ _ _ w, of demoConfig "\<lambda>_. 7" "''s''" "''sub''" "''h''" demoSub 0]
    by (auto simp: demoShardTask_def)
qed

section \<open>Routing\<close>

lemma messages_routed:
  assumes "length leases = length specs"
  shows "map m_Value (buildWorkloadMessages specs leases) = specs"
    "map (\<lambda>msg. Balance fallback msg parts) (buildWorkloadMessages specs leases) = leases"
proof -
  show "map m_Value (buildWorkloadMessages specs leases) = specs" by (simp add: buildWorkloadMessages_def o_def map_nth)
  have "map (\<lambda>msg. Balance fallback msg parts) (buildWorkloadMessages specs leases) = map (\<lambda>i. leases ! i) [0..<length specs]"
    by (simp add: buildWorkloadMessages_def o_def Balance_def)
  then show "map (\<lambda>msg. Balance fallback msg parts) (buildWorkloadMessages specs leases) = leases"
    using map_nth [of leases] assms by simp
qed

text \<open>
  A workload goes to the partition its session leased. When the number of leases is
  that of the specs, exactly one message per spec is handed to the writer, in order, and
  whatever partitions the writer knows and whatever the hash would choose, the message of
  the \<open>i\<close>-th spec goes to the \<open>i\<close>-th lease; otherwise nothing is written and an error comes back.
\<close>

lemma workload_routed_to_lease:
  "(length leases = length specs \<longrightarrow>
      map m_Value (snd (PublishWorkloadSpec write False specs leases)) = specs \<and>
      map (\<lambda>msg. Balance fallback msg parts) (snd (PublishWorkloadSpec write False specs leases)) = leases) \<and>
   (length leases \<noteq> length specs \<longrightarrow>
      PublishWorkloadSpec write False specs leases = (Some (LeaseMismatch (length leases) (length specs)), []))"
proof (intro conjI impI)
  assume l: "length leases = length specs"
  then have "snd (PublishWorkloadSpec write False specs leases) = buildWorkloadMessages specs leases"
    by (simp add: PublishWorkloadSpec_def Let_def)
  then show "map m_Value (snd (PublishWorkloadSpec write False specs leases)) = specs"
    "map (\<lambda>msg. Balance fallback msg parts) (snd (PublishWorkloadSpec write False specs leases)) = leases"
    using messages_routed [OF l] by simp_all
qed (simp add: PublishWorkloadSpec_def)

end
