(* ===== verification/Runner.thy ===== *)
theory Runner
  imports Sharding "HOL-Library.AList"
begin

text \<open>
  The life of one benchmark session in the bot-fleet-controller: the session registry
  (\<open>session.go\<close>), the pre-scale gate (\<open>capacity.go\<close>), waiting for the sandbox slot
  (\<open>orchestrator/client.go\<close>), and \<open>Runner.Run\<close> with everything it calls (\<open>runner.go\<close>).

  A run is a function of an environment that holds the outcome of every call to another
  service, an error or a panic included. Its value is the trace of the effects in the order they
  happen, with the statuses handed to the producer, and the panic it ends in, if any. A panic ends
  the function it happens in; deferred calls run where the function that registered them is left,
  on a panic as well, and a deferred call may panic in turn. The lease allocator is code of the
  controller itself (theory \<open>Lease\<close>) and has no call that panics: \<open>Acquire\<close> returns leases or an error.
  Metrics and logging are left out.
\<close>

section \<open>The session registry\<close>

record Session_bf =
  ss_SessionID :: string
  ss_SubmissionID :: string
  ss_ContestantID :: string
  ss_RunGroupID :: string
  ss_WorkerCount :: u32
  ss_readyCh :: "ReadySignal list"

text \<open>The map from session ids to sessions, as a list without two sessions of one id.\<close>

type_synonym SessionManager = "Session_bf list"

definition NewSessionManager :: SessionManager where
  "NewSessionManager = []"

definition Get :: "SessionManager \<Rightarrow> string \<Rightarrow> Session_bf option" where
  "Get m sid = find (\<lambda>s. ss_SessionID s = sid) m"

definition Add :: "SessionManager \<Rightarrow> Session_bf \<Rightarrow> (Session_bf \<times> bool) \<times> SessionManager" where
  "Add m sess = (case Get m (ss_SessionID sess) of
     Some existing \<Rightarrow> ((existing, True), m)
   | None \<Rightarrow> ((sess, False), m @ [sess]))"

definition Drop :: "SessionManager \<Rightarrow> string \<Rightarrow> SessionManager" where
  "Drop m sid = filter (\<lambda>s. ss_SessionID s \<noteq> sid) m"

definition DemandedWorkers :: "SessionManager \<Rightarrow> u32" where
  "DemandedWorkers m = foldl (\<lambda>t s. t + ss_WorkerCount s) 0 m"

definition Snapshot :: "SessionManager \<Rightarrow> string list" where
  "Snapshot m = map ss_SessionID m"

text \<open>The ready channel of a session is buffered with room for \<open>2 * WorkerCount + 1\<close> signals.\<close>

definition chanCap :: "Session_bf \<Rightarrow> nat" where
  "chanCap s = 2 * unat (ss_WorkerCount s) + 1"

definition DispatchReady :: "SessionManager \<Rightarrow> ReadySignal \<Rightarrow> bool \<times> SessionManager" where
  "DispatchReady m sig = (case Get m (rs_SessionID sig) of
     None \<Rightarrow> (False, m)
   | Some sess \<Rightarrow>
       if length (ss_readyCh sess) < chanCap sess
       then (True, map (\<lambda>s. if ss_SessionID s = rs_SessionID sig then s\<lparr>ss_readyCh := ss_readyCh s @ [sig]\<rparr> else s) m)
       else (False, m))"

lemma Get_None: "Get m sid = None \<longleftrightarrow> sid \<notin> ss_SessionID ` set m"
  by (auto simp: Get_def find_None_iff)

lemma Add_duplicate [simp]: "snd (fst (Add m s)) \<longleftrightarrow> ss_SessionID s \<in> ss_SessionID ` set m"
  using Get_None [of m "ss_SessionID s"] by (auto simp: Add_def split: option.split)

text \<open>A session is tracked at most once, so that at most one run of it is under way.\<close>

lemma Add_distinct: "distinct (map ss_SessionID m) \<Longrightarrow> distinct (map ss_SessionID (snd (Add m s)))"
  using Get_None [of m "ss_SessionID s"] by (auto simp: Add_def split: option.split)

lemma Drop_distinct: "distinct (map ss_SessionID m) \<Longrightarrow> distinct (map ss_SessionID (Drop m sid))"
  by (simp add: Drop_def distinct_map_filter)

lemma Drop_Add: "ss_SessionID s \<notin> ss_SessionID ` set m \<Longrightarrow> Drop (snd (Add m s)) (ss_SessionID s) = m"
  using Get_None [of m "ss_SessionID s"] by (simp add: Add_def Drop_def) (metis (mono_tags, lifting) filter_True image_eqI)

lemma DispatchReady_ids: "map ss_SessionID (snd (DispatchReady m sig)) = map ss_SessionID m"
  by (simp add: DispatchReady_def split: option.split)

section \<open>Waiting\<close>

text \<open>The decimal form of a number, as \<open>%d\<close> prints it.\<close>

fun fmt_d :: "nat \<Rightarrow> string" where
  "fmt_d n = (if n < 10 then [char_of (48 + n)] else fmt_d (n div 10) @ [char_of (48 + n mod 10)])"

declare fmt_d.simps [simp del]

text \<open>How a wait ends when what it waits for does not come: the deadline, or the context.\<close>

datatype waitEnd = Deadline | CtxCancelled string

text \<open>
  \<open>awaitReady\<close> on the signals it receives before one of the two; \<open>got\<close> is \<open>sess.ReadyReceived\<close>.
\<close>

fun awaitReady :: "u32 \<Rightarrow> waitEnd \<Rightarrow> (u32 \<times> ReadySignal) list \<Rightarrow> ReadySignal list \<Rightarrow> string + (u32 \<times> ReadySignal) list" where
  "awaitReady w fin got [] =
     (if \<not> (of_nat (length got) :: u32) < w then Inr got
      else case fin of
        CtxCancelled e \<Rightarrow> Inl e
      | Deadline \<Rightarrow> if got = [] then Inl ''no ready signals before deadline''
          else Inl (''ready deadline expired with partial fan-in: received '' @ fmt_d (length got) @ '' of '' @
            fmt_d (unat w) @ '' worker ready signals''))"
| "awaitReady w fin got (sig # sigs) =
     (if \<not> (of_nat (length got) :: u32) < w then Inr got
      else awaitReady w fin (AList.update (rs_WorkerIndex sig) sig got) sigs)"

text \<open>What a call to another service comes back with.\<close>

datatype 'a call = Ret 'a | Err string | Panics string

record GroupCapacity =
  gc_Members :: int
  gc_Stable :: bool
  gc_State :: string
  gc_Err :: "string option"

definition noCapacity :: GroupCapacity where
  "noCapacity = \<lparr>gc_Members = 0, gc_Stable = False, gc_State = [], gc_Err = None\<rparr>"

text \<open>One group of a \<open>DescribeGroups\<close> response, with the number of its members.\<close>

record describedGroup =
  dg_GroupID :: string
  dg_ErrorCode :: int
  dg_GroupState :: string
  dg_Members :: nat

definition capacityFromProtocol :: "describedGroup list option \<Rightarrow> string \<Rightarrow> GroupCapacity" where
  "capacityFromProtocol resp groupID = (case resp of None \<Rightarrow> noCapacity
   | Some groups \<Rightarrow> (case find (\<lambda>g. dg_GroupID g = groupID) groups of
       None \<Rightarrow> noCapacity
     | Some g \<Rightarrow>
         if dg_ErrorCode g \<noteq> 0
         then noCapacity\<lparr>gc_State := dg_GroupState g,
           gc_Err := Some (''describe group '' @ groupID @ '': kafka error code '' @
             (if dg_ErrorCode g < 0 then ''-'' else []) @ fmt_d (nat \<bar>dg_ErrorCode g\<bar>))\<rparr>
         else \<lparr>gc_Members = int (dg_Members g), gc_Stable = (dg_GroupState g = ''Stable'' \<and> dg_Members g > 0),
               gc_State = dg_GroupState g, gc_Err = None\<rparr>))"

text \<open>
  The loop of \<open>awaitCapacity\<close>: \<open>p\<close> is the outcome of this round's probe, \<open>ps\<close> those of the
  rounds that follow before the deadline has passed or the context is done. \<open>d\<close> is the text
  of the timeout.
\<close>

fun capacityLoop :: "int \<Rightarrow> string \<Rightarrow> waitEnd \<Rightarrow> GroupCapacity \<Rightarrow> GroupCapacity call \<Rightarrow> GroupCapacity call list \<Rightarrow> unit call" where
  "capacityLoop want d fin prev p ps =
     (let lastErr = (case p of Err e \<Rightarrow> Some e | _ \<Rightarrow> None); prev' = (case p of Ret c \<Rightarrow> c | _ \<Rightarrow> prev) in
      case p of Panics e \<Rightarrow> Panics e
      | _ \<Rightarrow> if lastErr = None \<and> gc_Members prev' \<ge> want \<and> gc_Stable prev' then Ret ()
        else (case ps of
          p' # ps' \<Rightarrow> capacityLoop want d fin prev' p' ps'
        | [] \<Rightarrow> Err (case fin of
              CtxCancelled e \<Rightarrow> e
            | Deadline \<Rightarrow> (case lastErr of
                Some e \<Rightarrow> ''bot-fleet capacity probe failed for '' @ d @ '' (want '' @ fmt_d (nat want) @ '' members): '' @ e
              | None \<Rightarrow> ''bot-fleet has '' @ fmt_d (nat (gc_Members prev')) @ '' group members after '' @ d @ '', need '' @
                  fmt_d (nat want) @ '' (one per shard); group_state='' @ gc_State prev'))))"

definition awaitCapacity :: "int \<Rightarrow> int \<Rightarrow> string \<Rightarrow> waitEnd \<Rightarrow> GroupCapacity call \<Rightarrow> GroupCapacity call list \<Rightarrow> unit call" where
  "awaitCapacity want timeout d fin p ps =
     (if want \<le> 1 \<or> timeout \<le> 0 then Ret () else capacityLoop want d fin noCapacity p ps)"

record Slot =
  sl_State :: string
  sl_Message :: string
  sl_Host :: string

text \<open>\<open>WaitForReady\<close> on the answers to its polls before the deadline.\<close>

fun WaitForReady :: "string \<Rightarrow> Slot call \<Rightarrow> Slot call list \<Rightarrow> Slot call" where
  "WaitForReady d p ps = (case p of
     Panics e \<Rightarrow> Panics e
   | Err e \<Rightarrow> Err e
   | Ret slot \<Rightarrow> if sl_State slot = ''ready'' \<or> sl_State slot = ''failed'' then Ret slot
       else (case ps of
         [] \<Rightarrow> Err (''slot did not become ready within '' @ d @ '' (last state: '' @ sl_State slot @ '')'')
       | p' # ps' \<Rightarrow> WaitForReady d p' ps'))"

section \<open>The run\<close>

record RunEnv =
  re_RunStatus :: "string call"
  re_LoadScenario :: "Scenario option call"
  re_Acquire :: "string + nat list"
  re_AcquireBand :: "string + nat list"
  re_GetSubmission :: "SubmissionInfo option call"
  re_CreateSlot :: "unit call"
  re_polls :: "Slot call \<times> Slot call list"
  re_probes :: "(GroupCapacity call \<times> GroupCapacity call list) option"
  re_capacityTimeout :: int
  re_capacityEnd :: waitEnd
  re_noop :: bool
  re_Write :: "workloadMessage list \<Rightarrow> unit call"
  re_ready :: "ReadySignal list"
  re_readyEnd :: waitEnd
  re_Barrier :: "unit call"
  re_PublishStatus :: "BenchmarkStatusUpdated \<Rightarrow> unit call"
  re_DeleteSlot :: "unit call"
  re_cancelled :: bool
  re_durations :: "string \<times> string"
  re_now :: "string \<Rightarrow> string \<Rightarrow> int"
  re_nowNs :: "nat \<Rightarrow> u64"

text \<open>
  \<open>Published ev\<close> is the call of \<open>PublishStatus\<close> with \<open>ev\<close>, \<open>SlotDeleted\<close> that of \<open>DeleteSlot\<close>; errors of the two are logged
  only. The other effects are those of calls that succeeded.
\<close>

datatype runFx =
    Published BenchmarkStatusUpdated
  | Tracked | Dropped
  | LeasesTaken "nat list" | LeasesReleased
  | BandTaken nat | BandReleased
  | SlotCreated | SlotDeleted
  | SpecsPublished "workloadMessage list"
  | BarrierPublished

type_synonym runTrace = "runFx list \<times> string option"

definition seqFx :: "runFx list \<Rightarrow> runTrace \<Rightarrow> runTrace" where
  "seqFx fx r = (fx @ fst r, snd r)"

text \<open>One statement after another: a panic of the first one skips the second.\<close>

definition thenRun :: "runTrace \<Rightarrow> runTrace \<Rightarrow> runTrace" where
  "thenRun r s = (if snd r = None then seqFx (fst r) s else r)"

text \<open>A deferred call \<open>d\<close> of a function that runs as \<open>r\<close>; its panic replaces an earlier one.\<close>

definition deferRun :: "runTrace \<Rightarrow> runTrace \<Rightarrow> runTrace" where
  "deferRun d r = (fst r @ fst d, if snd d = None then snd r else snd d)"

fun panicOf :: "'a call \<Rightarrow> string option" where
  "panicOf (Panics p) = Some p"
| "panicOf _ = None"

definition transition :: "RunEnv \<Rightarrow> BenchmarkRequested \<Rightarrow> string \<Rightarrow> string \<Rightarrow> runTrace" where
  "transition env req status message =
     (let evt = \<lparr>bs_SessionID = br_SessionID req, bs_SubmissionID = br_SubmissionID req, bs_RunGroupID = br_RunGroupID req,
        bs_Status = status, bs_Message = message, bs_UpdatedAt = re_now env status message\<rparr>
      in ([Published evt], panicOf (re_PublishStatus env evt)))"

definition fail :: "RunEnv \<Rightarrow> BenchmarkRequested \<Rightarrow> string \<Rightarrow> runTrace" where
  "fail env req message = transition env req RunStatusFailed message"

definition publishFailure :: "RunEnv \<Rightarrow> BenchmarkRequested \<Rightarrow> string \<Rightarrow> runTrace" where
  "publishFailure env req message =
     (let evt = \<lparr>bs_SessionID = br_SessionID req, bs_SubmissionID = br_SubmissionID req, bs_RunGroupID = br_RunGroupID req,
        bs_Status = RunStatusFailed, bs_Message = message, bs_UpdatedAt = re_now env RunStatusFailed message\<rparr>
      in ([Published evt], panicOf (re_PublishStatus env evt)))"

definition releaseSlot :: "RunEnv \<Rightarrow> string \<Rightarrow> runTrace" where
  "releaseSlot env slotID = (if slotID = [] then ([], None) else ([SlotDeleted], panicOf (re_DeleteSlot env)))"

text \<open>A write that does not succeed: \<open>Inl\<close> is its error, \<open>Inr\<close> its panic, which \<open>PublishWorkloadSpec\<close> passes on.\<close>

definition writeFault :: "('a \<Rightarrow> unit call) \<Rightarrow> 'a \<Rightarrow> (string + string) option" where
  "writeFault write msgs = (case write msgs of Ret _ \<Rightarrow> None | Err e \<Rightarrow> Some (Inl e) | Panics p \<Rightarrow> Some (Inr p))"

fun publishErrText :: "string publishErr \<Rightarrow> string" where
  "publishErrText (LeaseMismatch a b) = fmt_d a @ '' leased partitions for '' @ fmt_d b @ '' workload specs: mismatch''"
| "publishErrText (WriteFailed e) = e"

text \<open>\<open>runSession\<close> in four stages: from the barrier on, from the specs on, from the slot on, and all of it.\<close>

definition barrierStage :: "RunEnv \<Rightarrow> BenchmarkRequested \<Rightarrow> runTrace" where
  "barrierStage env req = (case re_Barrier env of
     Panics p \<Rightarrow> ([], Some p)
   | Err e \<Rightarrow> fail env req (''publish barrier: '' @ e)
   | Ret _ \<Rightarrow> seqFx [BarrierPublished]
       (thenRun (transition env req RunStatusBarrierFired ''barrier published'')
       (thenRun (transition env req RunStatusRunning ''bots firing'')
         (if re_cancelled env then fail env req ''controller shutdown during run''
          else transition env req RunStatusCompleted ''run completed''))))"

definition gate :: "RunEnv \<Rightarrow> u32 \<Rightarrow> unit call" where
  "gate env w = (case re_probes env of None \<Rightarrow> Ret ()
   | Some (p, ps) \<Rightarrow> awaitCapacity (uint w) (re_capacityTimeout env) (snd (re_durations env)) (re_capacityEnd env) p ps)"

definition readyStage :: "RunEnv \<Rightarrow> BenchmarkRequested \<Rightarrow> u32 \<Rightarrow> runTrace" where
  "readyStage env req w =
     thenRun (transition env req RunStatusWaitingReady ''fanning in ready signals'')
       (case awaitReady w (re_readyEnd env) [] (re_ready env) of
          Inl e \<Rightarrow> fail env req e
        | Inr _ \<Rightarrow> barrierStage env req)"

definition workloadStage ::
  "RunEnv \<Rightarrow> RunConfig \<Rightarrow> BenchmarkRequested \<Rightarrow> SubmissionInfo \<Rightarrow> string \<Rightarrow> TaskSpec list \<Rightarrow> u32 \<Rightarrow> nat list \<Rightarrow> u32 \<Rightarrow> runTrace" where
  "workloadStage env cfg req sub host tasks w leases band =
     (case buildWorkloadSpecs cfg (re_nowNs env) (br_SessionID req) (br_SubmissionID req) host sub tasks w band of
        None \<Rightarrow> ([], Some ''runtime error: integer divide by zero'')
      | Some specs \<Rightarrow> (case gate env w of
          Panics p \<Rightarrow> ([], Some p)
        | Err e \<Rightarrow> fail env req (''bot-fleet capacity: '' @ e)
        | Ret _ \<Rightarrow> (case PublishWorkloadSpec (writeFault (re_Write env)) (re_noop env) specs (map int leases) of
            (Some (LeaseMismatch a b), _) \<Rightarrow> fail env req (''publish workload specs: '' @ publishErrText (LeaseMismatch a b))
          | (Some (WriteFailed (Inl e)), _) \<Rightarrow> fail env req (''publish workload specs: '' @ publishErrText (WriteFailed e))
          | (Some (WriteFailed (Inr p)), _) \<Rightarrow> ([], Some p)
          | (None, msgs) \<Rightarrow> seqFx [SpecsPublished msgs] (readyStage env req w))))"

definition slotStage ::
  "RunEnv \<Rightarrow> RunConfig \<Rightarrow> BenchmarkRequested \<Rightarrow> SubmissionInfo \<Rightarrow> TaskSpec list \<Rightarrow> u32 \<Rightarrow> nat list \<Rightarrow> u32 \<Rightarrow> runTrace" where
  "slotStage env cfg req sub tasks w leases band =
     (case WaitForReady (fst (re_durations env)) (fst (re_polls env)) (snd (re_polls env)) of
        Panics p \<Rightarrow> ([], Some p)
      | Err e \<Rightarrow> fail env req (''slot did not become ready: '' @ e)
      | Ret slot \<Rightarrow>
          if sl_State slot \<noteq> ''ready'' then fail env req (''slot did not become ready: '' @ sl_Message slot)
          else workloadStage env cfg req sub (sl_Host slot) tasks w leases band)"

definition createStage ::
  "RunEnv \<Rightarrow> RunConfig \<Rightarrow> BenchmarkRequested \<Rightarrow> SubmissionInfo \<Rightarrow> TaskSpec list \<Rightarrow> u32 \<Rightarrow> nat list \<Rightarrow> u32 \<Rightarrow> runTrace" where
  "createStage env cfg req sub tasks w leases band = (case re_CreateSlot env of
     Panics p \<Rightarrow> ([], Some p)
   | Err e \<Rightarrow> fail env req (''create slot: '' @ e)
   | Ret _ \<Rightarrow> seqFx [SlotCreated]
       (deferRun (releaseSlot env (br_SessionID req)) (slotStage env cfg req sub tasks w leases band)))"

definition runSession :: "RunEnv \<Rightarrow> RunConfig \<Rightarrow> BenchmarkRequested \<Rightarrow> TaskSpec list \<Rightarrow> u32 \<Rightarrow> nat list \<Rightarrow> u32 \<Rightarrow> runTrace" where
  "runSession env cfg req tasks w leases band = (case re_GetSubmission env of
     Panics p \<Rightarrow> ([], Some p)
   | Err e \<Rightarrow> fail env req (''lookup submission: '' @ e)
   | Ret None \<Rightarrow> fail env req ''submission not found''
   | Ret (Some sub) \<Rightarrow>
       if si_ImageRef sub = [] then fail env req ''submission has no built image ref''
       else thenRun (transition env req RunStatusDeploying ''allocating sandbox slot'')
         (createStage env cfg req sub tasks w leases band))"

text \<open>\<open>Run\<close> from the acquisition of the leases on, and up to its panic handler.\<close>

definition runLeased :: "RunEnv \<Rightarrow> RunConfig \<Rightarrow> BenchmarkRequested \<Rightarrow> TaskSpec list \<Rightarrow> u32 \<Rightarrow> runTrace" where
  "runLeased env cfg req tasks w = (case re_Acquire env of
     Inl e \<Rightarrow> publishFailure env req (''acquire partition leases: '' @ e)
   | Inr leases \<Rightarrow> seqFx [LeasesTaken leases] (case re_AcquireBand env of
       Inl e \<Rightarrow> seqFx [LeasesReleased] (publishFailure env req (''acquire order band lease: '' @ e))
     | Inr [] \<Rightarrow> ([], Some ''runtime error: index out of range [0] with length 0'')
     | Inr (b # _) \<Rightarrow> seqFx [BandTaken b]
         (deferRun ([BandReleased, LeasesReleased], None) (runSession env cfg req tasks w leases (of_nat b)))))"

definition runBody :: "RunEnv \<Rightarrow> RunConfig \<Rightarrow> SessionManager \<Rightarrow> BenchmarkRequested \<Rightarrow> runTrace" where
  "runBody env cfg mgr req = (case re_RunStatus env of
     Panics p \<Rightarrow> ([], Some p)
   | Err e \<Rightarrow> publishFailure env req (''run-status precheck failed: '' @ e)
   | Ret st \<Rightarrow>
       if st = RunStatusCompleted \<or> st = RunStatusFailed then ([], None)
       else (case re_LoadScenario env of
         Panics p \<Rightarrow> ([], Some p)
       | Err e \<Rightarrow> publishFailure env req (''load scenario: '' @ e)
       | Ret None \<Rightarrow> publishFailure env req ''scenario has zero tasks''
       | Ret (Some scenario) \<Rightarrow>
           if sn_TaskSpecs scenario = [] then publishFailure env req ''scenario has zero tasks''
           else let tasks = sn_TaskSpecs scenario;
                    w = computeWorkerCountForLoad (int (length tasks)) (totalTargetRPS tasks)
                          (rc_MaxTasksPerWorker cfg) (rc_WorkerRPSCapacity cfg);
                    sess = \<lparr>ss_SessionID = br_SessionID req, ss_SubmissionID = br_SubmissionID req,
                            ss_ContestantID = br_ContestantID req, ss_RunGroupID = br_RunGroupID req,
                            ss_WorkerCount = w, ss_readyCh = []\<rparr>
                in if snd (fst (Add mgr sess)) then ([], None)
                   else seqFx [Tracked] (deferRun ([Dropped], None) (runLeased env cfg req tasks w))))"

text \<open>
  The panic handler publishes a failure; a panic of that publication leaves \<open>Run\<close>, and the
  dispatcher that called it recovers from it.
\<close>

definition Run :: "RunEnv \<Rightarrow> RunConfig \<Rightarrow> SessionManager \<Rightarrow> BenchmarkRequested \<Rightarrow> runFx list" where
  "Run env cfg mgr req = (case runBody env cfg mgr req of
     (fx, None) \<Rightarrow> fx
   | (fx, Some p) \<Rightarrow> fx @ fst (publishFailure env req (''session panicked: '' @ p)))"

declare capacityLoop.simps [simp del] WaitForReady.simps [simp del]

section \<open>Statuses\<close>

fun statusOf :: "runFx \<Rightarrow> string list" where
  "statusOf (Published ev) = [bs_Status ev]"
| "statusOf _ = []"

definition statuses :: "runFx list \<Rightarrow> string list" where
  "statuses fx = concat (map statusOf fx)"

definition lifecycle :: "string list" where
  "lifecycle = [RunStatusDeploying, RunStatusWaitingReady, RunStatusBarrierFired, RunStatusRunning]"

definition terminalAt :: "nat \<Rightarrow> string \<Rightarrow> bool" where
  "terminalAt k t \<longleftrightarrow> t = RunStatusFailed \<or> t = RunStatusCompleted \<and> k = 4"

text \<open>A panic that can follow a terminal status: of its own publication, or of the deferred deletion of the slot.\<close>

definition latePanic :: "RunEnv \<Rightarrow> string \<Rightarrow> runFx list \<Rightarrow> bool" where
  "latePanic env t fx \<longleftrightarrow> (\<exists>ev p. Published ev \<in> set fx \<and> bs_Status ev = t \<and> re_PublishStatus env ev = Panics p) \<or>
     SlotDeleted \<in> set fx \<and> (\<exists>p. re_DeleteSlot env = Panics p)"

text \<open>
  What a stage that starts after \<open>j\<close> statuses of the life cycle publishes: more of the life cycle,
  and then, unless it panics, one terminal status, \<open>completed\<close> only at the end; a stage that panics after
  its terminal status does so late.
\<close>

definition ends :: "RunEnv \<Rightarrow> nat \<Rightarrow> runTrace \<Rightarrow> bool" where
  "ends env j r \<longleftrightarrow> (\<exists>k. j \<le> k \<and> k \<le> 4 \<and>
     (snd r \<noteq> None \<and> statuses (fst r) = drop j (take k lifecycle) \<or>
      (\<exists>t. statuses (fst r) = drop j (take k lifecycle) @ [t] \<and> terminalAt k t \<and> (snd r = None \<or> latePanic env t (fst r)))))"

lemma statuses_simps [simp]:
  "statuses [] = []" "statuses (x # fx) = statusOf x @ statuses fx" "statuses (fx @ fx') = statuses fx @ statuses fx'"
  by (simp_all add: statuses_def)

lemma statuses_transition [simp]:
  "statuses (fst (transition env req st msg)) = [st]" "statuses (fst (publishFailure env req msg)) = [RunStatusFailed]"
  "statuses (fst (releaseSlot env s)) = []"
  by (simp_all add: transition_def publishFailure_def releaseSlot_def Let_def)

lemma traceFx [simp]:
  "fst (seqFx fx r) = fx @ fst r" "snd (seqFx fx r) = snd r" "fst (deferRun d r) = fst r @ fst d"
  by (simp_all add: seqFx_def deferRun_def)

lemma latePanic_mono: "latePanic env t fx \<Longrightarrow> set fx \<subseteq> set fx' \<Longrightarrow> latePanic env t fx'"
  unfolding latePanic_def by blast

lemma transition_late: "snd (transition env req st msg) \<noteq> None \<Longrightarrow> latePanic env st (fst (transition env req st msg))"
  "snd (publishFailure env req msg) \<noteq> None \<Longrightarrow> latePanic env RunStatusFailed (fst (publishFailure env req msg))"
  by (auto simp: transition_def publishFailure_def latePanic_def Let_def elim!: panicOf.elims)

lemma ends_terminal: "terminalAt j st \<Longrightarrow> j \<le> 4 \<Longrightarrow> ends env j (transition env req st msg)"
  using transition_late(1) [of env req st msg]
  by (cases "snd (transition env req st msg)") (auto simp: ends_def intro!: exI [of _ j])

lemma ends_fail [simp]: "j \<le> 4 \<Longrightarrow> ends env j (fail env req msg)" "j \<le> 4 \<Longrightarrow> ends env j (publishFailure env req msg)"
proof -
  show "ends env j (fail env req msg)" if "j \<le> 4" using that ends_terminal [of j RunStatusFailed] by (simp add: fail_def terminalAt_def)
  show "ends env j (publishFailure env req msg)" if "j \<le> 4"
    using that transition_late(2) [of env req msg]
    by (cases "snd (publishFailure env req msg)") (auto simp: ends_def terminalAt_def intro!: exI [of _ j])
qed

lemma ends_panic [simp]: "j \<le> 4 \<Longrightarrow> ends env j ([], Some p)"
  by (auto simp: ends_def intro!: exI [of _ j])

lemma drop_take_append:
  assumes "j \<le> k" "i \<le> j"
  shows "drop i (take j xs) @ drop j (take k xs) = drop i (take k xs)"
proof (cases "length xs < j")
  case False
  have "take k xs = take j xs @ drop j (take k xs)" using assms(1) by (metis append_take_drop_id min.absorb1 take_take)
  then have "drop i (take k xs) = drop i (take j xs @ drop j (take k xs))" by simp
  then show ?thesis using False assms(2) by simp
qed (use assms in simp)

lemma ends_seq:
  assumes "statuses fx = drop i (take j lifecycle)" "i \<le> j" "ends env j r"
  shows "ends env i (seqFx fx r)"
proof -
  obtain k where k: "j \<le> k" "k \<le> 4" "snd r \<noteq> None \<and> statuses (fst r) = drop j (take k lifecycle) \<or>
      (\<exists>t. statuses (fst r) = drop j (take k lifecycle) @ [t] \<and> terminalAt k t \<and> (snd r = None \<or> latePanic env t (fst r)))"
    using assms(3) unfolding ends_def by blast
  note a = drop_take_append [OF k(1) assms(2), of lifecycle]
  have "snd r \<noteq> None \<and> statuses (fx @ fst r) = drop i (take k lifecycle) \<or>
      (\<exists>t. statuses (fx @ fst r) = drop i (take k lifecycle) @ [t] \<and> terminalAt k t \<and> (snd r = None \<or> latePanic env t (fx @ fst r)))"
    using k(3) assms(1) latePanic_mono [of env _ "fst r" "fx @ fst r"] by (auto simp flip: a)
  moreover have "i \<le> k" using k(1) assms(2) by simp
  ultimately show ?thesis using k(2) unfolding ends_def traceFx by blast
qed

lemma ends_silent: "statuses fx = [] \<Longrightarrow> ends env j r \<Longrightarrow> ends env j (seqFx fx r)"
  by (rule ends_seq [where j = j]) simp_all

lemma lifecycle_length: "length lifecycle = 4"
  by (simp add: lifecycle_def)

text \<open>The status \<open>lifecycle ! i\<close>, and then the rest of the run.\<close>

lemma ends_transition:
  assumes "i < 4" "ends env (Suc i) r"
  shows "ends env i (thenRun (transition env req (lifecycle ! i) msg) r)"
proof -
  have s: "[lifecycle ! i] = drop i (take (Suc i) lifecycle)" 
    using assms(1) take_Suc_conv_app_nth [of i lifecycle] by (simp add: lifecycle_length)
  show ?thesis
  proof (cases "snd (transition env req (lifecycle ! i) msg)")
    case None
    then show ?thesis using ends_seq [OF _ _ assms(2), of _ i] s by (simp add: thenRun_def)
  next
    case (Some p)
    then show ?thesis using s assms(1) by (auto simp: thenRun_def ends_def intro!: exI [of _ "Suc i"])
  qed
qed

text \<open>A deferred call that publishes nothing; only the deletion of the slot can make it panic.\<close>

lemma ends_defer:
  assumes "statuses (fst d) = []" "ends env j r"
    and "snd d \<noteq> None \<Longrightarrow> SlotDeleted \<in> set (fst d) \<and> (\<exists>p. re_DeleteSlot env = Panics p)"
  shows "ends env j (deferRun d r)"
proof -
  obtain k where k: "j \<le> k" "k \<le> 4" "snd r \<noteq> None \<and> statuses (fst r) = drop j (take k lifecycle) \<or>
      (\<exists>t. statuses (fst r) = drop j (take k lifecycle) @ [t] \<and> terminalAt k t \<and> (snd r = None \<or> latePanic env t (fst r)))"
    using assms(2) unfolding ends_def by blast
  have l: "snd (deferRun d r) = None \<or> latePanic env t (fst (deferRun d r))" if "snd r = None \<or> latePanic env t (fst r)" for t
  proof (cases "snd d")
    case None
    then show ?thesis using that latePanic_mono [of env t "fst r" "fst r @ fst d"] by (auto simp: deferRun_def)
  next
    case (Some p)
    then show ?thesis using assms(3) by (auto simp: latePanic_def)
  qed
  have "snd (deferRun d r) \<noteq> None" if "snd r \<noteq> None" using that by (simp add: deferRun_def)
  then show ?thesis using k assms(1) l unfolding ends_def traceFx by (intro exI [of _ k]) auto
qed

lemma ends_defer_silent: "statuses fx = [] \<Longrightarrow> ends env j r \<Longrightarrow> ends env j (deferRun (fx, None) r)"
  by (rule ends_defer) simp_all

lemma barrierStage_ends: "ends env 2 (barrierStage env req)"
proof (cases "re_Barrier env")
  case (Ret u)
  have "ends env 4 (if re_cancelled env then fail env req m else transition env req RunStatusCompleted m')" for m m'
    by (simp add: ends_terminal terminalAt_def)
  then have "ends env 3 (thenRun (transition env req RunStatusRunning n)
      (if re_cancelled env then fail env req m else transition env req RunStatusCompleted m'))" for m m' n
    using ends_transition [of 3 env] by (simp add: lifecycle_def)
  then show ?thesis using Ret ends_transition [of 2 env] by (simp add: barrierStage_def lifecycle_def ends_silent)
qed (simp_all add: barrierStage_def)

lemma readyStage_ends: "ends env 1 (readyStage env req w)"
proof -
  have "ends env (Suc 1) (case awaitReady w (re_readyEnd env) [] (re_ready env) of Inl e \<Rightarrow> fail env req e | Inr _ \<Rightarrow> barrierStage env req)"
    using barrierStage_ends by (simp add: numeral_2_eq_2 split: sum.split)
  from ends_transition [OF _ this] show ?thesis by (simp add: readyStage_def lifecycle_def)
qed

lemma workloadStage_ends: "ends env 1 (workloadStage env cfg req sub host tasks w leases band)"
  using readyStage_ends by (simp add: workloadStage_def ends_silent split: option.split call.split prod.split publishErr.split sum.split)

lemma slotStage_ends: "ends env 1 (slotStage env cfg req sub tasks w leases band)"
  using workloadStage_ends by (simp add: slotStage_def split: call.split)

lemma createStage_ends: "ends env 1 (createStage env cfg req sub tasks w leases band)"
proof -
  have "snd (releaseSlot env s) \<noteq> None \<Longrightarrow> SlotDeleted \<in> set (fst (releaseSlot env s)) \<and> (\<exists>p. re_DeleteSlot env = Panics p)" for s
    by (cases "re_DeleteSlot env") (auto simp: releaseSlot_def split: if_splits)
  then have "ends env 1 (seqFx [SlotCreated] (deferRun (releaseSlot env s) (slotStage env cfg req sub tasks w leases band)))" for s
    by (intro ends_silent ends_defer slotStage_ends) simp_all
  then show ?thesis by (simp add: createStage_def split: call.split)
qed

lemma runSession_ends: "ends env 0 (runSession env cfg req tasks w leases band)"
  using ends_transition [of 0 env] createStage_ends
  by (simp add: runSession_def lifecycle_def split: call.split option.split)

lemma runLeased_ends: "ends env 0 (runLeased env cfg req tasks w)"
  using runSession_ends by (simp add: runLeased_def ends_silent ends_defer_silent split: sum.split list.split)

section \<open>Resources\<close>

fun isResource :: "runFx \<Rightarrow> bool" where
  "isResource (Published _) = False"
| "isResource (SpecsPublished _) = False"
| "isResource BarrierPublished = False"
| "isResource _ = True"

definition resources :: "runFx list \<Rightarrow> runFx list" where
  "resources fx = filter isResource fx"

lemma resources_simps [simp]:
  "resources [] = []" "resources (x # fx) = (if isResource x then x # resources fx else resources fx)"
  "resources (fx @ fx') = resources fx @ resources fx'"
  by (simp_all add: resources_def)

lemma resources_published [simp]:
  "resources (fst (transition env req st msg)) = []" "resources (fst (publishFailure env req msg)) = []"
  "resources (fst (fail env req msg)) = []"
  by (simp_all add: transition_def publishFailure_def fail_def Let_def)

lemma resources_thenRun: "resources (fst r) = [] \<Longrightarrow> resources (fst (thenRun r s)) \<in> {[], resources (fst s)}"
  by (simp add: thenRun_def)

lemma resources_thenRun_none [simp]: "resources (fst r) = [] \<Longrightarrow> resources (fst s) = [] \<Longrightarrow> resources (fst (thenRun r s)) = []"
  by (simp add: thenRun_def)

lemma barrierStage_resources [simp]: "resources (fst (barrierStage env req)) = []"
  by (simp add: barrierStage_def split: call.split)

lemma readyStage_resources [simp]: "resources (fst (readyStage env req w)) = []"
  by (simp add: readyStage_def split: sum.split)

lemma workloadStage_resources [simp]: "resources (fst (workloadStage env cfg req sub host tasks w leases band)) = []"
  by (simp add: workloadStage_def split: option.split call.split prod.split publishErr.split sum.split)

lemma slotStage_resources [simp]: "resources (fst (slotStage env cfg req sub tasks w leases band)) = []"
  by (simp add: slotStage_def split: call.split)

lemma runSession_resources:
  assumes "br_SessionID req \<noteq> []"
  shows "resources (fst (runSession env cfg req tasks w leases band)) \<in> {[], [SlotCreated, SlotDeleted]}"
proof -
  have "resources (fst (createStage env cfg req sub tasks w leases band)) \<in> {[], [SlotCreated, SlotDeleted]}" for sub
    using assms by (simp add: createStage_def releaseSlot_def split: call.split)
  then show ?thesis by (auto simp: runSession_def thenRun_def split: call.split option.split)
qed

section \<open>Properties of a run\<close>

text \<open>C34.
  Every run that is taken up reaches a terminal status, and what it hands to the status producer
  is determined up to the point it gets to. A run publishes nothing when its session is already
  terminal or already tracked; otherwise, whatever the services answer and wherever a call
  panics, it publishes statuses of the life cycle in its order and then a terminal status,
  \<open>completed\<close> only after the whole life cycle. The terminal status is the last one and the only one
  unless the run panics after it, which takes a panic of the publication of that very status
  or of the deferred deletion of the slot: the panic handler then publishes \<open>failed\<close> as well,
  once, and nothing follows.
\<close>

theorem run_ends_terminal_once:
  "statuses (Run env cfg mgr req) = [] \<and>
     (re_RunStatus env \<in> {Ret RunStatusCompleted, Ret RunStatusFailed} \<or> br_SessionID req \<in> set (map ss_SessionID mgr)) \<or>
   (\<exists>k t rest. k \<le> 4 \<and> statuses (Run env cfg mgr req) = take k lifecycle @ t # rest \<and>
      (t = RunStatusFailed \<or> t = RunStatusCompleted \<and> k = 4) \<and>
      (rest = [] \<or> rest = [RunStatusFailed] \<and>
         ((\<exists>ev p. Published ev \<in> set (Run env cfg mgr req) \<and> bs_Status ev = t \<and> re_PublishStatus env ev = Panics p) \<or>
          SlotDeleted \<in> set (Run env cfg mgr req) \<and> (\<exists>p. re_DeleteSlot env = Panics p))))"
proof -
  let ?r = "runBody env cfg mgr req"
  have "?r = ([], None) \<and> (re_RunStatus env \<in> {Ret RunStatusCompleted, Ret RunStatusFailed} \<or> br_SessionID req \<in> set (map ss_SessionID mgr)) \<or>
      ends env 0 ?r"
    using runLeased_ends
    by (auto simp: runBody_def Let_def ends_silent ends_defer_silent split: call.splits option.splits if_splits)
  then show ?thesis
  proof
    assume "ends env 0 ?r"
    then obtain k where k: "k \<le> 4" "snd ?r \<noteq> None \<and> statuses (fst ?r) = take k lifecycle \<or>
        (\<exists>t. statuses (fst ?r) = take k lifecycle @ [t] \<and> terminalAt k t \<and> (snd ?r = None \<or> latePanic env t (fst ?r)))"
      unfolding ends_def drop_0 by blast
    have "\<exists>t rest. statuses (Run env cfg mgr req) = take k lifecycle @ t # rest \<and> terminalAt k t \<and>
        (rest = [] \<or> rest = [RunStatusFailed] \<and> latePanic env t (Run env cfg mgr req))"
    proof (cases "snd ?r")
      case None
      then show ?thesis using k(2) by (cases ?r) (auto simp: Run_def)
    next
      case (Some p)
      then have r: "Run env cfg mgr req = fst ?r @ fst (publishFailure env req (''session panicked: '' @ p))"
        by (cases ?r) (simp add: Run_def)
      from k(2) show ?thesis
      proof
        assume "\<exists>t. statuses (fst ?r) = take k lifecycle @ [t] \<and> terminalAt k t \<and> (snd ?r = None \<or> latePanic env t (fst ?r))"
        then obtain t where "statuses (fst ?r) = take k lifecycle @ [t]" "terminalAt k t" "latePanic env t (fst ?r)" using Some by auto
        then show ?thesis using latePanic_mono [of env t "fst ?r" "Run env cfg mgr req"] by (simp add: r)
      qed (simp add: r terminalAt_def)
    qed
    then show ?thesis using k(1) unfolding terminalAt_def latePanic_def by blast
  qed (auto simp: Run_def)
qed

text \<open>C35.
  Everything a run takes it gives back, in the reverse order, on every path, panics included:
  the registry entry, the partition leases, the order band and the sandbox slot are taken in
  this order, and each is released exactly once before what was taken before it.
  (Session_bf ids are not empty, and an acquired band lease is not empty.)
\<close>

theorem run_releases_resources:
  assumes "br_SessionID req \<noteq> []" "re_AcquireBand env \<noteq> Inr []"
  shows "resources (Run env cfg mgr req) \<in>
    {[], [Tracked, Dropped]} \<union>
    (\<Union>l. {[Tracked, LeasesTaken l, LeasesReleased, Dropped]} \<union>
      (\<Union>b. {[Tracked, LeasesTaken l, BandTaken b, BandReleased, LeasesReleased, Dropped],
            [Tracked, LeasesTaken l, BandTaken b, SlotCreated, SlotDeleted, BandReleased, LeasesReleased, Dropped]}))"
proof -
  have l: "resources (fst (runLeased env cfg req tasks w)) \<in> {[]} \<union>
      (\<Union>l. {[LeasesTaken l, LeasesReleased]} \<union> (\<Union>b. {[LeasesTaken l, BandTaken b, BandReleased, LeasesReleased],
        [LeasesTaken l, BandTaken b, SlotCreated, SlotDeleted, BandReleased, LeasesReleased]}))" for tasks w
    using assms(2) runSession_resources [OF assms(1), of env cfg tasks w]
    by (auto simp: runLeased_def split: sum.splits list.splits)
  have "resources (Run env cfg mgr req) = resources (fst (runBody env cfg mgr req))"
    by (auto simp: Run_def split: prod.split option.split)
  then show ?thesis using l
    by (auto simp: runBody_def Let_def split: call.splits option.splits if_splits)
qed

text \<open>A run in which everything goes well, with two workers.\<close>

definition demoSig :: "u32 \<Rightarrow> ReadySignal" where
  "demoSig i = \<lparr>rs_SessionID = ''s'', rs_SubmissionID = ''sub'', rs_WorkerID = ''w'', rs_WorkerIndex = i, rs_WorkerCount = 2,
     rs_TaskCount = 2, rs_ConnectedCount = 2, rs_ReadyAtUnixNanos = 0\<rparr>"

definition demoRunReq :: BenchmarkRequested where
  "demoRunReq = \<lparr>br_SessionID = ''s'', br_SubmissionID = ''sub'', br_ContestantID = ''c'', br_RunGroupID = ''g'', br_ScenarioID = ''x''\<rparr>"

definition demoEnv :: RunEnv where
  "demoEnv = \<lparr>re_RunStatus = Ret RunStatusQueued,
     re_LoadScenario = Ret (Some \<lparr>sn_ScenarioID = ''x'', sn_Name = ''constant'', sn_DurationNs = 1000,
       sn_TaskSpecs = [demoShardTask 0 10, demoShardTask 1 10, demoShardTask 2 10]\<rparr>),
     re_Acquire = Inr [4, 1], re_AcquireBand = Inr [2], re_GetSubmission = Ret (Some demoSub), re_CreateSlot = Ret (),
     re_polls = (Ret \<lparr>sl_State = ''creating'', sl_Message = [], sl_Host = []\<rparr>, [Ret \<lparr>sl_State = ''ready'', sl_Message = [], sl_Host = ''h''\<rparr>]),
     re_probes = Some (Err ''blip'', [Ret \<lparr>gc_Members = 2, gc_Stable = True, gc_State = ''Stable'', gc_Err = None\<rparr>]),
     re_capacityTimeout = 60, re_capacityEnd = Deadline, re_noop = False, re_Write = (\<lambda>_. Ret ()),
     re_ready = [demoSig 1, demoSig 1, demoSig 0], re_readyEnd = Deadline, re_Barrier = Ret (),
     re_PublishStatus = (\<lambda>_. Ret ()), re_DeleteSlot = Ret (), re_cancelled = False,
     re_durations = (''60s'', ''60s''), re_now = (\<lambda>_ _. 0), re_nowNs = (\<lambda>_. 7)\<rparr>"

lemma demoRun_completes: "statuses (Run demoEnv demoConfig [] demoRunReq) = lifecycle @ [RunStatusCompleted]"
  "BarrierPublished \<in> set (Run demoEnv demoConfig [] demoRunReq)"
  by code_simp+

text \<open>A panic of the deletion of the slot, after the run completed: the run is reported as failed too.\<close>

lemma completed_then_failed:
  "statuses (Run (demoEnv\<lparr>re_DeleteSlot := Panics ''nil''\<rparr>) demoConfig [] demoRunReq) = lifecycle @ [RunStatusCompleted, RunStatusFailed]"
  by code_simp

theorem run_releases_resources_witness:
  "resources (Run (demoEnv\<lparr>re_CreateSlot := Panics ''nil''\<rparr>) demoConfig [] demoRunReq) =
     [Tracked, LeasesTaken [4, 1], BandTaken 2, BandReleased, LeasesReleased, Dropped] \<and>
   SlotCreated \<notin> set (resources (Run (demoEnv\<lparr>re_CreateSlot := Panics ''nil''\<rparr>) demoConfig [] demoRunReq))"
proof -
  let ?env = "demoEnv\<lparr>re_CreateSlot := Panics ''nil''\<rparr>"
  have h: "br_SessionID demoRunReq \<noteq> []" "re_AcquireBand ?env \<noteq> Inr []" by code_simp+
  have "length (resources (Run ?env demoConfig [] demoRunReq)) = 6" "resources (Run ?env demoConfig [] demoRunReq) ! 1 = LeasesTaken [4, 1]"
    "resources (Run ?env demoConfig [] demoRunReq) ! 2 = BandTaken 2" by code_simp+
  then show ?thesis using run_releases_resources [OF h, of demoConfig "[]"] by (auto simp del: resources_simps)
qed

section \<open>Admission gates\<close>

fun enough :: "int \<Rightarrow> GroupCapacity call \<Rightarrow> bool" where
  "enough want (Ret c) = (want \<le> gc_Members c \<and> gc_Stable c)"
| "enough want _ = False"

lemma capacityLoop_exact:
  "capacityLoop want d fin prev p ps = Ret () \<longleftrightarrow> list_ex (enough want) (takeWhile (\<lambda>q. panicOf q = None) (p # ps))"
proof (induction ps arbitrary: prev p)
  case Nil
  show ?case by (subst capacityLoop.simps) (cases p; simp add: Let_def)
next
  case (Cons q ps)
  show ?case using Cons by (subst capacityLoop.simps) (cases p; auto simp: Let_def)
qed

lemma capacityLoop_enough: "capacityLoop want d fin prev p ps = Ret () \<Longrightarrow> list_ex (enough want) (p # ps)"
  unfolding capacityLoop_exact list_ex_iff by (meson set_takeWhileD)

lemma awaitReady_got:
  assumes "awaitReady w fin got sigs = Inr got'" "distinct (map fst got)"
  shows "\<exists>n. n \<le> length sigs \<and> unat w \<le> card (set (map fst got) \<union> rs_WorkerIndex ` set (take n sigs))"
  using assms
proof (induction w fin got sigs rule: awaitReady.induct)
  case (1 w fin got)
  then have "\<not> (of_nat (length got) :: u32) < w" by (auto split: if_splits waitEnd.splits)
  then have "unat w \<le> length got mod 2 ^ 32" by (simp add: word_less_nat_alt unat_of_nat not_less)
  then have "unat w \<le> length got" by (meson le_trans mod_less_eq_dividend)
  then show ?case using distinct_card [OF 1(2)] by auto
next
  case (2 w fin got sig sigs)
  show ?case
  proof (cases "(of_nat (length got) :: u32) < w")
    case True
    then obtain n where n: "n \<le> length sigs"
      "unat w \<le> card (set (map fst (AList.update (rs_WorkerIndex sig) sig got)) \<union> rs_WorkerIndex ` set (take n sigs))"
      using 2 by (auto simp: distinct_update)
    have "set (map fst (AList.update (rs_WorkerIndex sig) sig got)) = insert (rs_WorkerIndex sig) (set (map fst got))"
      unfolding update_keys by auto
    then show ?thesis using n by (intro exI [of _ "Suc n"]) simp
  next
    case False
    then have "unat w \<le> length got mod 2 ^ 32" by (simp add: word_less_nat_alt unat_of_nat not_less)
    then have "unat w \<le> length got" by (meson le_trans mod_less_eq_dividend)
    then show ?thesis using distinct_card [OF 2(3)] by (intro exI [of _ 0]) auto
  qed
qed

lemma no_barrier [simp]:
  "BarrierPublished \<notin> set (fst (transition env req st msg))" "BarrierPublished \<notin> set (fst (publishFailure env req msg))"
  "BarrierPublished \<notin> set (fst (fail env req msg))" "BarrierPublished \<notin> set (fst (releaseSlot env s))"
  by (simp_all add: transition_def publishFailure_def fail_def releaseSlot_def Let_def)

lemma thenRun_barrier:
  assumes "BarrierPublished \<in> set (fst (thenRun r s))" "BarrierPublished \<notin> set (fst r)"
  shows "fst (thenRun r s) = fst r @ fst s" "BarrierPublished \<in> set (fst s)"
  using assms by (auto simp: thenRun_def split: if_splits)

lemma readyStage_barrier:
  "BarrierPublished \<in> set (fst (readyStage env req w)) \<Longrightarrow> \<exists>got. awaitReady w (re_readyEnd env) [] (re_ready env) = Inr got"
  unfolding readyStage_def by (drule thenRun_barrier(2)) (auto split: sum.splits)

lemma workloadStage_barrier:
  assumes "BarrierPublished \<in> set (fst (workloadStage env cfg req sub host tasks w leases band))"
  shows "\<exists>specs msgs fx got. buildWorkloadSpecs cfg (re_nowNs env) (br_SessionID req) (br_SubmissionID req) host sub tasks w band = Some specs \<and>
    gate env w = Ret () \<and> PublishWorkloadSpec (writeFault (re_Write env)) (re_noop env) specs (map int leases) = (None, msgs) \<and>
    awaitReady w (re_readyEnd env) [] (re_ready env) = Inr got \<and>
    fst (workloadStage env cfg req sub host tasks w leases band) = SpecsPublished msgs # fx"
  using assms readyStage_barrier
  by (fastforce simp: workloadStage_def split: option.splits call.splits prod.splits publishErr.splits sum.splits)

lemma Run_barrier:
  assumes "BarrierPublished \<in> set (Run env cfg mgr req)"
  shows "\<exists>scenario leases sub host band pre post w. re_LoadScenario env = Ret (Some scenario) \<and> re_Acquire env = Inr leases \<and>
    w = computeWorkerCountForLoad (int (length (sn_TaskSpecs scenario))) (totalTargetRPS (sn_TaskSpecs scenario))
          (rc_MaxTasksPerWorker cfg) (rc_WorkerRPSCapacity cfg) \<and>
    Run env cfg mgr req = pre @ fst (workloadStage env cfg req sub host (sn_TaskSpecs scenario) w leases band) @ post \<and>
    BarrierPublished \<notin> set pre \<and>
    BarrierPublished \<in> set (fst (workloadStage env cfg req sub host (sn_TaskSpecs scenario) w leases band))"
proof -
  have slot: "\<exists>host. fst (slotStage env cfg req sub tasks w leases band) = fst (workloadStage env cfg req sub host tasks w leases band)"
    if "BarrierPublished \<in> set (fst (slotStage env cfg req sub tasks w leases band))" for sub tasks w leases band
    using that by (auto simp: slotStage_def split: call.splits if_splits)
  have sess: "\<exists>sub host pre post. fst (runSession env cfg req tasks w leases band) = pre @ fst (workloadStage env cfg req sub host tasks w leases band) @ post \<and>
      BarrierPublished \<notin> set pre \<and> BarrierPublished \<in> set (fst (workloadStage env cfg req sub host tasks w leases band))"
    if b: "BarrierPublished \<in> set (fst (runSession env cfg req tasks w leases band))" for tasks w leases band
  proof -
    let ?d = "transition env req RunStatusDeploying ''allocating sandbox slot''"
    obtain sub where c: "runSession env cfg req tasks w leases band = thenRun ?d (createStage env cfg req sub tasks w leases band)"
      using b by (auto simp: runSession_def split: call.splits option.splits if_splits)
    note t = thenRun_barrier [OF b [unfolded c], simplified]
    have s: "fst (runSession env cfg req tasks w leases band) =
        (fst ?d @ [SlotCreated]) @ fst (slotStage env cfg req sub tasks w leases band) @ fst (releaseSlot env (br_SessionID req))"
      "BarrierPublished \<in> set (fst (slotStage env cfg req sub tasks w leases band))"
      using t by (auto simp: c createStage_def split: call.splits)
    from slot [OF s(2)] obtain host where "fst (slotStage env cfg req sub tasks w leases band) = fst (workloadStage env cfg req sub host tasks w leases band)" ..
    with s show ?thesis
      by (intro exI [of _ sub] exI [of _ host] exI [of _ "fst ?d @ [SlotCreated]"]
          exI [of _ "fst (releaseSlot env (br_SessionID req))"]) simp
  qed
  have fx: "\<exists>post. Run env cfg mgr req = fst (runBody env cfg mgr req) @ post \<and> BarrierPublished \<notin> set post"
    by (auto simp: Run_def split: prod.split option.split)
  then have b: "BarrierPublished \<in> set (fst (runBody env cfg mgr req))" using assms by auto
  then obtain scenario where sc: "re_LoadScenario env = Ret (Some scenario)" "fst (runBody env cfg mgr req) =
      [Tracked] @ fst (runLeased env cfg req (sn_TaskSpecs scenario) (computeWorkerCountForLoad (int (length (sn_TaskSpecs scenario)))
        (totalTargetRPS (sn_TaskSpecs scenario)) (rc_MaxTasksPerWorker cfg) (rc_WorkerRPSCapacity cfg))) @ [Dropped]"
    by (auto simp: runBody_def Let_def split: call.splits option.splits if_splits)
  define w where "w = computeWorkerCountForLoad (int (length (sn_TaskSpecs scenario))) (totalTargetRPS (sn_TaskSpecs scenario))
    (rc_MaxTasksPerWorker cfg) (rc_WorkerRPSCapacity cfg)"
  have l: "BarrierPublished \<in> set (fst (runLeased env cfg req (sn_TaskSpecs scenario) w))" using b sc(2) by (simp add: w_def)
  then obtain leases bd where le: "re_Acquire env = Inr leases" "fst (runLeased env cfg req (sn_TaskSpecs scenario) w) =
      [LeasesTaken leases, BandTaken bd] @ fst (runSession env cfg req (sn_TaskSpecs scenario) w leases (of_nat bd)) @ [BandReleased, LeasesReleased]"
    "BarrierPublished \<in> set (fst (runSession env cfg req (sn_TaskSpecs scenario) w leases (of_nat bd)))"
    by (auto simp: runLeased_def split: sum.splits list.splits)
  from sess [OF le(3)] obtain sub host pre post where p: "fst (runSession env cfg req (sn_TaskSpecs scenario) w leases (of_nat bd)) =
      pre @ fst (workloadStage env cfg req sub host (sn_TaskSpecs scenario) w leases (of_nat bd)) @ post"
    "BarrierPublished \<notin> set pre" "BarrierPublished \<in> set (fst (workloadStage env cfg req sub host (sn_TaskSpecs scenario) w leases (of_nat bd)))"
    by blast
  from fx obtain tail where "Run env cfg mgr req = fst (runBody env cfg mgr req) @ tail" by blast
  then have "Run env cfg mgr req = ([Tracked, LeasesTaken leases, BandTaken bd] @ pre) @
      fst (workloadStage env cfg req sub host (sn_TaskSpecs scenario) w leases (of_nat bd)) @ (post @ [BandReleased, LeasesReleased, Dropped] @ tail)"
    using sc(2) le(2) p(1) by (simp add: w_def)
  moreover have "BarrierPublished \<notin> set ([Tracked, LeasesTaken leases, BandTaken bd] @ pre)" using p(2) by simp
  ultimately show ?thesis using sc(1) le(1) p(3) w_def by blast
qed

lemma card_lessThan_u32: "card {..<w :: u32} = unat w" "finite {..<w :: u32}"
proof -
  have "unat ` {..<w} = {..<unat w}"
  proof (intro equalityI subsetI)
    fix n assume "n \<in> {..<unat w}"
    then have "unat (of_nat n :: u32) = n" "(of_nat n :: u32) < w"
      using unsigned_less [of w, where ?'a = nat] by (simp_all add: word_less_nat_alt unat_of_nat)
    then show "n \<in> unat ` {..<w}" by (metis imageI lessThan_iff)
  qed (auto simp: word_less_nat_alt)
  then show "card {..<w} = unat w" by (metis card_image card_lessThan inj_on_def word_unat_eq_iff)
qed simp

text \<open>As many distinct indices as workers, each the index of a worker, are all of them.\<close>

lemma indices_all:
  fixes w :: u32
  assumes "unat w \<le> card (rs_WorkerIndex ` set sigs)" "\<forall>sig\<in>set sigs. rs_WorkerIndex sig < w"
  shows "rs_WorkerIndex ` set sigs = {..<w}"
  using assms card_lessThan_u32 by (intro card_subset_eq card_seteq) auto

text \<open>
  The fan-in does not compare an index with the number of workers: a signal with an index
  beyond it counts as a worker, and the barrier goes out although worker 0 is not ready.
\<close>

lemma stray_index_counts:
  "BarrierPublished \<in> set (Run (demoEnv\<lparr>re_ready := [demoSig 1, demoSig 7]\<rparr>) demoConfig [] demoRunReq)"
  by code_simp

text \<open>C36.
  The barrier is only published after the fleet was admitted and fanned in. When a run publishes
  the barrier, it has published the workload specs before: unless the producer is switched off,
  one message per worker, each going to a partition the run has leased; the pre-scale gate, where
  it applies, has seen a stable consumer group with a member for every worker; and ready signals
  with at least as many distinct worker indices as the session has workers were received. Where
  all of these are indices of the session's workers, that is every one of its workers: the code
  does not check that they are.
\<close>

theorem barrier_after_fleet_ready:
  assumes "BarrierPublished \<in> set (Run env cfg mgr req)"
  shows "\<exists>scenario leases msgs pre post n w. re_LoadScenario env = Ret (Some scenario) \<and> re_Acquire env = Inr leases \<and>
    w = computeWorkerCountForLoad (int (length (sn_TaskSpecs scenario))) (totalTargetRPS (sn_TaskSpecs scenario))
          (rc_MaxTasksPerWorker cfg) (rc_WorkerRPSCapacity cfg) \<and>
    Run env cfg mgr req = pre @ SpecsPublished msgs # post \<and> BarrierPublished \<notin> set pre \<and>
    (re_noop env \<or> length msgs = unat w \<and> map (\<lambda>m. Balance fallback m parts) msgs = map int leases) \<and>
    (case re_probes env of None \<Rightarrow> True
     | Some (p, ps) \<Rightarrow> uint w \<le> 1 \<or> re_capacityTimeout env \<le> 0 \<or> list_ex (enough (uint w)) (p # ps)) \<and>
    unat w \<le> card (rs_WorkerIndex ` set (take n (re_ready env))) \<and>
    ((\<forall>sig\<in>set (take n (re_ready env)). rs_WorkerIndex sig < w) \<longrightarrow> rs_WorkerIndex ` set (take n (re_ready env)) = {..<w})"
proof -
  from Run_barrier [OF assms] obtain scenario leases sub host band pre post w
    where r: "re_LoadScenario env = Ret (Some scenario)" "re_Acquire env = Inr leases"
      "w = computeWorkerCountForLoad (int (length (sn_TaskSpecs scenario))) (totalTargetRPS (sn_TaskSpecs scenario))
          (rc_MaxTasksPerWorker cfg) (rc_WorkerRPSCapacity cfg)"
      "Run env cfg mgr req = pre @ fst (workloadStage env cfg req sub host (sn_TaskSpecs scenario) w leases band) @ post"
      "BarrierPublished \<notin> set pre" "BarrierPublished \<in> set (fst (workloadStage env cfg req sub host (sn_TaskSpecs scenario) w leases band))"
    by blast
  from workloadStage_barrier [OF r(6)] obtain specs msgs fx got
    where s: "buildWorkloadSpecs cfg (re_nowNs env) (br_SessionID req) (br_SubmissionID req) host sub (sn_TaskSpecs scenario) w band = Some specs"
      "gate env w = Ret ()" "PublishWorkloadSpec (writeFault (re_Write env)) (re_noop env) specs (map int leases) = (None, msgs)"
      "awaitReady w (re_readyEnd env) [] (re_ready env) = Inr got"
      "fst (workloadStage env cfg req sub host (sn_TaskSpecs scenario) w leases band) = SpecsPublished msgs # fx" by blast
  have "Run env cfg mgr req = pre @ SpecsPublished msgs # (fx @ post)" using r(4) s(5) by simp
  moreover have "re_noop env \<or> length msgs = unat w \<and> map (\<lambda>m. Balance fallback m parts) msgs = map int leases"
  proof (cases "re_noop env")
    case False
    then have "length (map int leases) = length specs" "msgs = buildWorkloadMessages specs (map int leases)"
      using s(3) by (auto simp: PublishWorkloadSpec_def Let_def split: if_splits)
    moreover have "length specs = unat w" using s(1) by (auto simp: buildWorkloadSpecs_def Let_def)
    ultimately show ?thesis using messages_routed(2) [of "map int leases" specs fallback parts] by (metis length_map)
  qed simp
  moreover have "case re_probes env of None \<Rightarrow> True
     | Some (p, ps) \<Rightarrow> uint w \<le> 1 \<or> re_capacityTimeout env \<le> 0 \<or> list_ex (enough (uint w)) (p # ps)"
    using s(2) capacityLoop_enough by (fastforce simp: gate_def awaitCapacity_def split: option.splits if_splits)
  moreover obtain n where n: "unat w \<le> card (rs_WorkerIndex ` set (take n (re_ready env)))" using awaitReady_got [OF s(4)] by auto
  moreover note indices_all [OF n]
  ultimately show ?thesis using r(1,2,3,5) by blast
qed

theorem barrier_after_fleet_ready_witness:
  "\<exists>msgs pre post. Run demoEnv demoConfig [] demoRunReq = pre @ SpecsPublished msgs # post \<and> BarrierPublished \<notin> set pre \<and>
     map (\<lambda>m. Balance (\<lambda>_ _. 0) m []) msgs = [4, 1]"
proof -
  have e: "re_noop demoEnv = False" "re_Acquire demoEnv = Inr [4, 1]" by (simp_all add: demoEnv_def)
  obtain leases msgs pre post where l: "re_Acquire demoEnv = Inr leases"
    "Run demoEnv demoConfig [] demoRunReq = pre @ SpecsPublished msgs # post" "BarrierPublished \<notin> set pre"
    "re_noop demoEnv \<or> map (\<lambda>m. Balance (\<lambda>_ _. 0) m []) msgs = map int leases"
    using barrier_after_fleet_ready [OF demoRun_completes(2), of "\<lambda>_ _. 0" "[]"] by blast
  then have "map (\<lambda>m. Balance (\<lambda>_ _. 0) m []) msgs = [4, 1]" using e by auto
  then show ?thesis using l(2,3) by (intro exI [of _ msgs] exI [of _ pre] exI [of _ post] conjI)
qed

end
