(* ===== verification/Dispatch.thy ===== *)
theory Dispatch
  imports Topics
begin

text \<open>
  Two ends of the bot-fleet-controller's service: the consumer of \<open>benchmark.requested\<close>, which
  starts sessions under a bound on their number (\<open>consumer.go\<close>), as a step relation between
  its loop and the session goroutines; and the startup recovery, which closes the runs a
  restarted controller left open (\<open>recovery.go\<close>), over the tables its statements update
  (\<open>store/postgres.go\<close>).
\<close>

section \<open>Dispatching sessions\<close>

definition defaultMaxConcurrentSessions :: int where
  "defaultMaxConcurrentSessions = 4"

text \<open>
  Where the loop is: about to fetch, holding a decoded message while it waits for a slot, holding one that has a
  slot, or returned.
\<close>

datatype loopAt = Fetching | Blocked BenchmarkRequested | Accepted BenchmarkRequested | Stopped

record Consumer =
  co_max :: nat
  co_sem :: nat
  co_at :: loopAt
  co_next :: nat
  co_committed :: "nat list"
  co_announced :: "BenchmarkRequested list"
  co_started :: "BenchmarkRequested list"
  co_running :: "BenchmarkRequested list"

definition NewConsumerWithConcurrency :: "int \<Rightarrow> Consumer" where
  "NewConsumerWithConcurrency n = \<lparr>co_max = nat (if n \<le> 0 then defaultMaxConcurrentSessions else n), co_sem = 0, co_at = Fetching,
     co_next = 0, co_committed = [], co_announced = [], co_started = [], co_running = []\<rparr>"

text \<open>A message that does not decode is committed and passed over; \<open>ok\<close> says whether the commit succeeds.\<close>

definition fetched :: "bool \<Rightarrow> BenchmarkRequested option \<Rightarrow> Consumer \<Rightarrow> Consumer" where
  "fetched ok m c = (case m of
     None \<Rightarrow> c\<lparr>co_next := Suc (co_next c), co_committed := (if ok then co_committed c @ [co_next c] else co_committed c)\<rparr>
   | Some req \<Rightarrow> c\<lparr>co_at := Blocked req, co_announced := co_announced c @ [req]\<rparr>)"

definition acquireDispatchSlot :: "Consumer \<Rightarrow> Consumer option" where
  "acquireDispatchSlot c = (case co_at c of
     Blocked req \<Rightarrow> if co_sem c < co_max c then Some (c\<lparr>co_sem := Suc (co_sem c), co_at := Accepted req\<rparr>) else None
   | _ \<Rightarrow> None)"

definition startSession :: "bool \<Rightarrow> Consumer \<Rightarrow> Consumer option" where
  "startSession ok c = (case co_at c of
     Accepted req \<Rightarrow> Some (c\<lparr>co_at := Fetching, co_next := Suc (co_next c),
       co_committed := (if ok then co_committed c @ [co_next c] else co_committed c),
       co_started := co_started c @ [req], co_running := co_running c @ [req]\<rparr>)
   | _ \<Rightarrow> None)"

text \<open>The deferred function of \<open>dispatch\<close>, after \<open>Run\<close> has returned or panicked.\<close>

definition dispatchDone :: "nat \<Rightarrow> Consumer \<Rightarrow> Consumer" where
  "dispatchDone i c = c\<lparr>co_running := take i (co_running c) @ drop (Suc i) (co_running c), co_sem := co_sem c - 1\<rparr>"

inductive cstep :: "BenchmarkRequested option list \<Rightarrow> Consumer \<Rightarrow> Consumer \<Rightarrow> bool" for topic where
  fetch: "\<lbrakk>co_at c = Fetching; co_next c < length topic\<rbrakk> \<Longrightarrow> cstep topic c (fetched ok (topic ! co_next c) c)"
| admit: "acquireDispatchSlot c = Some c' \<Longrightarrow> cstep topic c c'"
| start: "startSession ok c = Some c' \<Longrightarrow> cstep topic c c'"
| stop: "co_at c = Fetching \<or> (\<exists>req. co_at c = Blocked req) \<Longrightarrow> cstep topic c (c\<lparr>co_at := Stopped\<rparr>)"
| finish: "i < length (co_running c) \<Longrightarrow> cstep topic c (dispatchDone i c)"

inductive_cases cstepE: "cstep topic c c'"

fun slotHeld :: "loopAt \<Rightarrow> nat" where
  "slotHeld (Accepted _) = 1"
| "slotHeld _ = 0"

fun held :: "loopAt \<Rightarrow> BenchmarkRequested list" where
  "held (Blocked req) = [req]"
| "held (Accepted req) = [req]"
| "held _ = []"

definition consumerInv :: "BenchmarkRequested option list \<Rightarrow> Consumer \<Rightarrow> bool" where
  "consumerInv topic c \<longleftrightarrow>
     co_sem c = length (co_running c) + slotHeld (co_at c) \<and> co_sem c \<le> co_max c \<and>
     set (co_running c) \<subseteq> set (co_started c) \<and>
     co_started c = List.map_filter id (take (co_next c) topic) \<and>
     (co_at c \<noteq> Stopped \<longrightarrow> co_announced c = co_started c @ held (co_at c)) \<and>
     (\<exists>rest. co_announced c = co_started c @ rest \<and> length rest \<le> 1) \<and>
     (held (co_at c) \<noteq> [] \<longrightarrow> co_next c < length topic \<and> topic ! co_next c = Some (hd (held (co_at c)))) \<and>
     (\<forall>n\<in>set (co_committed c). n < co_next c)"

lemma map_filter_snoc: "List.map_filter f (xs @ [x]) = List.map_filter f xs @ (case f x of None \<Rightarrow> [] | Some y \<Rightarrow> [y])"
  by (induction xs) (auto simp: List.map_filter_def split: option.splits)

lemma cstep_inv:
  assumes "cstep topic c c'" "consumerInv topic c"
  shows "consumerInv topic c' \<and> co_max c' = co_max c"
  using assms
proof (induction rule: cstep.induct)
  case (fetch c ok)
  then show ?case
    by (auto simp: consumerInv_def fetched_def take_Suc_conv_app_nth map_filter_snoc less_SucI split: option.splits)
next
  case (admit c c')
  then show ?case by (auto simp: consumerInv_def acquireDispatchSlot_def split: loopAt.splits if_splits)
next
  case (start ok c c')
  then show ?case
    by (auto simp: consumerInv_def startSession_def take_Suc_conv_app_nth map_filter_snoc less_SucI split: loopAt.splits if_splits)
next
  case (stop c)
  then show ?case by (auto simp: consumerInv_def)
next
  case (finish i c)
  then have "length (take i (co_running c) @ drop (Suc i) (co_running c)) = length (co_running c) - 1" by simp
  moreover have "set (take i (co_running c) @ drop (Suc i) (co_running c)) \<subseteq> set (co_running c)"
    using set_take_subset set_drop_subset by fastforce
  ultimately show ?case using finish by (auto simp: consumerInv_def dispatchDone_def)
qed

lemma csteps_inv:
  assumes "(cstep topic)\<^sup>*\<^sup>* (NewConsumerWithConcurrency n) c"
  shows "consumerInv topic c \<and> co_max c = nat (if n \<le> 0 then defaultMaxConcurrentSessions else n)"
  using assms
proof (induction rule: rtranclp_induct)
  case base
  then show ?case by (simp add: consumerInv_def NewConsumerWithConcurrency_def List.map_filter_def)
next
  case (step c d)
  then show ?case using cstep_inv by metis
qed

text \<open>
  Sessions are bounded, in order and announced. However the loop and the session goroutines
  interleave, never more than the configured number of sessions (four by default) run at a time; the sessions
  started are exactly the well-formed requests fetched so far, each once and in their order; each was announced as
  queued before, with at most one announced and not yet started; and no offset is
  committed before its request was passed over or started.
\<close>

lemma sessions_bounded_in_order:
  assumes "(cstep topic)\<^sup>*\<^sup>* (NewConsumerWithConcurrency n) c"
  shows "length (co_running c) \<le> nat (if n \<le> 0 then 4 else n) \<and> set (co_running c) \<subseteq> set (co_started c) \<and>
    co_started c = List.map_filter id (take (co_next c) topic) \<and>
    (\<exists>rest. co_announced c = co_started c @ rest \<and> length rest \<le> 1) \<and>
    list_all (\<lambda>i. i < co_next c) (co_committed c)"
  using csteps_inv [OF assms] by (auto simp: consumerInv_def defaultMaxConcurrentSessions_def list_all_iff)

section \<open>Startup recovery\<close>

record runsRow =
  rr_session_id :: string
  rr_submission_id :: string
  rr_run_group_id :: "string option"
  rr_status :: string
  rr_message :: string

record runGroupsRow =
  rg_run_group_id :: string
  rg_status :: string

record ControllerDB =
  cd_runs :: "runsRow list"
  cd_groups :: "runGroupsRow list"

record InFlightRun =
  if_SessionID :: string
  if_SubmissionID :: string
  if_RunGroupID :: string
  if_Status :: string

definition inFlight :: "string \<Rightarrow> bool" where
  "inFlight status \<longleftrightarrow> status \<noteq> RunStatusCompleted \<and> status \<noteq> RunStatusFailed"

text \<open>The query has no \<open>ORDER BY\<close>: \<open>order\<close> is the order in which the database returns the rows.\<close>

definition ListInFlightRuns :: "(runsRow list \<Rightarrow> runsRow list) \<Rightarrow> ControllerDB \<Rightarrow> InFlightRun list" where
  "ListInFlightRuns order db =
     map (\<lambda>r. \<lparr>if_SessionID = rr_session_id r, if_SubmissionID = rr_submission_id r,
        if_RunGroupID = (case rr_run_group_id r of None \<Rightarrow> [] | Some g \<Rightarrow> g), if_Status = rr_status r\<rparr>)
       (order (filter (\<lambda>r. inFlight (rr_status r)) (cd_runs db)))"

definition MarkRunFailed :: "string option \<Rightarrow> string \<Rightarrow> string \<Rightarrow> ControllerDB \<Rightarrow> string option \<times> ControllerDB" where
  "MarkRunFailed fault sessionID message db = (case fault of
     Some e \<Rightarrow> (Some (''mark run failed: '' @ e), db)
   | None \<Rightarrow> (None, db\<lparr>cd_runs := map (\<lambda>r. if rr_session_id r = sessionID \<and> inFlight (rr_status r)
       then r\<lparr>rr_status := RunStatusFailed, rr_message := message\<rparr> else r) (cd_runs db)\<rparr>))"

definition MarkRunGroupFailed :: "string option \<Rightarrow> string \<Rightarrow> ControllerDB \<Rightarrow> string option \<times> ControllerDB" where
  "MarkRunGroupFailed fault runGroupID db =
     (if runGroupID = [] then (None, db)
      else case fault of
        Some e \<Rightarrow> (Some (''mark run-group failed: '' @ e), db)
      | None \<Rightarrow> (None, db\<lparr>cd_groups := map (\<lambda>g. if rg_run_group_id g = runGroupID \<and> inFlight (rg_status g)
          then g\<lparr>rg_status := RunStatusFailed\<rparr> else g) (cd_groups db)\<rparr>))"

text \<open>
  The faults of one recovery: of the listing, and for each session and group of its statements
  and message; and the row order of the listing.
\<close>

record RecoveryFaults =
  rf_list :: "string option"
  rf_order :: "runsRow list \<Rightarrow> runsRow list"
  rf_run :: "string \<Rightarrow> string option"
  rf_group :: "string \<Rightarrow> string option"
  rf_publish :: "string \<Rightarrow> string option"
  rf_now :: int

definition recoveryMessage :: string where
  "recoveryMessage = ''controller restart '' @ [CHR 0xE2, CHR 0x80, CHR 0x94] @ '' re-trigger benchmark''"

definition recoveryEvent :: "RecoveryFaults \<Rightarrow> InFlightRun \<Rightarrow> BenchmarkStatusUpdated" where
  "recoveryEvent f r = \<lparr>bs_SessionID = if_SessionID r, bs_SubmissionID = if_SubmissionID r, bs_RunGroupID = if_RunGroupID r,
     bs_Status = RunStatusFailed, bs_Message = recoveryMessage, bs_UpdatedAt = rf_now f\<rparr>"

text \<open>The loop over the runs; \<open>failedGroups\<close> are the groups it has tried to close.\<close>

fun recoverLoop :: "RecoveryFaults \<Rightarrow> string list \<Rightarrow> InFlightRun list \<Rightarrow> ControllerDB \<times> BenchmarkStatusUpdated list \<Rightarrow>
    ControllerDB \<times> BenchmarkStatusUpdated list" where
  "recoverLoop f failedGroups [] (db, pub) = (db, pub)"
| "recoverLoop f failedGroups (r # rs) (db, pub) =
     (case MarkRunFailed (rf_run f (if_SessionID r)) (if_SessionID r) recoveryMessage db of
        (Some e, db') \<Rightarrow> recoverLoop f failedGroups rs (db', pub)
      | (None, db') \<Rightarrow>
          (let first = (if_RunGroupID r \<noteq> [] \<and> if_RunGroupID r \<notin> set failedGroups);
               db'' = (if first then snd (MarkRunGroupFailed (rf_group f (if_RunGroupID r)) (if_RunGroupID r) db') else db');
               pub' = (if rf_publish f (if_SessionID r) = None then pub @ [recoveryEvent f r] else pub)
           in recoverLoop f (if first then if_RunGroupID r # failedGroups else failedGroups) rs (db'', pub')))"

definition RecoverInFlightRuns :: "RecoveryFaults \<Rightarrow> ControllerDB \<Rightarrow> string option \<times> ControllerDB \<times> BenchmarkStatusUpdated list" where
  "RecoverInFlightRuns f db = (case rf_list f of
     Some e \<Rightarrow> (Some (''list in-flight runs: '' @ e), db, [])
   | None \<Rightarrow> (None, recoverLoop f [] (ListInFlightRuns (rf_order f) db) (db, [])))"

definition closeRun :: "string set \<Rightarrow> runsRow \<Rightarrow> runsRow" where
  "closeRun S r = (if rr_session_id r \<in> S \<and> inFlight (rr_status r) then r\<lparr>rr_status := RunStatusFailed, rr_message := recoveryMessage\<rparr> else r)"

definition closeGroup :: "string set \<Rightarrow> runGroupsRow \<Rightarrow> runGroupsRow" where
  "closeGroup S g = (if rg_run_group_id g \<in> S \<and> inFlight (rg_status g) then g\<lparr>rg_status := RunStatusFailed\<rparr> else g)"

lemma not_inFlight_failed [simp]: "\<not> inFlight RunStatusFailed"
  by (simp add: inFlight_def)

lemma closeRun_insert: "closeRun S (closeRun {s} r) = closeRun (insert s S) r"
  by (auto simp: closeRun_def)

lemma closeGroup_insert: "closeGroup S (closeGroup {s} g) = closeGroup (insert s S) g"
  by (auto simp: closeGroup_def)

lemma MarkRunFailed_eq: "MarkRunFailed None s recoveryMessage db = (None, db\<lparr>cd_runs := map (closeRun {s}) (cd_runs db)\<rparr>)"
  by (simp add: MarkRunFailed_def closeRun_def)

lemma MarkRunGroupFailed_eq:
  "snd (MarkRunGroupFailed fault g db) = (if g = [] \<or> fault \<noteq> None then db else db\<lparr>cd_groups := map (closeGroup {g}) (cd_groups db)\<rparr>)"
  by (simp add: MarkRunGroupFailed_def closeGroup_def split: option.split)

text \<open>The runs that are marked, and the groups closed with them.\<close>

definition markedRuns :: "RecoveryFaults \<Rightarrow> InFlightRun list \<Rightarrow> InFlightRun list" where
  "markedRuns f rs = filter (\<lambda>r. rf_run f (if_SessionID r) = None) rs"

definition closedGroups :: "RecoveryFaults \<Rightarrow> InFlightRun list \<Rightarrow> string set" where
  "closedGroups f rs = {g \<in> if_RunGroupID ` set (markedRuns f rs). g \<noteq> [] \<and> rf_group f g = None}"

lemma recoverLoop_eq:
  "recoverLoop f G rs (db, pub) =
     (db\<lparr>cd_runs := map (closeRun (if_SessionID ` set (markedRuns f rs))) (cd_runs db),
         cd_groups := map (closeGroup (closedGroups f rs - set G)) (cd_groups db)\<rparr>,
      pub @ map (recoveryEvent f) (filter (\<lambda>r. rf_publish f (if_SessionID r) = None) (markedRuns f rs)))"
proof (induction rs arbitrary: G db pub)
  case Nil
  have "map (closeRun {}) xs = xs" "map (closeGroup {}) ys = ys" for xs ys by (simp_all add: closeRun_def closeGroup_def map_idI)
  then show ?case by (simp add: markedRuns_def closedGroups_def)
next
  case (Cons r rs)
  show ?case
  proof (cases "rf_run f (if_SessionID r)")
    case (Some e)
    then have "recoverLoop f G (r # rs) (db, pub) = recoverLoop f G rs (db, pub)" by (simp add: MarkRunFailed_def)
    then show ?thesis using Some Cons.IH by (simp add: markedRuns_def closedGroups_def)
  next
    case None
    let ?g = "if_RunGroupID r"
    have m: "markedRuns f (r # rs) = r # markedRuns f rs" using None by (simp add: markedRuns_def)
    have cg: "closedGroups f (r # rs) = closedGroups f rs \<union> (if ?g \<noteq> [] \<and> rf_group f ?g = None then {?g} else {})"
      by (auto simp: closedGroups_def m)
    show ?thesis
    proof (cases "?g \<noteq> [] \<and> ?g \<notin> set G")
      case True
      have "if rf_group f ?g = None then insert ?g (closedGroups f rs - insert ?g (set G)) = closedGroups f (r # rs) - set G
          else closedGroups f rs - insert ?g (set G) = closedGroups f (r # rs) - set G"
        using True cg by (auto simp: closedGroups_def)
      then show ?thesis using None True
        by (cases "rf_group f ?g") (simp_all add: MarkRunFailed_eq MarkRunGroupFailed_eq Cons.IH m closeRun_insert closeGroup_insert o_def Let_def)
    next
      case False
      then have "closedGroups f (r # rs) - set G = closedGroups f rs - set G" using cg by auto
      then show ?thesis using None False
        by (auto simp: MarkRunFailed_eq Cons.IH m closeRun_insert o_def Let_def)
    qed
  qed
qed

text \<open>What the database may do with the row order: any permutation.\<close>

definition anyRowOrder :: "(runsRow list \<Rightarrow> runsRow list) \<Rightarrow> bool" where
  "anyRowOrder order \<longleftrightarrow> (\<forall>rows. mset (order rows) = mset rows)"

definition groupText :: "runsRow \<Rightarrow> string" where
  "groupText r = (case rr_run_group_id r of None \<Rightarrow> [] | Some g \<Rightarrow> g)"

lemma set_order: "anyRowOrder order \<Longrightarrow> set (order rows) = set rows"
  unfolding anyRowOrder_def by (metis mset_eq_setD)

lemma listed:
  assumes "anyRowOrder order"
  shows "if_SessionID ` set (markedRuns f (ListInFlightRuns order db)) =
      {rr_session_id r | r. r \<in> set (cd_runs db) \<and> inFlight (rr_status r) \<and> rf_run f (rr_session_id r) = None}"
    "if_RunGroupID ` set (markedRuns f (ListInFlightRuns order db)) =
      {groupText r | r. r \<in> set (cd_runs db) \<and> inFlight (rr_status r) \<and> rf_run f (rr_session_id r) = None}"
  by (auto simp: markedRuns_def ListInFlightRuns_def groupText_def filter_map image_image set_order [OF assms])

text \<open>C37.
  Recovery closes what the restart left open, and nothing else, in whatever order the database
  lists the rows. When the listing succeeds, exactly the runs in flight whose statement
  succeeds become failed, and every other row of the runs stays as it is; exactly the
  groups that are still open, belong to such a run and whose statement succeeds become failed, and
  every other row of the groups stays as it is; exactly the failures of these runs are announced, once each and with the run's submission
  and group, where the message goes through. After a recovery without faults in the run
  statements no run is in flight, so a second recovery finds none.
\<close>

theorem recovery_closes_in_flight:
  assumes "anyRowOrder (rf_order f)" "RecoverInFlightRuns f db = (None, db', pub)"
  shows "cd_runs db' = map (\<lambda>r. if inFlight (rr_status r) \<and> rf_run f (rr_session_id r) = None
      then r\<lparr>rr_status := RunStatusFailed, rr_message := recoveryMessage\<rparr> else r) (cd_runs db) \<and>
    cd_groups db' = map (\<lambda>g. if inFlight (rg_status g) \<and> rg_run_group_id g \<noteq> [] \<and> rf_group f (rg_run_group_id g) = None \<and>
        (\<exists>r. r \<in> set (cd_runs db) \<and> inFlight (rr_status r) \<and> rf_run f (rr_session_id r) = None \<and> rr_run_group_id r = Some (rg_run_group_id g))
      then g\<lparr>rg_status := RunStatusFailed\<rparr> else g) (cd_groups db) \<and>
    mset pub = mset (map (\<lambda>r. \<lparr>bs_SessionID = rr_session_id r, bs_SubmissionID = rr_submission_id r, bs_RunGroupID = groupText r,
        bs_Status = RunStatusFailed, bs_Message = recoveryMessage, bs_UpdatedAt = rf_now f\<rparr>)
      (filter (\<lambda>r. inFlight (rr_status r) \<and> rf_run f (rr_session_id r) = None \<and> rf_publish f (rr_session_id r) = None) (cd_runs db))) \<and>
    ((\<forall>s. rf_run f s = None) \<longrightarrow> ListInFlightRuns (rf_order f) db' = [])"
proof -
  let ?rs = "ListInFlightRuns (rf_order f) db"
  have db': "db' = db\<lparr>cd_runs := map (closeRun (if_SessionID ` set (markedRuns f ?rs))) (cd_runs db),
      cd_groups := map (closeGroup (closedGroups f ?rs)) (cd_groups db)\<rparr>"
    and pub: "pub = map (recoveryEvent f) (filter (\<lambda>r. rf_publish f (if_SessionID r) = None) (markedRuns f ?rs))"
    using assms(2) by (simp_all add: RecoverInFlightRuns_def recoverLoop_eq split: option.splits)
  have r: "cd_runs db' = map (\<lambda>r. if inFlight (rr_status r) \<and> rf_run f (rr_session_id r) = None
      then r\<lparr>rr_status := RunStatusFailed, rr_message := recoveryMessage\<rparr> else r) (cd_runs db)"
    by (auto simp: db' closeRun_def listed(1) [OF assms(1)])
  have "x \<in> closedGroups f ?rs \<longleftrightarrow> x \<noteq> [] \<and> rf_group f x = None \<and>
      (\<exists>r. r \<in> set (cd_runs db) \<and> inFlight (rr_status r) \<and> rf_run f (rr_session_id r) = None \<and> rr_run_group_id r = Some x)" for x
    unfolding closedGroups_def listed(2) [OF assms(1)] by (force simp: groupText_def split: option.splits)
  then have g: "cd_groups db' = map (\<lambda>g. if inFlight (rg_status g) \<and> rg_run_group_id g \<noteq> [] \<and> rf_group f (rg_run_group_id g) = None \<and>
      (\<exists>r. r \<in> set (cd_runs db) \<and> inFlight (rr_status r) \<and> rf_run f (rr_session_id r) = None \<and> rr_run_group_id r = Some (rg_run_group_id g))
      then g\<lparr>rg_status := RunStatusFailed\<rparr> else g) (cd_groups db)" by (auto simp: db' closeGroup_def)
  have "mset pub = image_mset (\<lambda>r. recoveryEvent f \<lparr>if_SessionID = rr_session_id r, if_SubmissionID = rr_submission_id r,
        if_RunGroupID = groupText r, if_Status = rr_status r\<rparr>)
      (mset (filter (\<lambda>r. rf_run f (rr_session_id r) = None \<and> rf_publish f (rr_session_id r) = None)
         (rf_order f (filter (\<lambda>r. inFlight (rr_status r)) (cd_runs db)))))"
    by (simp add: pub markedRuns_def ListInFlightRuns_def filter_map o_def groupText_def conj_commute)
  then have p: "mset pub = mset (map (\<lambda>r. \<lparr>bs_SessionID = rr_session_id r, bs_SubmissionID = rr_submission_id r, bs_RunGroupID = groupText r,
        bs_Status = RunStatusFailed, bs_Message = recoveryMessage, bs_UpdatedAt = rf_now f\<rparr>)
      (filter (\<lambda>r. inFlight (rr_status r) \<and> rf_run f (rr_session_id r) = None \<and> rf_publish f (rr_session_id r) = None) (cd_runs db)))"
    using assms(1) by (simp add: anyRowOrder_def recoveryEvent_def filter_filter_mset conj_ac)
  have "ListInFlightRuns (rf_order f) db' = []" if "\<forall>s. rf_run f s = None"
  proof -
    have "filter (\<lambda>r. inFlight (rr_status r)) (cd_runs db') = []" using that by (auto simp: r filter_empty_conv)
    then show ?thesis using set_order [OF assms(1), of "[]"] by (simp add: ListInFlightRuns_def)
  qed
  then show ?thesis using r g p by blast
qed

definition demoDB :: ControllerDB where
  "demoDB = \<lparr>cd_runs = [\<lparr>rr_session_id = ''a'', rr_submission_id = ''sub'', rr_run_group_id = Some ''g'', rr_status = RunStatusRunning, rr_message = []\<rparr>,
     \<lparr>rr_session_id = ''b'', rr_submission_id = ''sub'', rr_run_group_id = Some ''h'', rr_status = RunStatusCompleted, rr_message = []\<rparr>],
     cd_groups = [\<lparr>rg_run_group_id = ''g'', rg_status = RunStatusRunning\<rparr>, \<lparr>rg_run_group_id = ''h'', rg_status = RunStatusRunning\<rparr>]\<rparr>"

definition noFaults :: RecoveryFaults where
  "noFaults = \<lparr>rf_list = None, rf_order = rev, rf_run = (\<lambda>_. None), rf_group = (\<lambda>_. None), rf_publish = (\<lambda>_. None), rf_now = 0\<rparr>"

theorem recovery_closes_in_flight_witness:
  "map bs_SessionID (snd (snd (RecoverInFlightRuns noFaults demoDB))) = [''a''] \<and>
   map rg_status (cd_groups (fst (snd (RecoverInFlightRuns noFaults demoDB)))) = [RunStatusFailed, RunStatusRunning] \<and>
   ListInFlightRuns rev (fst (snd (RecoverInFlightRuns noFaults demoDB))) = []"
proof -
  have o: "anyRowOrder (rf_order noFaults)" "rf_order noFaults = rev" by (simp_all add: noFaults_def anyRowOrder_def)
  have l: "\<And>s. rf_run noFaults s = None" by (simp add: noFaults_def)
  have r: "RecoverInFlightRuns noFaults demoDB = (None, fst (snd (RecoverInFlightRuns noFaults demoDB)), snd (snd (RecoverInFlightRuns noFaults demoDB)))"
    by (simp add: RecoverInFlightRuns_def noFaults_def)
  note t = recovery_closes_in_flight [OF o(1) r]
  have st: "inFlight RunStatusRunning" "\<not> inFlight RunStatusCompleted"
    by (simp_all add: inFlight_def RunStatusRunning_def RunStatusCompleted_def RunStatusFailed_def)
  have own: "(\<exists>r. r \<in> set (cd_runs demoDB) \<and> inFlight (rr_status r) \<and> rf_run noFaults (rr_session_id r) = None \<and> rr_run_group_id r = Some x) \<longleftrightarrow>
      x = ''g''" for x
  proof -
    have "?thesis \<longleftrightarrow> ((\<exists>r\<in>set (cd_runs demoDB). inFlight (rr_status r) \<and> rf_run noFaults (rr_session_id r) = None \<and> rr_run_group_id r = Some x) \<longleftrightarrow>
        x = ''g'')" by blast
    then show ?thesis by (simp add: demoDB_def noFaults_def st eq_commute [of "''g''"])
  qed
  have "mset (map bs_SessionID (snd (snd (RecoverInFlightRuns noFaults demoDB)))) = {#''a''#}"
    unfolding mset_map conjunct1 [OF conjunct2 [OF conjunct2 [OF t]]] by (simp add: demoDB_def noFaults_def st)
  then have "map bs_SessionID (snd (snd (RecoverInFlightRuns noFaults demoDB))) = [''a'']" by (metis mset_single_iff_right)
  moreover have "cd_groups (fst (snd (RecoverInFlightRuns noFaults demoDB))) =
      [\<lparr>rg_run_group_id = ''g'', rg_status = RunStatusFailed\<rparr>, \<lparr>rg_run_group_id = ''h'', rg_status = RunStatusRunning\<rparr>]"
    unfolding conjunct1 [OF conjunct2 [OF t]] own by (simp add: demoDB_def noFaults_def st)
  ultimately show ?thesis using conjunct2 [OF conjunct2 [OF conjunct2 [OF t]]] l o(2) by simp
qed

end
