(* ===== verification/Scenarios.thy ===== *)
theory Scenarios
  imports Topics
begin

text \<open>
  The scenarios of the submission-api, \<open>scenarios/builder.go\<close>: the configuration and its
  reading from the environment, its validation, and the task lists of the constant, spike, ramp and
  correctness scenarios. Durations are nanoseconds in an \<open>int64\<close>; \<open>uint32\<close> arithmetic
  wraps. \<open>getenv\<close> is the environment, with the empty string for a variable that is not set,
  and the identifiers come from the uuid library.
\<close>

section \<open>Configuration\<close>

record Config_sa =
  cf_ConstantDuration :: int
  cf_SpikeDuration :: int
  cf_RampDuration :: int
  cf_CorrectnessDuration :: int
  cf_ConstantTotalRPS :: u32
  cf_SpikePeakRPS :: u32
  cf_RampPeakRPS :: u32
  cf_SpikePreWindow :: int
  cf_SpikeBurstWindow :: int
  cf_MixHFTPct :: u32
  cf_MixRetailPct :: u32
  cf_MixInstitutionalPct :: u32
  cf_HFTMarketPct :: u8
  cf_HFTCancelPct :: u8
  cf_HFTReplacePct :: u8
  cf_RetailMarketPct :: u8
  cf_RetailCancelPct :: u8
  cf_RetailReplacePct :: u8
  cf_InstitutionalMarketPct :: u8
  cf_InstitutionalCancelPct :: u8
  cf_InstitutionalReplacePct :: u8

definition rpsPerHFT :: u32 where
  "rpsPerHFT = 1000"

definition rpsPerRetail :: u32 where
  "rpsPerRetail = 5"

definition rpsPerInstitutional :: u32 where
  "rpsPerInstitutional = 300"

definition rampWaveCount :: nat where
  "rampWaveCount = 9"

definition time_Second :: int where
  "time_Second = 1000000000"

definition rampWaveCadence :: int where
  "rampWaveCadence = 20 * time_Second"

definition DefaultConfig_sa :: Config_sa where
  "DefaultConfig_sa = \<lparr>
     cf_ConstantDuration = 60 * time_Second, cf_SpikeDuration = 60 * time_Second,
     cf_RampDuration = 180 * time_Second, cf_CorrectnessDuration = 45 * time_Second,
     cf_ConstantTotalRPS = 10000, cf_SpikePeakRPS = 50000, cf_RampPeakRPS = 90000,
     cf_SpikePreWindow = 25 * time_Second, cf_SpikeBurstWindow = 10 * time_Second,
     cf_MixHFTPct = 60, cf_MixRetailPct = 25, cf_MixInstitutionalPct = 15,
     cf_HFTMarketPct = 10, cf_HFTCancelPct = 30, cf_HFTReplacePct = 10,
     cf_RetailMarketPct = 65, cf_RetailCancelPct = 5, cf_RetailReplacePct = 0,
     cf_InstitutionalMarketPct = 20, cf_InstitutionalCancelPct = 0, cf_InstitutionalReplacePct = 0\<rparr>"

text \<open>Decimal numbers as \<open>strconv\<close> reads them; \<open>None\<close> is its error.\<close>

fun digitsVal :: "nat \<Rightarrow> string \<Rightarrow> nat option" where
  "digitsVal acc [] = Some acc"
| "digitsVal acc (c # cs) = (let d = (of_char c :: nat) in
     if 48 \<le> d \<and> d \<le> 57 then digitsVal (10 * acc + (d - 48)) cs else None)"

definition strconv_ParseUint :: "nat \<Rightarrow> string \<Rightarrow> nat option" where
  "strconv_ParseUint bits v = (if v = [] then None
     else case digitsVal 0 v of None \<Rightarrow> None | Some n \<Rightarrow> if n < 2 ^ bits then Some n else None)"

definition strconv_Atoi :: "string \<Rightarrow> int option" where
  "strconv_Atoi v =
     (let (neg, ds) = (case v of c # cs \<Rightarrow> if c = CHR ''-'' then (True, cs) else if c = CHR ''+'' then (False, cs) else (False, v)
        | [] \<Rightarrow> (False, v)) in
      if ds = [] then None
      else case digitsVal 0 ds of None \<Rightarrow> None
        | Some n \<Rightarrow> if neg then (if n \<le> 2 ^ 63 then Some (- int n) else None) else if n < 2 ^ 63 then Some (int n) else None)"

definition envSeconds :: "(string \<Rightarrow> string) \<Rightarrow> string \<Rightarrow> int \<Rightarrow> int" where
  "envSeconds getenv key def =
     (if getenv key = [] then def
      else case strconv_Atoi (getenv key) of None \<Rightarrow> def
        | Some n \<Rightarrow> if n \<le> 0 then def else int64 (word_of_int (n * time_Second)))"

definition envUint32 :: "(string \<Rightarrow> string) \<Rightarrow> string \<Rightarrow> u32 \<Rightarrow> u32" where
  "envUint32 getenv key def =
     (if getenv key = [] then def
      else case strconv_ParseUint 32 (getenv key) of None \<Rightarrow> def | Some n \<Rightarrow> if n = 0 then def else of_nat n)"

definition envUint8 :: "(string \<Rightarrow> string) \<Rightarrow> string \<Rightarrow> u8 \<Rightarrow> u8" where
  "envUint8 getenv key def =
     (if getenv key = [] then def
      else case strconv_ParseUint 8 (getenv key) of None \<Rightarrow> def | Some n \<Rightarrow> of_nat n)"

definition ConfigFromEnv :: "(string \<Rightarrow> string) \<Rightarrow> Config_sa" where
  "ConfigFromEnv getenv = (let c = DefaultConfig_sa in \<lparr>
     cf_ConstantDuration = envSeconds getenv ''CONSTANT_DURATION_S'' (cf_ConstantDuration c),
     cf_SpikeDuration = envSeconds getenv ''SPIKE_DURATION_S'' (cf_SpikeDuration c),
     cf_RampDuration = envSeconds getenv ''RAMP_DURATION_S'' (cf_RampDuration c),
     cf_CorrectnessDuration = envSeconds getenv ''CORRECTNESS_DURATION_S'' (cf_CorrectnessDuration c),
     cf_ConstantTotalRPS = envUint32 getenv ''CONSTANT_TOTAL_RPS'' (cf_ConstantTotalRPS c),
     cf_SpikePeakRPS = envUint32 getenv ''SPIKE_PEAK_RPS'' (cf_SpikePeakRPS c),
     cf_RampPeakRPS = envUint32 getenv ''RAMP_PEAK_RPS'' (cf_RampPeakRPS c),
     cf_SpikePreWindow = envSeconds getenv ''SPIKE_PREWINDOW_S'' (cf_SpikePreWindow c),
     cf_SpikeBurstWindow = envSeconds getenv ''SPIKE_BURST_S'' (cf_SpikeBurstWindow c),
     cf_MixHFTPct = envUint32 getenv ''MIX_HFT_PCT'' (cf_MixHFTPct c),
     cf_MixRetailPct = envUint32 getenv ''MIX_RETAIL_PCT'' (cf_MixRetailPct c),
     cf_MixInstitutionalPct = envUint32 getenv ''MIX_INSTITUTIONAL_PCT'' (cf_MixInstitutionalPct c),
     cf_HFTMarketPct = envUint8 getenv ''HFT_MARKET_PCT'' (cf_HFTMarketPct c),
     cf_HFTCancelPct = envUint8 getenv ''HFT_CANCEL_PCT'' (cf_HFTCancelPct c),
     cf_HFTReplacePct = envUint8 getenv ''HFT_REPLACE_PCT'' (cf_HFTReplacePct c),
     cf_RetailMarketPct = envUint8 getenv ''RETAIL_MARKET_PCT'' (cf_RetailMarketPct c),
     cf_RetailCancelPct = envUint8 getenv ''RETAIL_CANCEL_PCT'' (cf_RetailCancelPct c),
     cf_RetailReplacePct = envUint8 getenv ''RETAIL_REPLACE_PCT'' (cf_RetailReplacePct c),
     cf_InstitutionalMarketPct = envUint8 getenv ''INSTITUTIONAL_MARKET_PCT'' (cf_InstitutionalMarketPct c),
     cf_InstitutionalCancelPct = envUint8 getenv ''INSTITUTIONAL_CANCEL_PCT'' (cf_InstitutionalCancelPct c),
     cf_InstitutionalReplacePct = envUint8 getenv ''INSTITUTIONAL_REPLACE_PCT'' (cf_InstitutionalReplacePct c)\<rparr>)"

datatype scenErr =
    DurationsNotPositive
  | BudgetsNotPositive
  | SpikeBelowBaseline u32 u32
  | SpikeTooLong
  | RampTooShort
  | MixNot100 u32
  | PctOutOfRange u8
  | UuidError string

definition actionPcts :: "Config_sa \<Rightarrow> u8 list" where
  "actionPcts c = [cf_HFTMarketPct c, cf_HFTCancelPct c, cf_HFTReplacePct c,
     cf_RetailMarketPct c, cf_RetailCancelPct c, cf_RetailReplacePct c,
     cf_InstitutionalMarketPct c, cf_InstitutionalCancelPct c, cf_InstitutionalReplacePct c]"

definition validate_sa :: "Config_sa \<Rightarrow> scenErr option" where
  "validate_sa c =
     (if cf_ConstantDuration c \<le> 0 \<or> cf_SpikeDuration c \<le> 0 \<or> cf_RampDuration c \<le> 0 \<or> cf_CorrectnessDuration c \<le> 0
      then Some DurationsNotPositive
      else if cf_ConstantTotalRPS c = 0 \<or> cf_SpikePeakRPS c = 0 \<or> cf_RampPeakRPS c = 0 then Some BudgetsNotPositive
      else if cf_SpikePeakRPS c < cf_ConstantTotalRPS c then Some (SpikeBelowBaseline (cf_SpikePeakRPS c) (cf_ConstantTotalRPS c))
      else if int64 (word_of_int (cf_SpikePreWindow c + cf_SpikeBurstWindow c)) > cf_SpikeDuration c then Some SpikeTooLong
      else if cf_RampDuration c \<le> (int rampWaveCount - 1) * rampWaveCadence then Some RampTooShort
      else if cf_MixHFTPct c + cf_MixRetailPct c + cf_MixInstitutionalPct c \<noteq> 100
      then Some (MixNot100 (cf_MixHFTPct c + cf_MixRetailPct c + cf_MixInstitutionalPct c))
      else map_option PctOutOfRange (find (\<lambda>p. p > 100) (actionPcts c)))"

section \<open>Tasks\<close>

definition botCountsForBudget :: "Config_sa \<Rightarrow> u32 \<Rightarrow> u32 \<times> u32 \<times> u32 \<times> u32" where
  "botCountsForBudget cfg totalRPS =
     (let hft = (totalRPS * cf_MixHFTPct cfg div 100) div rpsPerHFT;
          retail = (totalRPS * cf_MixRetailPct cfg div 100) div rpsPerRetail;
          inst = (totalRPS * cf_MixInstitutionalPct cfg div 100) div rpsPerInstitutional
      in (hft, retail, inst, hft * rpsPerHFT + retail * rpsPerRetail + inst * rpsPerInstitutional))"

text \<open>One of the three loops of \<open>buildLayer\<close>: \<open>n\<close> tasks of one profile, numbered from \<open>startID\<close>.\<close>

definition profileTasks :: "string \<Rightarrow> u32 \<Rightarrow> u8 \<Rightarrow> u8 \<Rightarrow> u8 \<Rightarrow> u32 \<Rightarrow> int \<Rightarrow> int \<Rightarrow> u32 \<Rightarrow> TaskSpec list" where
  "profileTasks profile rps market cancel repl startID startOffset duration n =
     map (\<lambda>i. \<lparr>TaskID = startID + of_nat i, Profile = profile, TargetRPS = rps,
        StartOffsetNs = word_of_int startOffset, DurationNs = word_of_int duration,
        MarketPct = market, CancelPct = cancel, ReplacePct = repl, TargetIdx = 0, SMPIDCount = 0\<rparr>) [0..<unat n]"

definition buildLayer :: "Config_sa \<Rightarrow> u32 \<Rightarrow> int \<Rightarrow> int \<Rightarrow> u32 \<Rightarrow> u32 \<Rightarrow> u32 \<Rightarrow> TaskSpec list" where
  "buildLayer cfg startTaskID startOffset duration hftBots retailBots institutionalBots =
     profileTasks ''hft'' rpsPerHFT (cf_HFTMarketPct cfg) (cf_HFTCancelPct cfg) (cf_HFTReplacePct cfg)
       startTaskID startOffset duration hftBots @
     profileTasks ''retail'' rpsPerRetail (cf_RetailMarketPct cfg) (cf_RetailCancelPct cfg) (cf_RetailReplacePct cfg)
       (startTaskID + hftBots) startOffset duration retailBots @
     profileTasks ''institutional'' rpsPerInstitutional (cf_InstitutionalMarketPct cfg) (cf_InstitutionalCancelPct cfg) (cf_InstitutionalReplacePct cfg)
       (startTaskID + hftBots + retailBots) startOffset duration institutionalBots"

definition buildConstantTasks :: "Config_sa \<Rightarrow> u32 \<Rightarrow> int \<Rightarrow> int \<Rightarrow> u32 \<Rightarrow> TaskSpec list" where
  "buildConstantTasks cfg startTaskID startOffset duration totalRPS =
     (let (hft, retail, inst, _) = botCountsForBudget cfg totalRPS in
      buildLayer cfg startTaskID startOffset duration hft retail inst)"

definition buildSpikeTasks :: "Config_sa \<Rightarrow> TaskSpec list" where
  "buildSpikeTasks cfg =
     (let baseline = buildConstantTasks cfg 0 0 (cf_SpikeDuration cfg) (cf_ConstantTotalRPS cfg);
          (extraHFT, extraRetail, extraInst, _) = botCountsForBudget cfg (cf_SpikePeakRPS cfg - cf_ConstantTotalRPS cfg);
          spike = buildLayer cfg (of_nat (length baseline)) (cf_SpikePreWindow cfg) (cf_SpikeBurstWindow cfg) extraHFT extraRetail extraInst
      in baseline @ spike)"

fun rampLoop :: "Config_sa \<Rightarrow> u32 \<Rightarrow> nat list \<Rightarrow> TaskSpec list \<Rightarrow> TaskSpec list" where
  "rampLoop cfg perWaveRPS [] out = out"
| "rampLoop cfg perWaveRPS (wave # waves) out =
     (let startOffset = int wave * rampWaveCadence;
          duration = cf_RampDuration cfg - startOffset
      in if duration \<le> 0 then rampLoop cfg perWaveRPS waves out
         else let (hft, retail, inst, _) = botCountsForBudget cfg perWaveRPS in
           rampLoop cfg perWaveRPS waves (out @ buildLayer cfg (of_nat (length out)) startOffset duration hft retail inst))"

definition buildRampTasks :: "Config_sa \<Rightarrow> TaskSpec list" where
  "buildRampTasks cfg = rampLoop cfg (cf_RampPeakRPS cfg div of_nat rampWaveCount) [0..<rampWaveCount] []"

definition correctnessSMPIDCount :: u32 where
  "correctnessSMPIDCount = 8"

definition buildCorrectnessTasks :: "Config_sa \<Rightarrow> TaskSpec list" where
  "buildCorrectnessTasks cfg =
     [\<lparr>TaskID = 0, Profile = ''hft'', TargetRPS = 0, StartOffsetNs = 0, DurationNs = word_of_int (cf_CorrectnessDuration cfg),
       MarketPct = cf_HFTMarketPct cfg, CancelPct = cf_HFTCancelPct cfg, ReplacePct = cf_HFTReplacePct cfg,
       TargetIdx = 0, SMPIDCount = correctnessSMPIDCount\<rparr>]"

record ScenarioRow_sa =
  sr_ScenarioID :: string
  sr_Name :: string
  sr_SortOrder :: int
  sr_DurationNs :: u64
  sr_TaskSpecs :: "TaskSpec list"

text \<open>\<open>uuid i\<close> is what the uuid library returns for the \<open>i\<close>-th identifier.\<close>

definition BuildAll :: "(nat \<Rightarrow> string + string) \<Rightarrow> Config_sa \<Rightarrow> scenErr + ScenarioRow_sa list" where
  "BuildAll uuid cfg = (case validate_sa cfg of
     Some e \<Rightarrow> Inl e
   | None \<Rightarrow> (case (uuid 0, uuid 1, uuid 2, uuid 3) of
       (Inl e, _) \<Rightarrow> Inl (UuidError e)
     | (Inr constID, Inl e, _) \<Rightarrow> Inl (UuidError e)
     | (Inr constID, Inr spikeID, Inl e, _) \<Rightarrow> Inl (UuidError e)
     | (Inr constID, Inr spikeID, Inr rampID, Inl e) \<Rightarrow> Inl (UuidError e)
     | (Inr constID, Inr spikeID, Inr rampID, Inr correctnessID) \<Rightarrow> Inr
         [\<lparr>sr_ScenarioID = constID, sr_Name = ''constant'', sr_SortOrder = 1, sr_DurationNs = word_of_int (cf_ConstantDuration cfg),
            sr_TaskSpecs = buildConstantTasks cfg 0 0 (cf_ConstantDuration cfg) (cf_ConstantTotalRPS cfg)\<rparr>,
          \<lparr>sr_ScenarioID = spikeID, sr_Name = ''spike'', sr_SortOrder = 2, sr_DurationNs = word_of_int (cf_SpikeDuration cfg),
            sr_TaskSpecs = buildSpikeTasks cfg\<rparr>,
          \<lparr>sr_ScenarioID = rampID, sr_Name = ''ramp'', sr_SortOrder = 3, sr_DurationNs = word_of_int (cf_RampDuration cfg),
            sr_TaskSpecs = buildRampTasks cfg\<rparr>,
          \<lparr>sr_ScenarioID = correctnessID, sr_Name = ''correctness'', sr_SortOrder = 4, sr_DurationNs = word_of_int (cf_CorrectnessDuration cfg),
            sr_TaskSpecs = buildCorrectnessTasks cfg\<rparr>]))"

section \<open>Counting bots\<close>

definition realisedRPS :: "Config_sa \<Rightarrow> u32 \<Rightarrow> int" where
  "realisedRPS cfg totalRPS = (let (h, r, i, real) = botCountsForBudget cfg totalRPS in uint real)"

lemma share_bound: "unat (x div 100 div r) \<le> 42949672 div unat r" for x r :: u32
proof -
  have "unat x div 100 \<le> 42949672" using unsigned_less [of x, where 'a = nat] by simp
  then have "unat x div 100 div unat r \<le> 42949672 div unat r" by (rule div_le_mono)
  then show ?thesis by (simp add: unat_div)
qed

lemma botCounts_exact:
  assumes "botCountsForBudget cfg budget = (h, r, i, real)"
  shows "uint real = uint h * 1000 + uint r * 5 + uint i * 300" "unat h \<le> 42949" "unat r \<le> 8589934" "unat i \<le> 143165"
proof -
  have c: "h = (budget * cf_MixHFTPct cfg div 100) div 1000" "r = (budget * cf_MixRetailPct cfg div 100) div 5"
    "i = (budget * cf_MixInstitutionalPct cfg div 100) div 300" "real = h * 1000 + r * 5 + i * 300"
    using assms by (auto simp: botCountsForBudget_def Let_def rpsPerHFT_def rpsPerRetail_def rpsPerInstitutional_def)
  show b: "unat h \<le> 42949" "unat r \<le> 8589934" "unat i \<le> 143165"
    using share_bound [of _ 1000] share_bound [of _ 5] share_bound [of _ 300] unfolding c(1-3) by (force+)
  have small: "unat h * 1000 + unat r * 5 + unat i * 300 < 2 ^ 32" using b by simp
  have "real = word_of_nat (unat h * 1000 + unat r * 5 + unat i * 300)" by (simp add: c(4))
  moreover have "unat (word_of_nat n :: u32) = n" if "n < 2 ^ 32" for n using that by (simp add: unat_of_nat take_bit_nat_eq_self)
  ultimately have "unat real = unat h * 1000 + unat r * 5 + unat i * 300" using b by (metis (no_types, lifting) small)
  then have "int (unat real) = int (unat h) * 1000 + int (unat r) * 5 + int (unat i) * 300" by simp
  then show "uint real = uint h * 1000 + uint r * 5 + uint i * 300" by simp
qed

lemma realisedRPS_eq: "botCountsForBudget cfg budget = (h, r, i, real) \<Longrightarrow> realisedRPS cfg budget = uint h * 1000 + uint r * 5 + uint i * 300"
  using botCounts_exact(1) by (simp add: realisedRPS_def)

text \<open>
  The budget is met up to the size of one bot of each profile, as long as the products fit into 32 bits.
\<close>

lemma budget_met:
  assumes "cf_MixHFTPct cfg + cf_MixRetailPct cfg + cf_MixInstitutionalPct cfg = 100"
    "cf_MixHFTPct cfg \<le> 100" "cf_MixRetailPct cfg \<le> 100" "cf_MixInstitutionalPct cfg \<le> 100" "uint budget \<le> 42949672"
  shows "realisedRPS cfg budget \<le> uint budget \<and> uint budget \<le> realisedRPS cfg budget + 1304"
proof -
  have prod: "uint (budget * m) = uint budget * uint m" if "m \<le> 100" for m :: u32
  proof -
    have "uint m \<le> 100" using that by (simp add: word_le_def)
    then have "uint budget * uint m \<le> 42949672 * 100" using assms(5) by (intro mult_mono) auto
    then show ?thesis by (simp add: uint_word_ariths)
  qed
  have mix: "uint (cf_MixHFTPct cfg) + uint (cf_MixRetailPct cfg) + uint (cf_MixInstitutionalPct cfg) = 100"
  proof -
    have le: "uint (cf_MixHFTPct cfg) \<le> 100" "uint (cf_MixRetailPct cfg) \<le> 100" "uint (cf_MixInstitutionalPct cfg) \<le> 100"
      using assms(2-4) by (simp_all add: word_le_def)
    have "uint (cf_MixHFTPct cfg + cf_MixRetailPct cfg + cf_MixInstitutionalPct cfg) = 100" by (simp add: assms(1))
    then show ?thesis using le by (simp add: uint_word_ariths mod_pos_pos_trivial)
  qed
  obtain h r i real where b: "botCountsForBudget cfg budget = (h, r, i, real)" by (cases "botCountsForBudget cfg budget") auto
  let ?a = "uint budget * uint (cf_MixHFTPct cfg)" let ?b = "uint budget * uint (cf_MixRetailPct cfg)"
  let ?c = "uint budget * uint (cf_MixInstitutionalPct cfg)"
  have c: "uint h = ?a div 100 div 1000" "uint r = ?b div 100 div 5" "uint i = ?c div 100 div 300"
    using b prod assms(2-4)
    by (auto simp: botCountsForBudget_def Let_def rpsPerHFT_def rpsPerRetail_def rpsPerInstitutional_def uint_div)
  have s: "?a + ?b + ?c = 100 * uint budget" using mix by (metis (no_types, lifting) distrib_left mult.commute)
  show ?thesis unfolding realisedRPS_eq [OF b] c using s by linarith
qed

section \<open>Numbering\<close>

definition numbered :: "TaskSpec list \<Rightarrow> bool" where
  "numbered ts \<longleftrightarrow> map TaskID ts = map of_nat [0..<length ts]"

lemma profileTasks_length [simp]: "length (profileTasks p rps m c rp s off d n) = unat n"
  by (simp add: profileTasks_def)

lemma buildLayer_length [simp]: "length (buildLayer cfg s off d h r i) = unat h + unat r + unat i"
  by (simp add: buildLayer_def)

lemma profileTasks_ids:
  "map TaskID (profileTasks p rps m c rp (of_nat k) off d n) = map of_nat [k..<k + unat n]"
proof -
  have "[k..<k + unat n] = map (\<lambda>i. i + k) [0..<unat n]" by (simp add: map_add_upt add.commute)
  then show ?thesis by (simp add: profileTasks_def o_def add.commute)
qed

lemma upt_three: "[n..<n + a + b + c] = [n..<n + a] @ [n + a..<n + a + b] @ [n + a + b..<n + a + b + c]"
  using upt_add_eq_append [of n "n + a" "b + c"] upt_add_eq_append [of "n + a" "n + a + b" c] by (simp add: add.assoc)

lemma numbered_layer:
  assumes "numbered out"
  shows "numbered (out @ buildLayer cfg (of_nat (length out)) off d h r i)"
proof -
  let ?n = "length out"
  have e: "of_nat ?n + h = (of_nat (?n + unat h) :: u32)" "of_nat (?n + unat h) + r = (of_nat (?n + unat h + unat r) :: u32)" by simp_all
  have "map TaskID (buildLayer cfg (of_nat ?n) off d h r i) = map of_nat [?n..<?n + unat h + unat r + unat i]"
    unfolding buildLayer_def e map_append profileTasks_ids upt_three map_append ..
  moreover have "[0..<?n + (unat h + unat r + unat i)] = [0..<?n] @ [?n..<?n + unat h + unat r + unat i]"
    using upt_add_eq_append [of 0 ?n "unat h + unat r + unat i"] by (simp add: add.assoc)
  ultimately show ?thesis using assms unfolding numbered_def by simp
qed

lemma numbered_distinct: "numbered ts \<Longrightarrow> length ts \<le> 2 ^ 32 \<Longrightarrow> distinct (map TaskID ts)"
proof -
  assume n: "numbered ts" and l: "length ts \<le> 2 ^ 32"
  have "inj_on (of_nat :: nat \<Rightarrow> u32) {0..<length ts}"
  proof (rule inj_onI)
    fix x y assume xy: "x \<in> {0..<length ts}" "y \<in> {0..<length ts}" "(of_nat x :: u32) = of_nat y"
    have "unat (of_nat x :: u32) = unat (of_nat y :: u32)" by (simp only: xy(3))
    then have "x mod 2 ^ 32 = y mod 2 ^ 32" by (simp add: unat_of_nat)
    then show "x = y" using xy(1,2) l by simp
  qed
  then show ?thesis using n unfolding numbered_def by (simp add: distinct_map)
qed

lemma layer_le: "botCountsForBudget cfg b = (h, r, i, real) \<Longrightarrow> length (buildLayer cfg s off d h r i) \<le> 8776048"
  using botCounts_exact [of cfg b h r i real] by simp

lemma rampLoop_numbered:
  assumes "numbered out" "length out + 8776048 * length ws \<le> n"
  shows "numbered (rampLoop cfg b ws out) \<and> length (rampLoop cfg b ws out) \<le> n"
  using assms
proof (induction cfg b ws out rule: rampLoop.induct)
  case (2 cfg b wave ws out)
  obtain h r i real where c: "botCountsForBudget cfg b = (h, r, i, real)" by (cases "botCountsForBudget cfg b") auto
  note l = layer_le [OF c, of "of_nat (length out)" "int wave * rampWaveCadence" "cf_RampDuration cfg - int wave * rampWaveCadence"]
  show ?case
  proof (cases "cf_RampDuration cfg - int wave * rampWaveCadence \<le> 0")
    case True
    then show ?thesis using 2(1) [OF refl refl True] 2(3,4) by simp
  next
    case False
    have "numbered (out @ buildLayer cfg (of_nat (length out)) (int wave * rampWaveCadence) (cf_RampDuration cfg - int wave * rampWaveCadence) h r i)"
      by (rule numbered_layer [OF 2(3)])
    moreover have "length (out @ buildLayer cfg (of_nat (length out)) (int wave * rampWaveCadence) (cf_RampDuration cfg - int wave * rampWaveCadence) h r i)
        + 8776048 * length ws \<le> n" using l 2(4) by simp
    ultimately show ?thesis using 2(2) [OF refl refl False c [symmetric] refl refl refl] False c by (simp add: Let_def)
  qed
qed simp

section \<open>Load\<close>

text \<open>The rate offered at time \<open>x\<close> after the barrier: the tasks that are firing then.\<close>

definition activeRPS :: "TaskSpec list \<Rightarrow> int \<Rightarrow> int" where
  "activeRPS ts x = (\<Sum>t\<leftarrow>ts. if uint (StartOffsetNs t) \<le> x \<and> x < uint (StartOffsetNs t) + uint (DurationNs t) then uint (TargetRPS t) else 0)"

lemma activeRPS_append [simp]: "activeRPS (ts @ us) x = activeRPS ts x + activeRPS us x" "activeRPS [] x = 0"
  by (simp_all add: activeRPS_def)

lemma uint_ns: "0 \<le> d \<Longrightarrow> d < 2 ^ 63 \<Longrightarrow> uint (word_of_int d :: u64) = d"
  by (simp add: uint_word_of_int)

lemma profileTasks_active:
  assumes "0 \<le> off" "off < 2 ^ 63" "0 \<le> d" "d < 2 ^ 63"
  shows "activeRPS (profileTasks p rps m c rp s off d n) x = (if off \<le> x \<and> x < off + d then uint n * uint rps else 0)"
proof -
  have "activeRPS (profileTasks p rps m c rp s off d n) x = (\<Sum>i\<leftarrow>[0..<unat n]. if off \<le> x \<and> x < off + d then uint rps else 0)"
    unfolding activeRPS_def profileTasks_def using uint_ns [OF assms(1,2)] uint_ns [OF assms(3,4)] by (simp add: o_def cong: if_cong)
  also have "\<dots> = int (unat n) * (if off \<le> x \<and> x < off + d then uint rps else 0)" by (simp only: sum_list_triv length_upt diff_zero)
  finally show ?thesis by simp
qed

lemma buildLayer_active:
  assumes "0 \<le> off" "off < 2 ^ 63" "0 \<le> d" "d < 2 ^ 63"
  shows "activeRPS (buildLayer cfg s off d h r i) x = (if off \<le> x \<and> x < off + d then uint h * 1000 + uint r * 5 + uint i * 300 else 0)"
  unfolding buildLayer_def
  by (simp add: profileTasks_active [OF assms] rpsPerHFT_def rpsPerRetail_def rpsPerInstitutional_def)

lemma constant_active:
  assumes "0 \<le> off" "off < 2 ^ 63" "0 \<le> d" "d < 2 ^ 63"
  shows "activeRPS (buildConstantTasks cfg s off d b) x = (if off \<le> x \<and> x < off + d then realisedRPS cfg b else 0)"
proof -
  obtain h r i real where c: "botCountsForBudget cfg b = (h, r, i, real)" by (cases "botCountsForBudget cfg b") auto
  show ?thesis using buildLayer_active [OF assms] c realisedRPS_eq [OF c] by (simp add: buildConstantTasks_def)
qed

lemma rampLoop_active:
  assumes "cf_RampDuration cfg < 2 ^ 63"
  shows "activeRPS (rampLoop cfg b ws out) x = activeRPS out x +
    (\<Sum>k\<leftarrow>ws. if int k * rampWaveCadence \<le> x \<and> x < cf_RampDuration cfg then realisedRPS cfg b else 0)"
  using assms
proof (induction cfg b ws out rule: rampLoop.induct)
  case (2 cfg b wave ws out)
  obtain h r i real where c: "botCountsForBudget cfg b = (h, r, i, real)" by (cases "botCountsForBudget cfg b") auto
  let ?o = "int wave * rampWaveCadence"
  show ?case
  proof (cases "cf_RampDuration cfg - ?o \<le> 0")
    case True
    then have "rampLoop cfg b (wave # ws) out = rampLoop cfg b ws out" by simp
    then show ?thesis using 2(1) [OF refl refl True 2(3)] True by auto
  next
    case False
    let ?out = "out @ buildLayer cfg (of_nat (length out)) ?o (cf_RampDuration cfg - ?o) h r i"
    have o: "0 \<le> ?o" by (simp add: rampWaveCadence_def time_Second_def)
    have "rampLoop cfg b (wave # ws) out = rampLoop cfg b ws ?out" using False c by (simp add: Let_def)
    moreover have "activeRPS ?out x = activeRPS out x + (if ?o \<le> x \<and> x < cf_RampDuration cfg then realisedRPS cfg b else 0)"
      using buildLayer_active [of ?o "cf_RampDuration cfg - ?o" cfg "of_nat (length out)" h r i x] o 2(3) False realisedRPS_eq [OF c] by simp
    ultimately show ?thesis using 2(2) [OF refl refl False c [symmetric] refl refl refl 2(3)] by simp
  qed
qed simp

lemma sum_waves:
  assumes "0 \<le> x" "0 < c"
  shows "(\<Sum>k\<leftarrow>[0..<n]. if int k * c \<le> x then v else 0) = min (int n) (x div c + 1) * (v :: int)"
proof (induction n)
  case (Suc n)
  have i: "int n * c \<le> x \<longleftrightarrow> int n \<le> x div c"
  proof
    assume "int n * c \<le> x"
    then show "int n \<le> x div c" using zdiv_mono1 [of "int n * c" x c] assms(2) by simp
  next
    assume "int n \<le> x div c"
    then have "int n * c \<le> x div c * c" using assms(2) by (intro mult_right_mono) auto
    then show "int n * c \<le> x" using pos_mod_sign [OF assms(2), of x] div_mult_mod_eq [of x c] by linarith
  qed
  show ?case
  proof (cases "int n \<le> x div c")
    case True
    then have "min (int (Suc n)) (x div c + 1) = min (int n) (x div c + 1) + 1" by simp
    then show ?thesis using Suc True i by (simp add: distrib_right)
  next
    case False
    then have "min (int (Suc n)) (x div c + 1) = min (int n) (x div c + 1)" by simp
    then show ?thesis using Suc False i by simp
  qed
qed (use assms in \<open>simp add: pos_imp_zdiv_nonneg_iff\<close>)

section \<open>Properties of the scenarios\<close>

lemma BuildAll_rows:
  assumes "BuildAll uuid cfg = Inr rows"
  shows "validate_sa cfg = None" "map sr_Name rows = [''constant'', ''spike'', ''ramp'', ''correctness'']"
    "map sr_DurationNs rows = map word_of_int [cf_ConstantDuration cfg, cf_SpikeDuration cfg, cf_RampDuration cfg, cf_CorrectnessDuration cfg]"
    "map sr_TaskSpecs rows = [buildConstantTasks cfg 0 0 (cf_ConstantDuration cfg) (cf_ConstantTotalRPS cfg),
       buildSpikeTasks cfg, buildRampTasks cfg, buildCorrectnessTasks cfg]"
  using assms by (auto simp: BuildAll_def split: option.splits sum.splits)

lemma validate_saD:
  assumes "validate_sa cfg = None"
  shows "0 < cf_ConstantDuration cfg" "0 < cf_SpikeDuration cfg" "0 < cf_RampDuration cfg" "0 < cf_CorrectnessDuration cfg"
    "cf_ConstantTotalRPS cfg \<le> cf_SpikePeakRPS cfg"
    "int64 (word_of_int (cf_SpikePreWindow cfg + cf_SpikeBurstWindow cfg)) \<le> cf_SpikeDuration cfg"
    "(int rampWaveCount - 1) * rampWaveCadence < cf_RampDuration cfg"
    "cf_MixHFTPct cfg + cf_MixRetailPct cfg + cf_MixInstitutionalPct cfg = 100"
    "list_all (\<lambda>p. p \<le> 100) (actionPcts cfg)"
  using assms by (auto simp: validate_sa_def find_None_iff list_all_iff not_less split: if_splits)

text \<open>The windows of the configuration are durations that \<open>int64\<close> arithmetic can add.\<close>

definition nsRange :: "Config_sa \<Rightarrow> bool" where
  "nsRange cfg \<longleftrightarrow> cf_ConstantDuration cfg < 2 ^ 63 \<and> cf_SpikeDuration cfg < 2 ^ 63 \<and> cf_RampDuration cfg < 2 ^ 63 \<and>
     cf_CorrectnessDuration cfg < 2 ^ 63 \<and> 0 \<le> cf_SpikePreWindow cfg \<and> 0 \<le> cf_SpikeBurstWindow cfg \<and>
     cf_SpikePreWindow cfg + cf_SpikeBurstWindow cfg < 2 ^ 63"

lemma spike_window:
  assumes "validate_sa cfg = None" "nsRange cfg"
  shows "cf_SpikePreWindow cfg + cf_SpikeBurstWindow cfg \<le> cf_SpikeDuration cfg"
proof -
  have "int64 (word_of_int (cf_SpikePreWindow cfg + cf_SpikeBurstWindow cfg)) = cf_SpikePreWindow cfg + cf_SpikeBurstWindow cfg"
    unfolding int64_def by (subst signed_of_int) (use assms(2) in \<open>simp add: signed_take_bit_int_eq_self nsRange_def\<close>)
  then show ?thesis using validate_saD(6) [OF assms(1)] by simp
qed

definition okTask :: "int \<Rightarrow> TaskSpec \<Rightarrow> bool" where
  "okTask D t \<longleftrightarrow> uint (StartOffsetNs t) + uint (DurationNs t) \<le> D \<and> MarketPct t \<le> 100 \<and> CancelPct t \<le> 100 \<and> ReplacePct t \<le> 100"

lemma layer_ok:
  assumes "list_all (\<lambda>p. p \<le> 100) (actionPcts cfg)" "0 \<le> off" "0 \<le> d" "off + d \<le> D" "D < 2 ^ 63"
  shows "list_all (okTask D) (buildLayer cfg s off d h r i)"
proof -
  have "uint (word_of_int off :: u64) = off" "uint (word_of_int d :: u64) = d" using assms by (auto intro!: uint_ns)
  then show ?thesis using assms(1,4) by (auto simp: list_all_iff buildLayer_def profileTasks_def okTask_def actionPcts_def)
qed

lemma constant_ok:
  assumes "list_all (\<lambda>p. p \<le> 100) (actionPcts cfg)" "0 \<le> D" "D < 2 ^ 63"
  shows "list_all (okTask D) (buildConstantTasks cfg 0 0 D b) \<and> numbered (buildConstantTasks cfg 0 0 D b) \<and>
    length (buildConstantTasks cfg 0 0 D b) \<le> 8776048"
proof -
  obtain h r i real where c: "botCountsForBudget cfg b = (h, r, i, real)" by (cases "botCountsForBudget cfg b") auto
  have "numbered []" by (simp add: numbered_def)
  from numbered_layer [OF this, of cfg 0 D h r i] show ?thesis
    using layer_ok [OF assms(1), of 0 D D 0 h r i] layer_le [OF c, of 0 0 D] assms(2,3) c by (simp add: buildConstantTasks_def)
qed

lemma spike_ok:
  assumes "validate_sa cfg = None" "nsRange cfg"
  shows "list_all (okTask (cf_SpikeDuration cfg)) (buildSpikeTasks cfg) \<and> numbered (buildSpikeTasks cfg) \<and> length (buildSpikeTasks cfg) \<le> 2 * 8776048"
proof -
  let ?D = "cf_SpikeDuration cfg" let ?base = "buildConstantTasks cfg 0 0 ?D (cf_ConstantTotalRPS cfg)"
  obtain h r i real where c: "botCountsForBudget cfg (cf_SpikePeakRPS cfg - cf_ConstantTotalRPS cfg) = (h, r, i, real)"
    by (cases "botCountsForBudget cfg (cf_SpikePeakRPS cfg - cf_ConstantTotalRPS cfg)") auto
  let ?spike = "buildLayer cfg (of_nat (length ?base)) (cf_SpikePreWindow cfg) (cf_SpikeBurstWindow cfg) h r i"
  have D: "0 \<le> ?D" "?D < 2 ^ 63" using validate_saD(2) [OF assms(1)] assms(2) by (auto simp: nsRange_def)
  note b = constant_ok [OF validate_saD(9) [OF assms(1)] D, of "cf_ConstantTotalRPS cfg"]
  have "buildSpikeTasks cfg = ?base @ ?spike" using c by (simp add: buildSpikeTasks_def Let_def)
  moreover have "list_all (okTask ?D) ?spike"
    by (rule layer_ok [OF validate_saD(9) [OF assms(1)]]) (use spike_window [OF assms] D assms(2) in \<open>auto simp: nsRange_def\<close>)
  ultimately show ?thesis using b numbered_layer [of ?base cfg "cf_SpikePreWindow cfg" "cf_SpikeBurstWindow cfg" h r i]
      layer_le [OF c, of "of_nat (length ?base)" "cf_SpikePreWindow cfg" "cf_SpikeBurstWindow cfg"] by auto
qed

lemma rampLoop_ok:
  assumes "list_all (\<lambda>p. p \<le> 100) (actionPcts cfg)" "cf_RampDuration cfg < 2 ^ 63" "list_all (okTask (cf_RampDuration cfg)) out"
  shows "list_all (okTask (cf_RampDuration cfg)) (rampLoop cfg b ws out)"
  using assms
proof (induction cfg b ws out rule: rampLoop.induct)
  case (2 cfg b wave ws out)
  obtain h r i real where c: "botCountsForBudget cfg b = (h, r, i, real)" by (cases "botCountsForBudget cfg b") auto
  let ?o = "int wave * rampWaveCadence"
  show ?case
  proof (cases "cf_RampDuration cfg - ?o \<le> 0")
    case True
    then show ?thesis using 2(1) [OF refl refl True 2(3-5)] by simp
  next
    case False
    have "list_all (okTask (cf_RampDuration cfg)) (buildLayer cfg (of_nat (length out)) ?o (cf_RampDuration cfg - ?o) h r i)"
      by (rule layer_ok [OF 2(3)]) (use False 2(4) in \<open>auto simp: rampWaveCadence_def time_Second_def\<close>)
    then show ?thesis using 2(2) [OF refl refl False c [symmetric] refl refl refl 2(3,4)] 2(5) False c by (simp add: Let_def)
  qed
qed simp

text \<open>Every scenario that is built is well formed. It has the four scenarios in their order; in each
  of them the tasks are numbered consecutively from zero, no two share an id, every task ends
  within the scenario's duration, and every action percentage is at most a hundred.
\<close>

lemma scenarios_well_formed:
  assumes "BuildAll uuid cfg = Inr rows" "nsRange cfg"
  shows "map sr_Name rows = [''constant'', ''spike'', ''ramp'', ''correctness''] \<and>
    list_all (\<lambda>r. map TaskID (sr_TaskSpecs r) = map of_nat [0..<length (sr_TaskSpecs r)] \<and> distinct (map TaskID (sr_TaskSpecs r)) \<and>
      list_all (\<lambda>t. uint (StartOffsetNs t) + uint (DurationNs t) \<le> uint (sr_DurationNs r) \<and>
        MarketPct t \<le> 100 \<and> CancelPct t \<le> 100 \<and> ReplacePct t \<le> 100) (sr_TaskSpecs r)) rows"
proof -
  note b = BuildAll_rows [OF assms(1)] and v = validate_saD [OF BuildAll_rows(1) [OF assms(1)]]
  obtain r1 r2 r3 r4 where rows: "rows = [r1, r2, r3, r4]" using b(2) by auto
  have good: "map TaskID (sr_TaskSpecs r) = map of_nat [0..<length (sr_TaskSpecs r)] \<and> distinct (map TaskID (sr_TaskSpecs r)) \<and>
      list_all (\<lambda>t. uint (StartOffsetNs t) + uint (DurationNs t) \<le> uint (sr_DurationNs r) \<and>
        MarketPct t \<le> 100 \<and> CancelPct t \<le> 100 \<and> ReplacePct t \<le> 100) (sr_TaskSpecs r)"
    if "list_all (okTask D) (sr_TaskSpecs r)" "numbered (sr_TaskSpecs r)" "length (sr_TaskSpecs r) \<le> 2 ^ 32" "sr_DurationNs r = word_of_int D" "0 < D" "D < 2 ^ 63" for r D
  proof -
    have "uint (sr_DurationNs r) = D" using that(4-6) uint_ns by simp
    then show ?thesis using that(1-3) numbered_distinct [OF that(2,3)] by (simp add: okTask_def [abs_def] numbered_def)
  qed
  have n: "cf_ConstantDuration cfg < 2 ^ 63" "cf_SpikeDuration cfg < 2 ^ 63" "cf_RampDuration cfg < 2 ^ 63" "cf_CorrectnessDuration cfg < 2 ^ 63"
    using assms(2) by (auto simp: nsRange_def)
  have "numbered []" by (simp add: numbered_def)
  from rampLoop_numbered [OF this, of "[0..<rampWaveCount]" "9 * 8776048" cfg "cf_RampPeakRPS cfg div of_nat rampWaveCount"]
  have ramp: "numbered (buildRampTasks cfg)" "length (buildRampTasks cfg) \<le> 9 * 8776048" by (simp_all add: buildRampTasks_def rampWaveCount_def)
  have rampok: "list_all (okTask (cf_RampDuration cfg)) (buildRampTasks cfg)" unfolding buildRampTasks_def by (rule rampLoop_ok [OF v(9) n(3)]) simp
  have cor: "list_all (okTask (cf_CorrectnessDuration cfg)) (buildCorrectnessTasks cfg)" "numbered (buildCorrectnessTasks cfg)"
    using v(4,9) n(4) uint_ns by (simp_all add: buildCorrectnessTasks_def okTask_def numbered_def actionPcts_def)
  have cst: "list_all (okTask (cf_ConstantDuration cfg)) (buildConstantTasks cfg 0 0 (cf_ConstantDuration cfg) (cf_ConstantTotalRPS cfg))"
    "numbered (buildConstantTasks cfg 0 0 (cf_ConstantDuration cfg) (cf_ConstantTotalRPS cfg))"
    "length (buildConstantTasks cfg 0 0 (cf_ConstantDuration cfg) (cf_ConstantTotalRPS cfg)) \<le> 8776048"
    using constant_ok [OF v(9) _ n(1)] v(1) by auto
  have spk: "list_all (okTask (cf_SpikeDuration cfg)) (buildSpikeTasks cfg)" "numbered (buildSpikeTasks cfg)" "length (buildSpikeTasks cfg) \<le> 2 * 8776048"
    using spike_ok [OF b(1) assms(2)] by blast+
  have d: "sr_DurationNs r1 = word_of_int (cf_ConstantDuration cfg)" "sr_DurationNs r2 = word_of_int (cf_SpikeDuration cfg)"
      "sr_DurationNs r3 = word_of_int (cf_RampDuration cfg)" "sr_DurationNs r4 = word_of_int (cf_CorrectnessDuration cfg)"
    and t: "sr_TaskSpecs r1 = buildConstantTasks cfg 0 0 (cf_ConstantDuration cfg) (cf_ConstantTotalRPS cfg)"
      "sr_TaskSpecs r2 = buildSpikeTasks cfg" "sr_TaskSpecs r3 = buildRampTasks cfg" "sr_TaskSpecs r4 = buildCorrectnessTasks cfg"
    using b(3,4) rows by simp_all
  have len: "length (buildCorrectnessTasks cfg) \<le> 2 ^ 32" by (simp add: buildCorrectnessTasks_def)
  note g1 = good [of "cf_ConstantDuration cfg" r1, unfolded t, OF cst(1,2) _ d(1) v(1) n(1)]
    and g2 = good [of "cf_SpikeDuration cfg" r2, unfolded t, OF spk(1,2) _ d(2) v(2) n(2)]
    and g3 = good [of "cf_RampDuration cfg" r3, unfolded t, OF rampok ramp(1) _ d(3) v(3) n(3)]
    and g4 = good [of "cf_CorrectnessDuration cfg" r4, unfolded t, OF cor len d(4) v(4) n(4)]
  show ?thesis unfolding rows list.pred_inject t using b(2) rows cst(3) spk(3) ramp(2)
    by (intro conjI g1 g2 g3 g4 TrueI [THEN conjI]) simp_all
qed

lemma DefaultConfig_valid: "validate_sa DefaultConfig_sa = None" "nsRange DefaultConfig_sa"
  by code_simp+

lemma spike_layers:
  assumes "validate_sa cfg = None" "nsRange cfg" "0 \<le> x"
  shows "activeRPS (buildSpikeTasks cfg) x = (if x < cf_SpikeDuration cfg then realisedRPS cfg (cf_ConstantTotalRPS cfg) else 0) +
    (if cf_SpikePreWindow cfg \<le> x \<and> x < cf_SpikePreWindow cfg + cf_SpikeBurstWindow cfg
     then realisedRPS cfg (cf_SpikePeakRPS cfg - cf_ConstantTotalRPS cfg) else 0)"
proof -
  obtain h r i real where c: "botCountsForBudget cfg (cf_SpikePeakRPS cfg - cf_ConstantTotalRPS cfg) = (h, r, i, real)"
    by (cases "botCountsForBudget cfg (cf_SpikePeakRPS cfg - cf_ConstantTotalRPS cfg)") auto
  let ?s = "of_nat (length (buildConstantTasks cfg 0 0 (cf_SpikeDuration cfg) (cf_ConstantTotalRPS cfg)))"
  have n: "0 \<le> cf_SpikePreWindow cfg" "cf_SpikePreWindow cfg < 2 ^ 63" "0 \<le> cf_SpikeBurstWindow cfg" "cf_SpikeBurstWindow cfg < 2 ^ 63"
    "0 \<le> cf_SpikeDuration cfg" "cf_SpikeDuration cfg < 2 ^ 63"
    using assms(2) validate_saD(2) [OF assms(1)] by (auto simp: nsRange_def)
  note b = constant_active [OF _ _ n(5,6), of 0 cfg 0 "cf_ConstantTotalRPS cfg" x]
    and l = buildLayer_active [OF n(1-4), of cfg ?s h r i x]
  have "activeRPS (buildSpikeTasks cfg) x = activeRPS (buildConstantTasks cfg 0 0 (cf_SpikeDuration cfg) (cf_ConstantTotalRPS cfg)) x +
      activeRPS (buildLayer cfg ?s (cf_SpikePreWindow cfg) (cf_SpikeBurstWindow cfg) h r i) x"
    using c by (simp add: buildSpikeTasks_def Let_def)
  then show ?thesis using b l assms(3) realisedRPS_eq [OF c] by simp
qed

lemma spike_active:
  assumes "validate_sa cfg = None" "nsRange cfg" "0 \<le> x" "x < cf_SpikeDuration cfg"
  shows "activeRPS (buildSpikeTasks cfg) x = realisedRPS cfg (cf_ConstantTotalRPS cfg) +
    (if cf_SpikePreWindow cfg \<le> x \<and> x < cf_SpikePreWindow cfg + cf_SpikeBurstWindow cfg
     then realisedRPS cfg (cf_SpikePeakRPS cfg - cf_ConstantTotalRPS cfg) else 0)"
  using spike_layers [OF assms(1-3)] assms(4) by simp

lemma spike_over:
  assumes "validate_sa cfg = None" "nsRange cfg" "0 \<le> x" "cf_SpikeDuration cfg \<le> x"
  shows "activeRPS (buildSpikeTasks cfg) x = 0"
  using spike_layers [OF assms(1-3)] spike_window [OF assms(1,2)] assms(4) by simp

lemma ramp_active:
  assumes "nsRange cfg" "0 \<le> x" "x < cf_RampDuration cfg"
  shows "activeRPS (buildRampTasks cfg) x = min 9 (x div rampWaveCadence + 1) * realisedRPS cfg (cf_RampPeakRPS cfg div 9)"
proof -
  have "0 < rampWaveCadence" by (simp add: rampWaveCadence_def time_Second_def)
  then show ?thesis
    using rampLoop_active [of cfg "cf_RampPeakRPS cfg div of_nat rampWaveCount" "[0..<rampWaveCount]" "[]" x] assms
      sum_waves [of x rampWaveCadence "realisedRPS cfg (cf_RampPeakRPS cfg div 9)" rampWaveCount]
    by (simp add: buildRampTasks_def nsRange_def rampWaveCount_def cong: if_cong)
qed

lemma ramp_over: "nsRange cfg \<Longrightarrow> cf_RampDuration cfg \<le> x \<Longrightarrow> activeRPS (buildRampTasks cfg) x = 0"
  by (simp add: buildRampTasks_def rampLoop_active nsRange_def)

text \<open>C39.
  The load of a scenario over time. At every moment of a scenario the tasks that fire offer
  exactly: for the constant scenario the realised constant budget; for the spike scenario that baseline, and in
  the burst window the realised difference to the peak on top; for the ramp one more realised share of the
  peak every twenty seconds, up to nine. From the end of its duration on a scenario offers nothing.
\<close>

theorem load_profile:
  assumes "validate_sa cfg = None" "nsRange cfg" "0 \<le> x"
  shows "activeRPS (buildConstantTasks cfg 0 0 (cf_ConstantDuration cfg) (cf_ConstantTotalRPS cfg)) x =
      (if x < cf_ConstantDuration cfg then realisedRPS cfg (cf_ConstantTotalRPS cfg) else 0) \<and>
    activeRPS (buildSpikeTasks cfg) x =
      (if x < cf_SpikeDuration cfg then realisedRPS cfg (cf_ConstantTotalRPS cfg) +
         (if cf_SpikePreWindow cfg \<le> x \<and> x < cf_SpikePreWindow cfg + cf_SpikeBurstWindow cfg
          then realisedRPS cfg (cf_SpikePeakRPS cfg - cf_ConstantTotalRPS cfg) else 0) else 0) \<and>
    activeRPS (buildRampTasks cfg) x =
      (if x < cf_RampDuration cfg then min 9 (x div (20 * 1000000000) + 1) * realisedRPS cfg (cf_RampPeakRPS cfg div 9) else 0)"
proof -
  have "activeRPS (buildConstantTasks cfg 0 0 (cf_ConstantDuration cfg) (cf_ConstantTotalRPS cfg)) x =
      (if x < cf_ConstantDuration cfg then realisedRPS cfg (cf_ConstantTotalRPS cfg) else 0)"
    using constant_active [of 0 "cf_ConstantDuration cfg" cfg 0 "cf_ConstantTotalRPS cfg" x] assms validate_saD(1) [OF assms(1)]
    by (simp add: nsRange_def)
  then show ?thesis using spike_active [OF assms] spike_over [OF assms] ramp_active [OF assms(2,3)] ramp_over [OF assms(2), of x]
    by (simp add: rampWaveCadence_def time_Second_def)
qed

theorem load_profile_witness:
  "activeRPS (buildRampTasks DefaultConfig_sa) 45000000000 = 3 * realisedRPS DefaultConfig_sa 10000 \<and>
   activeRPS (buildSpikeTasks DefaultConfig_sa) 45000000000 = realisedRPS DefaultConfig_sa 10000"
proof -
  have c: "cf_RampDuration DefaultConfig_sa = 180000000000" "cf_SpikeDuration DefaultConfig_sa = 60000000000" "cf_RampPeakRPS DefaultConfig_sa div 9 = 10000"
    "cf_SpikePreWindow DefaultConfig_sa = 25000000000" "cf_SpikeBurstWindow DefaultConfig_sa = 10000000000" "cf_ConstantTotalRPS DefaultConfig_sa = 10000"
    by (simp_all add: DefaultConfig_sa_def time_Second_def)
  show ?thesis using load_profile [OF DefaultConfig_valid, of 45000000000] by (simp add: c)
qed

text \<open>Budgets are met from below. As long as the peak budgets stay below 42949673 and the mix shares are percentages, no moment of the spike or
  the ramp exceeds its peak budget, the constant scenario and the burst miss theirs by less than one bot of every profile per layer, and so
  does the top of the ramp with its nine layers.
\<close>

lemma peak_within_budget:
  assumes "validate_sa cfg = None" "nsRange cfg" "cf_MixHFTPct cfg \<le> 100" "cf_MixRetailPct cfg \<le> 100" "cf_MixInstitutionalPct cfg \<le> 100"
    "uint (cf_SpikePeakRPS cfg) \<le> 42949672" "uint (cf_RampPeakRPS cfg) \<le> 42949672" "0 \<le> x"
  shows "(x < cf_SpikeDuration cfg \<longrightarrow> activeRPS (buildSpikeTasks cfg) x \<le> uint (cf_SpikePeakRPS cfg) \<and>
      (cf_SpikePreWindow cfg \<le> x \<and> x < cf_SpikePreWindow cfg + cf_SpikeBurstWindow cfg \<longrightarrow>
        uint (cf_SpikePeakRPS cfg) \<le> activeRPS (buildSpikeTasks cfg) x + 2 * 1304)) \<and>
    (x < cf_RampDuration cfg \<longrightarrow> activeRPS (buildRampTasks cfg) x \<le> uint (cf_RampPeakRPS cfg) \<and>
      (8 * 20 * 1000000000 \<le> x \<longrightarrow> uint (cf_RampPeakRPS cfg) \<le> activeRPS (buildRampTasks cfg) x + 9 * 1304 + 8))"
proof -
  note v = validate_saD [OF assms(1)]
  note met = budget_met [OF v(8) assms(3-5)]
  have ct: "uint (cf_ConstantTotalRPS cfg) \<le> uint (cf_SpikePeakRPS cfg)" using v(5) by (simp add: word_le_def)
  have diff: "uint (cf_SpikePeakRPS cfg - cf_ConstantTotalRPS cfg) = uint (cf_SpikePeakRPS cfg) - uint (cf_ConstantTotalRPS cfg)"
    using v(5) by (simp add: uint_minus_simple_alt)
  have wave: "uint (cf_RampPeakRPS cfg div 9) = uint (cf_RampPeakRPS cfg) div 9" by (simp add: uint_div)
  have m: "realisedRPS cfg (cf_ConstantTotalRPS cfg) \<le> uint (cf_ConstantTotalRPS cfg) \<and> uint (cf_ConstantTotalRPS cfg) \<le> realisedRPS cfg (cf_ConstantTotalRPS cfg) + 1304"
    using met ct assms(6) by simp
  have e: "realisedRPS cfg (cf_SpikePeakRPS cfg - cf_ConstantTotalRPS cfg) \<le> uint (cf_SpikePeakRPS cfg) - uint (cf_ConstantTotalRPS cfg) \<and>
      uint (cf_SpikePeakRPS cfg) - uint (cf_ConstantTotalRPS cfg) \<le> realisedRPS cfg (cf_SpikePeakRPS cfg - cf_ConstantTotalRPS cfg) + 1304"
    using met [of "cf_SpikePeakRPS cfg - cf_ConstantTotalRPS cfg"] assms(6) unsigned_greater_eq [of "cf_ConstantTotalRPS cfg", where 'a = int] by (simp add: diff)
  have w: "realisedRPS cfg (cf_RampPeakRPS cfg div 9) \<le> uint (cf_RampPeakRPS cfg) div 9 \<and>
      uint (cf_RampPeakRPS cfg) div 9 \<le> realisedRPS cfg (cf_RampPeakRPS cfg div 9) + 1304"
    using met [of "cf_RampPeakRPS cfg div 9"] assms(7) by (simp add: wave)
  have pos: "0 \<le> realisedRPS cfg b" for b by (simp add: realisedRPS_def split: prod.split)
  have ramp: "activeRPS (buildRampTasks cfg) x \<le> uint (cf_RampPeakRPS cfg) \<and>
      (8 * 20 * 1000000000 \<le> x \<longrightarrow> uint (cf_RampPeakRPS cfg) \<le> activeRPS (buildRampTasks cfg) x + 9 * 1304 + 8)" if "x < cf_RampDuration cfg"
  proof -
    let ?k = "min 9 (x div rampWaveCadence + 1)" let ?r = "realisedRPS cfg (cf_RampPeakRPS cfg div 9)"
    have a: "activeRPS (buildRampTasks cfg) x = ?k * ?r" using ramp_active [OF assms(2,8) that] .
    have "?k * ?r \<le> 9 * ?r" using pos by (intro mult_right_mono) auto
    moreover have "?k = 9" if "8 * 20 * 1000000000 \<le> x"
      using zdiv_mono1 [OF that, of rampWaveCadence] by (simp add: rampWaveCadence_def time_Second_def)
    ultimately show ?thesis unfolding a using w by auto
  qed
  show ?thesis using spike_active [OF assms(1,2,8)] ramp m e ct by auto
qed

text \<open>
  Beyond that bound the product of budget and share wraps around in 32 bits, and a larger budget
  gives fewer bots; and a valid budget below the rate of a single bot gives none at all.
\<close>

lemma budget_overflow: "realisedRPS DefaultConfig_sa 80000000 < realisedRPS DefaultConfig_sa 60000000"
  by code_simp

lemma valid_but_empty:
  "validate_sa (DefaultConfig_sa\<lparr>cf_ConstantTotalRPS := 10\<rparr>) = None \<and>
   buildConstantTasks (DefaultConfig_sa\<lparr>cf_ConstantTotalRPS := 10\<rparr>) 0 0 60000000000 10 = []"
  by code_simp

end
