(* ===== verification/RampSchedule.thy ===== *)
theory RampSchedule
  imports Score Scenarios
begin

text \<open>
  The ramp from its construction in the submission-api to its grading in the score-computer:
  the waves that \<open>WaveSchedule\<close> reads off the task list are the load steps that
  \<open>buildRampTasks\<close> put into it.
\<close>

section \<open>Offers of whole windows\<close>

text \<open>A task covers the window of a wave or does not meet it; its end is in range.\<close>

definition alignedTask :: "int \<Rightarrow> int \<Rightarrow> TaskSpec \<Rightarrow> bool" where
  "alignedTask x wd t \<longleftrightarrow>
     uint (StartOffsetNs t) + uint (DurationNs t) < 2 ^ 64 \<and>
     (uint (StartOffsetNs t) \<le> x \<and> x + wd \<le> uint (StartOffsetNs t) + uint (DurationNs t) \<or>
      x + wd \<le> uint (StartOffsetNs t) \<or> uint (StartOffsetNs t) + uint (DurationNs t) \<le> x)"

lemma f64_of_int: assumes "0 \<le> n" "n < 2 ^ 53" shows "f64 (of_int n) = Fin (of_int n)"
proof -
  have "(of_int n :: rat) \<le> of_int (2 ^ 53)" using assms(2) by (simp only: of_int_le_iff)
  also have "\<dots> = 2 powi 53" by (simp add: power_int_def)
  also have "\<dots> \<le> 2 powi 1023" by (rule powi_mono) simp
  finally have "\<bar>of_int n :: rat\<bar> \<le> 2 powi 1023" using assms(1) by simp
  then show ?thesis using round64_of_int [OF assms] by (simp only: f64_Fin)
qed

lemma saturatingAdd_exact:
  assumes "uint a + uint b < 2 ^ 64"
  shows "uint (saturatingAdd a b) = uint a + uint b"
proof -
  have "uint (- 1 - a) = (2 ^ 64 - 1 - uint a) mod 2 ^ 64" by (simp add: uint_word_ariths)
  also have "\<dots> = 2 ^ 64 - 1 - uint a"
    using unsigned_less [of a, where 'a = int] unsigned_greater_eq [of a, where 'a = int]
    by (intro mod_pos_pos_trivial) (simp, linarith)
  finally have "uint (- 1 - a) = 2 ^ 64 - 1 - uint a" .
  then have "\<not> - 1 - a < b" using assms by (simp add: word_less_def)
  then show ?thesis using assms by (simp add: saturatingAdd_def uint_plus_simple_iff [symmetric] no_olen_add uint_word_ariths)
qed

lemma offerTask_aligned:
  assumes "alignedTask (uint start) (uint wd) t" "wd \<noteq> 0" "uint start + uint wd < 2 ^ 64"
    "0 \<le> acc" "acc + uint (TargetRPS t) < 2 ^ 53"
  shows "offerTask wd start (saturatingAdd start wd) (Fin (of_int acc)) t = Fin (of_int (acc + activeRPS [t] (uint start)))"
proof -
  let ?s = "StartOffsetNs t" let ?e = "saturatingAdd (StartOffsetNs t) (DurationNs t)" let ?stop = "saturatingAdd start wd"
  let ?on = "uint ?s \<le> uint start \<and> uint start < uint ?s + uint (DurationNs t)"
  have e: "uint ?e = uint ?s + uint (DurationNs t)" using assms(1) by (intro saturatingAdd_exact) (simp add: alignedTask_def)
  have en: "uint ?stop = uint start + uint wd" using assms(3) by (rule saturatingAdd_exact)
  have wd: "0 < uint wd" using assms(2) by (simp add: word_neq_0_conv word_less_def)
  have ov: "overlapNS start ?stop ?s ?e = (if ?on then wd else 0)"
  proof (cases ?on)
    case True
    then have c: "uint ?s \<le> uint start" "uint ?stop \<le> uint ?e" using assms(1) wd e en by (auto simp: alignedTask_def)
    have "?s \<le> start" "?stop \<le> ?e" "\<not> ?stop \<le> start" unfolding word_le_def using c wd en by simp_all
    then have "max start ?s = start" "min ?stop ?e = ?stop" "\<not> ?stop \<le> start" by simp_all
    moreover have "?stop - start = wd"
    proof -
      have "uint (?stop - start) = uint wd" using en wd by (subst uint_minus_simple_alt [THEN iffD1]) (simp_all add: word_le_def)
      then show ?thesis by (simp add: word_uint_eq_iff)
    qed
    ultimately show ?thesis using True by (simp add: overlapNS_def)
  next
    case False
    then have "uint ?stop \<le> uint ?s \<or> uint ?e \<le> uint start" using assms(1) wd e en by (auto simp: alignedTask_def)
    then have "?stop \<le> ?s \<or> ?e \<le> start" unfolding word_le_def .
    then have "min ?stop ?e \<le> max start ?s" by (auto simp: min_le_iff_disj le_max_iff_disj)
    then show ?thesis using False by (auto simp: overlapNS_def)
  qed
  have act: "activeRPS [t] (uint start) = (if ?on then uint (TargetRPS t) else 0)" by (simp add: activeRPS_def)
  have r: "f64_of_u32 (TargetRPS t) = Fin (of_int (uint (TargetRPS t)))" unfolding f64_of_u32_def using assms(4,5) by (intro f64_of_int) auto
  have m: "fmul (Fin (of_int (uint (TargetRPS t)))) (Fin 1) = Fin (of_int (uint (TargetRPS t)))"
    using r by (simp add: f64_of_u32_def)
  have ad: "fadd (Fin (of_int acc)) (Fin (of_int (uint (TargetRPS t)))) = Fin (of_int (acc + uint (TargetRPS t)))"
    using f64_of_int [of "acc + uint (TargetRPS t)"] assms(4,5) by simp
  show ?thesis
  proof (cases "TargetRPS t = 0 \<or> \<not> ?on")
    case True
    then show ?thesis using ov act by (auto simp: offerTask_def Let_def)
  next
    case False
    then have "overlapNS start ?stop ?s ?e = wd" using ov by simp
    then show ?thesis using False act assms(2) f64_ratio_one [OF assms(2)] r m ad by (simp add: offerTask_def Let_def del: fmul.simps fadd.simps)
  qed
qed

lemma offers_aligned:
  assumes "list_all (alignedTask (uint start) (uint wd)) ts" "wd \<noteq> 0" "uint start + uint wd < 2 ^ 64"
    "0 \<le> acc" "acc + (\<Sum>t\<leftarrow>ts. uint (TargetRPS t)) < 2 ^ 53"
  shows "foldl (offerTask wd start (saturatingAdd start wd)) (Fin (of_int acc)) ts = Fin (of_int (acc + activeRPS ts (uint start)))"
  using assms
proof (induction ts arbitrary: acc)
  case (Cons t ts)
  have s: "0 \<le> (\<Sum>t\<leftarrow>ts. uint (TargetRPS t))" by (intro sum_list_nonneg) auto
  have a: "0 \<le> activeRPS [t] (uint start)" "activeRPS [t] (uint start) \<le> uint (TargetRPS t)" by (simp_all add: activeRPS_def)
  have o: "offerTask wd start (saturatingAdd start wd) (Fin (of_int acc)) t = Fin (of_int (acc + activeRPS [t] (uint start)))"
    by (rule offerTask_aligned) (use Cons.prems s in auto)
  have "activeRPS (t # ts) (uint start) = activeRPS [t] (uint start) + activeRPS ts (uint start)"
    using activeRPS_append(1) [of "[t]" ts] by simp
  then show ?case using Cons.IH [of "acc + activeRPS [t] (uint start)"] Cons.prems o a by (simp add: add.assoc)
qed simp

lemma waveOffer_aligned:
  assumes "list_all (alignedTask (int k * uint wd) (uint wd)) ts" "wd \<noteq> 0" "int k * uint wd + uint wd < 2 ^ 64"
    "(\<Sum>t\<leftarrow>ts. uint (TargetRPS t)) < 2 ^ 53" "0 < activeRPS ts (int k * uint wd)"
  shows "waveOffer ts wd k = [\<lparr>wo_WaveIndex = int k, wo_OfferedRPS = word_of_int (activeRPS ts (int k * uint wd))\<rparr>]"
proof -
  have start: "uint (of_nat k * wd) = int k * uint wd"
  proof -
    have "of_nat k * wd = word_of_int (int k * uint wd)" by simp
    moreover have "0 \<le> int k * uint wd" "int k * uint wd < 2 ^ 64"
      using assms(3) unsigned_greater_eq [of wd, where 'a = int] by (simp, linarith)
    ultimately show ?thesis by (simp only: uint_word_of_int) simp
  qed
  have "foldl (offerTask wd (of_nat k * wd) (saturatingAdd (of_nat k * wd) wd)) (Fin 0) ts = Fin (of_int (activeRPS ts (int k * uint wd)))"
    using offers_aligned [of "of_nat k * wd" wd ts 0] assms start by simp
  moreover have "\<lfloor>of_int a + 1 / 2 :: rat\<rfloor> = a" for a by (rule floor_unique) simp_all
  ultimately show ?thesis using assms(5) by (simp add: waveOffer_def Let_def fle_def u64_of_f64_def)
qed

section \<open>The ramp\<close>

lemma rampLoop_tasks:
  assumes "cf_RampDuration cfg < 2 ^ 63" "t \<in> set (rampLoop cfg b ws out)"
  shows "t \<in> set out \<or> (\<exists>j\<in>set ws. uint (StartOffsetNs t) = int j * rampWaveCadence \<and>
    uint (StartOffsetNs t) + uint (DurationNs t) = cf_RampDuration cfg)"
  using assms
proof (induction cfg b ws out rule: rampLoop.induct)
  case (2 cfg b wave ws out)
  obtain h r i real where c: "botCountsForBudget cfg b = (h, r, i, real)" by (cases "botCountsForBudget cfg b") auto
  let ?o = "int wave * rampWaveCadence"
  let ?l = "buildLayer cfg (of_nat (length out)) ?o (cf_RampDuration cfg - ?o) h r i"
  show ?case
  proof (cases "cf_RampDuration cfg - ?o \<le> 0")
    case True
    then show ?thesis using 2(1) [OF refl refl True 2(3)] 2(4) by auto
  next
    case False
    have o: "0 \<le> ?o" by (simp add: rampWaveCadence_def time_Second_def)
    have "uint (StartOffsetNs u) = ?o \<and> uint (StartOffsetNs u) + uint (DurationNs u) = cf_RampDuration cfg" if "u \<in> set ?l" for u
    proof -
      have "StartOffsetNs u = word_of_int ?o" "DurationNs u = word_of_int (cf_RampDuration cfg - ?o)"
        using that by (auto simp: buildLayer_def profileTasks_def)
      then show ?thesis using uint_ns [of ?o] uint_ns [of "cf_RampDuration cfg - ?o"] o 2(3) False by simp
    qed
    moreover have "rampLoop cfg b (wave # ws) out = rampLoop cfg b ws (out @ ?l)" using False c by (simp add: Let_def)
    ultimately show ?thesis using 2(2) [OF refl refl False c [symmetric] refl refl refl 2(3)] 2(4) by auto
  qed
qed simp

lemma ramp_tasks:
  assumes "nsRange cfg" "t \<in> set (buildRampTasks cfg)"
  shows "\<exists>j. j < 9 \<and> uint (StartOffsetNs t) = int j * rampWaveCadence \<and> uint (StartOffsetNs t) + uint (DurationNs t) = cf_RampDuration cfg"
proof -
  have "cf_RampDuration cfg < 2 ^ 63" using assms(1) by (simp add: nsRange_def)
  from rampLoop_tasks [OF this assms(2) [unfolded buildRampTasks_def]] show ?thesis by (auto simp: rampWaveCount_def)
qed

lemma maxEndOf_common:
  assumes "ts \<noteq> []" "\<And>t. t \<in> set ts \<Longrightarrow> saturatingAdd (StartOffsetNs t) (DurationNs t) = e"
  shows "maxEndOf ts = e"
proof -
  let ?f = "\<lambda>mx t. let stop = saturatingAdd (StartOffsetNs t) (DurationNs t) in if stop > mx then stop else mx"
  have st: "foldl ?f e us = e" if "set us \<subseteq> set ts" for us
    using that assms(2) by (induction us) (auto simp: Let_def)
  obtain t us where "ts = t # us" using assms(1) by (cases ts) auto
  moreover then have "foldl ?f 0 ts = foldl ?f e us"
    using assms(2) [of t] word_gt_0 [of e] by (simp add: Let_def)
  ultimately show ?thesis using st [of us] by (auto simp: maxEndOf_def)
qed

lemma ramp_aligned:
  assumes "nsRange cfg" "cf_RampDuration cfg = int n * rampWaveCadence" "k < n"
  shows "list_all (alignedTask (int k * rampWaveCadence) rampWaveCadence) (buildRampTasks cfg)"
  unfolding list_all_iff
proof
  fix t assume "t \<in> set (buildRampTasks cfg)"
  then obtain j where j: "uint (StartOffsetNs t) = int j * rampWaveCadence" "uint (StartOffsetNs t) + uint (DurationNs t) = int n * rampWaveCadence"
    using ramp_tasks [OF assms(1)] assms(2) by metis
  have "int n * rampWaveCadence < 2 ^ 63" using assms(1,2) by (simp add: nsRange_def)
  moreover have "int (Suc k) * rampWaveCadence \<le> int n * rampWaveCadence"
    using assms(3) by (intro mult_right_mono) (auto simp: rampWaveCadence_def time_Second_def)
  moreover have "int j * rampWaveCadence \<le> int k * rampWaveCadence" if "j \<le> k"
    using that by (intro mult_right_mono) (auto simp: rampWaveCadence_def time_Second_def)
  moreover have "int (Suc k) * rampWaveCadence \<le> int j * rampWaveCadence" if "k < j"
    using that by (intro mult_right_mono) (auto simp: rampWaveCadence_def time_Second_def)
  ultimately show "alignedTask (int k * rampWaveCadence) rampWaveCadence t"
    using j by (cases "j \<le> k") (auto simp: alignedTask_def distrib_right)
qed

lemma rampLoop_all:
  assumes "\<And>s off d h r i. list_all P (buildLayer cfg s off d h r i)" "list_all P out"
  shows "list_all P (rampLoop cfg b ws out)"
  using assms(2)
proof (induction ws arbitrary: out)
  case (Cons wave ws)
  then show ?case using assms(1) by (simp add: Let_def split: prod.split)
qed simp

lemma ramp_total: "(\<Sum>t\<leftarrow>buildRampTasks cfg. uint (TargetRPS t)) < 2 ^ 53"
proof -
  have "numbered []" by (simp add: numbered_def)
  from rampLoop_numbered [OF this, of "[0..<rampWaveCount]" "9 * 8776048" cfg "cf_RampPeakRPS cfg div of_nat rampWaveCount"]
  have "length (buildRampTasks cfg) \<le> 9 * 8776048" by (simp add: buildRampTasks_def rampWaveCount_def)
  moreover have "(\<Sum>t\<leftarrow>ts. uint (TargetRPS t)) \<le> int (length ts) * 1000" if "\<And>t. t \<in> set ts \<Longrightarrow> uint (TargetRPS t) \<le> 1000" for ts :: "TaskSpec list"
    using that by (induction ts) force+
  moreover have "list_all (\<lambda>t. uint (TargetRPS t) \<le> 1000) (buildRampTasks cfg)" unfolding buildRampTasks_def
    by (rule rampLoop_all)
      (auto simp: list_all_iff buildLayer_def profileTasks_def rpsPerHFT_def rpsPerRetail_def rpsPerInstitutional_def)
  ultimately have "(\<Sum>t\<leftarrow>buildRampTasks cfg. uint (TargetRPS t)) \<le> int (length (buildRampTasks cfg)) * 1000"
    "int (length (buildRampTasks cfg)) \<le> 9 * 8776048" by (simp_all add: list_all_iff)
  then show ?thesis by simp
qed

lemma ramp_maxEnd:
  assumes "nsRange cfg" "buildRampTasks cfg \<noteq> []"
  shows "maxEndOf (buildRampTasks cfg) = word_of_int (cf_RampDuration cfg)"
proof (rule maxEndOf_common [OF assms(2)])
  fix t assume "t \<in> set (buildRampTasks cfg)"
  then have "uint (StartOffsetNs t) + uint (DurationNs t) = cf_RampDuration cfg" using ramp_tasks [OF assms(1)] by blast
  moreover then have "uint (saturatingAdd (StartOffsetNs t) (DurationNs t)) = cf_RampDuration cfg"
    using assms(1) by (subst saturatingAdd_exact) (auto simp: nsRange_def)
  ultimately show "saturatingAdd (StartOffsetNs t) (DurationNs t) = word_of_int (cf_RampDuration cfg)" by (metis word_of_int_uint)
qed

text \<open>The number of waves of a schedule whose last task ends with a wave.\<close>

lemma wave_count:
  assumes "uint x = int n * uint wd" "0 < n" "wd \<noteq> 0"
  shows "(x - 1) div wd + 1 = (of_nat n :: u64)"
proof -
  have wd: "0 < uint wd" using assms(3) by (simp add: word_neq_0_conv word_less_def)
  then have "0 < uint x" using assms(1,2) by simp
  then have "1 \<le> x" unfolding word_le_def by simp
  then have "uint (x - 1) = int n * uint wd - 1" using uint_minus_simple_alt [of 1 x] assms(1) by simp
  also have "\<dots> = uint wd - 1 + (int n - 1) * uint wd" by (simp add: left_diff_distrib)
  finally have "uint ((x - 1) div wd) = (uint wd - 1 + (int n - 1) * uint wd) div uint wd" by (simp only: uint_div)
  also have "\<dots> = int n - 1" using wd by (subst div_mult_self1) (simp_all add: div_pos_pos_trivial)
  finally have "(x - 1) div wd = word_of_int (int n - 1)" by (metis word_of_int_uint)
  then show ?thesis by simp
qed

text \<open>C38.
  The score-computer grades the ramp that the submission-api built. For a valid configuration
  whose ramp lasts \<open>n\<close> whole waves, nine or more, and whose share of the peak is enough for a bot, the schedule that \<open>WaveSchedule\<close>
  recovers from the task list with the default wave length has exactly the waves \<open>0\<close> to \<open>n - 1\<close>, and the rate
  it grades a wave at is, without any rounding error, the rate offered in it: one more
  realised share of the peak with every wave, up to nine.
\<close>

theorem ramp_graded_as_built:
  assumes "validate_sa cfg = None" "nsRange cfg" "cf_RampDuration cfg = int n * rampWaveCadence" "n \<le> 10000"
    "0 < realisedRPS cfg (cf_RampPeakRPS cfg div 9)"
  shows "WaveSchedule (buildRampTasks cfg) DefaultWaveDurationNS =
    map (\<lambda>k. \<lparr>wo_WaveIndex = int k, wo_OfferedRPS = word_of_int (min 9 (int k + 1) * realisedRPS cfg (cf_RampPeakRPS cfg div 9))\<rparr>) [0..<n]"
proof -
  let ?ts = "buildRampTasks cfg" let ?wd = DefaultWaveDurationNS let ?r = "realisedRPS cfg (cf_RampPeakRPS cfg div 9)"
  have c: "rampWaveCadence = 20000000000" "uint ?wd = 20000000000" "?wd \<noteq> 0"
    by (simp_all add: rampWaveCadence_def time_Second_def DefaultWaveDurationNS_def)
  have n: "0 < n" using validate_saD(3) [OF assms(1)] assms(3) by (cases n) (auto simp: c)
  have act: "activeRPS ?ts (int k * uint ?wd) = min 9 (int k + 1) * ?r" if "k < n" for k
    using ramp_active [OF assms(2), of "int k * 20000000000"] that assms(3) by (simp add: c)
  have pos: "0 < activeRPS ?ts (int k * uint ?wd)" if "k < n" for k using act [OF that] assms(5) by simp
  have offer: "waveOffer ?ts ?wd k = [\<lparr>wo_WaveIndex = int k, wo_OfferedRPS = word_of_int (min 9 (int k + 1) * ?r)\<rparr>]" if "k < n" for k
  proof -
    have "int k * uint ?wd + uint ?wd < 2 ^ 64" using that assms(4) by (simp add: c)
    moreover have "list_all (alignedTask (int k * uint ?wd) (uint ?wd)) ?ts" using ramp_aligned [OF assms(2,3) that] by (simp add: c)
    ultimately show ?thesis using waveOffer_aligned [OF _ c(3) _ ramp_total pos [OF that]] act [OF that] by simp
  qed
  have D: "uint (word_of_int (cf_RampDuration cfg) :: u64) = int n * 20000000000" using assms(3,4) by (intro uint_ns [THEN trans]) (simp_all add: c)
  have "maxEndOf ?ts = word_of_int (cf_RampDuration cfg)" using pos [OF n] by (intro ramp_maxEnd [OF assms(2)]) auto
  moreover have "(word_of_int (cf_RampDuration cfg) - 1) div ?wd + 1 = (of_nat n :: u64)"
    using D n c by (intro wave_count) simp_all
  moreover have "(word_of_int (cf_RampDuration cfg) :: u64) \<noteq> 0" using D n by auto
  moreover have "\<not> (of_nat n :: u64) > DefaultMaxScheduledWaves" "unat (of_nat n :: u64) = n"
    using assms(4) by (simp_all add: DefaultMaxScheduledWaves_def word_less_nat_alt unat_of_nat)
  ultimately have "WaveSchedule ?ts ?wd = concat (map (waveOffer ?ts ?wd) [0..<n])"
    using c(3) by (simp add: WaveSchedule_def Let_def)
  also have "\<dots> = concat (map (\<lambda>k. [\<lparr>wo_WaveIndex = int k, wo_OfferedRPS = word_of_int (min 9 (int k + 1) * ?r)\<rparr>]) [0..<n])"
    using offer by (intro arg_cong [of _ _ concat] map_cong) auto
  finally show ?thesis by (simp add: concat_map_singleton)
qed

theorem ramp_graded_as_built_witness:
  "WaveSchedule (buildRampTasks DefaultConfig_sa) DefaultWaveDurationNS =
     map (\<lambda>k. \<lparr>wo_WaveIndex = int k, wo_OfferedRPS = word_of_int (min 9 (int k + 1) * 10000)\<rparr>) [0..<9]"
proof -
  have d: "cf_RampDuration DefaultConfig_sa = int 9 * rampWaveCadence" by code_simp
  have r: "realisedRPS DefaultConfig_sa (cf_RampPeakRPS DefaultConfig_sa div 9) = 10000" by code_simp
  show ?thesis using ramp_graded_as_built [OF DefaultConfig_valid d] by (simp add: r)
qed

end
