(* ===== verification/Spec2Isabelle.thy ===== *)
theory Spec2Isabelle
  imports GoFloat Book_Props Replay Topics Pipeline Reorder Source_Props FullMode InvMode Jitter Validator_Props Score_Props ScoreReady ScoreWorker_Props
    Lease Sharding Runner Dispatch RampSchedule
begin

text \<open>
  Verification of the match-bench platform: a contest in which submitted matching engines are
  loaded by a fleet of bots, checked against a reference engine and ranked.

  \<^bold>\<open>The program and its parts.\<close> The submission-api builds the load scenarios and requests a
  benchmark. The bot-fleet-controller takes the request up, leases workload partitions, brings
  up a sandbox slot, cuts the scenario into the workloads of its workers and fires the start
  barrier. The bots publish the orders they send and the packet capture publishes the
  responses it sees, each on a Kafka topic. The correctness-validator joins the two streams, replays the
  orders in their arrival order through a reference book (full mode) or checks invariants that
  need no book (invariants mode), stores a summary and announces it. The score-computer waits
  until all sessions of a run-group are reported, computes the score, ranks it and announces it.
  All file names below are under \<open>src/services/\<close> unless they start with \<open>src/\<close>.

  \<^bold>\<open>Conventions.\<close>
  \<^item> \<open>Prelude\<close>: Go's unsigned integers are words and wrap around; a signed integer is an \<open>int\<close>,
    with \<open>int64\<close> reading it out of a word where the code can overflow. A struct is a record, a Go
    map a partial map, an error a value, a panic a constructor of the outcome of a call.
  \<^item> \<open>GoFloat\<close>: \<open>float64\<close> with its rounding; the score and the ramp schedule are stated about it.
  \<^item> Go's order of iteration over a map is a parameter, constrained only to list the right set.
  \<^item> Goroutines are interleaved as steps of an inductive relation, one step per critical
    section or statement: \<open>lstep\<close> (leases), \<open>sstep\<close> (score-computer), \<open>cstep\<close> (dispatch).
  \<^item> A call that leaves the process (HTTP, SQL, Kafka, the clock) is an outcome in an environment
    record or an operation in a parameter; statements hold for all outcomes.

  \<^bold>\<open>Correctness validator\<close> (\<open>correctness-validator/\<close>).
  \<^item> \<open>Model\<close> is \<open>internal/model/order.go\<close>, \<open>Topics\<close> the schema package \<open>src/schemas/go/topics/topics.go\<close>,
    \<open>Pipeline\<close> is \<open>internal/pipeline/pipeline.go\<close>.
  \<^item> \<open>Btree\<close> is the interface of the third-party tree, the locale \<open>btree_laws\<close>; \<open>Book\<close> is
    \<open>internal/book/book.go\<close> over an explicit store of levels and resting orders. \<open>Book_Spec\<close> is an
    abstract book of two sorted lists. \<open>Book_Store\<close>, \<open>Book_Match\<close>, \<open>Book_Insert\<close> and \<open>Book_Refine\<close>
    prove that the engine implements it (locale \<open>book_btree\<close>), and \<open>Book_Props\<close> derives that no match is missed,
    that trades are legal and in price-time priority, and what a replace keeps.
  \<^item> \<open>Replay\<close> is \<open>internal/replay/order.go\<close>; \<open>Reorder\<close> is \<open>internal/source/reorder.go\<close> and shows when
    the bounded buffer gives exactly the replay order, and that the distance bound of its
    comment is not enough, whatever the window.
  \<^item> \<open>Source\<close> is \<open>internal/source/stream.go\<close>, \<open>offsets.go\<close> and \<open>band.go\<close>; \<open>Source_Props\<close> shows that
    every order is settled exactly once with evidence, in replay order, in a band of its own, and
    that a session returns with what its partitions hold.
  \<^item> \<open>Report\<close> is \<open>internal/validate/validate.go\<close>, \<open>StreamVal\<close> is \<open>internal/validate/stream.go\<close>;
    \<open>StreamVal_Props\<close>, \<open>StreamVal_Session\<close> and \<open>FullMode\<close> show that an order is marked exactly when it is
    lost or its reports disagree with the abstract book, from the topics to the score.
  \<^item> \<open>Invariants\<close> is \<open>internal/validate/invariants.go\<close>; \<open>Invariants_Props\<close>, \<open>InvMode\<close> and \<open>Jitter\<close> show
    which orders it marks, by a declarative definition, and how close its percentiles are.
  \<^item> \<open>Validator\<close> is \<open>main.go\<close>, \<open>internal/store/postgres.go\<close> and \<open>internal/publisher/kafka.go\<close>;
    \<open>Validator_Props\<close> shows that a score is claimed once, and what retries lose.

  \<^bold>\<open>Score computer\<close> (\<open>score-computer/\<close>).
  \<^item> \<open>Score\<close> is \<open>internal/score/score.go\<close>; \<open>Score_Props\<close> characterises the verdict and the ramp gate.
  \<^item> \<open>ScoreStore\<close> has the tables and statements of \<open>internal/store/store.go\<close>, \<open>ScoreReady\<close> what they
    give: readiness with SQL nulls, and the metric of a wave.
  \<^item> \<open>ScoreWorker\<close> has the consumers, workers and the recovery scan (\<open>internal/trigger/consumer.go\<close>,
    \<open>internal/worker/worker.go\<close>) as a transition system, one step per statement; \<open>ScoreWorker_Props\<close> shows that a run-group is
    announced at most once, that the rank is the position in the order, and that an announcement can be lost.

  \<^bold>\<open>Bot-fleet controller\<close> (\<open>bot-fleet-controller/internal/controller/\<close>).
  \<^item> \<open>Lease\<close> is \<open>lease.go\<close>: leases are exclusive and the queue is served in order, under every interleaving.
  \<^item> \<open>Sharding\<close> has the worker count and the specs of \<open>runner.go\<close> and the routing of \<open>producer.go\<close>.
  \<^item> \<open>Runner\<close> is \<open>Run\<close> of \<open>runner.go\<close> with \<open>session.go\<close>, \<open>capacity.go\<close> and the client's waits, as a function from
    the outcomes of its calls to other services, panics included, to the trace of effects: a
    terminal status (a second one only when a panic follows it), every resource released
    once, no barrier before as many worker indices are ready as there are workers.
  \<^item> \<open>Dispatch\<close> is \<open>consumer.go\<close> and \<open>recovery.go\<close>: sessions are bounded and taken up in order, and
    recovery closes exactly the runs in flight, in whatever order the query lists them.

  \<^bold>\<open>Scenarios\<close> (\<open>submission-api/internal/scenarios/builder.go\<close>). \<open>Scenarios\<close> models the configuration, its
  validation and the four task lists, and shows which load they offer at every moment.
  \<open>RampSchedule\<close> joins it with \<open>score.go\<close>: the waves that are graded are the load steps that were built.

  \<^bold>\<open>Across components\<close> (below): sessions that hold leases at the same time publish their
  workloads on disjoint partitions.

  \<^bold>\<open>Termination and bounds.\<close> No definition uses fuel. The matching of a level and the merge of
  batches are recursive functions with a decreasing measure. The loop over price levels and the loop of
  a partition reader are partial functions, where not returning is \<open>None\<close>, a read that blocks
  for ever included; that they return
  is part of the refinement of \<open>Process\<close>, and \<open>StreamSession_returns\<close> for the reader, whose
  broker must serve a log (\<open>serves\<close>). The waits of the controller are bounded by their
  environment, a list of polls. Numeric bounds in hypotheses (timestamps, counts, budgets) are those within which
  the code's integers do not wrap around.

  \<^bold>\<open>Not modelled.\<close> The bot fleet, the packet capture and the telemetry ingester are Rust around
  sockets, the kernel and third-party histograms; what they publish is arbitrary input here. The handlers and the
  database code of the submission-api, the build-worker, the sandbox-orchestrator, the
  leaderboard-api, the auth-api and the frontend act on services outside the process (HTTP, Kubernetes, object
  storage, signatures). Logging, metrics, health checks, wiring and deployment change no
  result. Cancellation of a context is modelled where the code branches on it (leases,
  runs) and left out of the session source.
\<close>

section \<open>Properties across components\<close>

text \<open>C40.
  Concurrent sessions never share a workload partition. Take any state that the lease
  allocator can reach, and two \<open>Acquire\<close> calls that hold leases in it. If the producer
  publishes the specs of the one on its leases and those of the other on its own, the
  messages of the one go to other partitions than those of the other, whatever the writers'
  metadata say.
\<close>

theorem concurrent_workloads_disjoint:
  assumes "lstep\<^sup>*\<^sup>* (freshSystem n) y"
    and "ly_procs y i = Some (s, Holding p)" "ly_procs y j = Some (t, Holding q)" "i \<noteq> j"
    and "PublishWorkloadSpec write False specs (map int p) = (None, msgs)"
    and "PublishWorkloadSpec write' False specs' (map int q) = (None, msgs')"
  shows "length msgs = length specs \<and> length msgs' = length specs' \<and>
    set (map (\<lambda>m. Balance fallback m parts) msgs) \<inter> set (map (\<lambda>m. Balance fallback m parts') msgs') = {}"
proof -
  have l: "length (map int p) = length specs" "length (map int q) = length specs'"
    "msgs = buildWorkloadMessages specs (map int p)" "msgs' = buildWorkloadMessages specs' (map int q)"
    using assms(5,6) by (auto simp: PublishWorkloadSpec_def Let_def split: if_splits)
  have "set p \<inter> set q = {}" using holders_disjoint assms(2-4) lsteps_inv [OF assms(1)] by blast
  then have "set (map int p) \<inter> set (map int q) = {}" by auto
  then show ?thesis
    using messages_routed(2) [OF l(1), of fallback parts] messages_routed(2) [OF l(2), of fallback parts'] l(3,4)
    by (simp add: buildWorkloadMessages_def)
qed

definition demoSpec :: WorkloadSpec where
  "demoSpec = hd (the (buildWorkloadSpecs demoConfig (\<lambda>_. 7) ''a'' ''sub'' ''h'' demoSub [demoShardTask 0 10] 1 0))"

theorem concurrent_workloads_disjoint_witness:
  "ly_procs runTwoHold 0 = Some (''a'', Holding [0]) \<and> ly_procs runTwoHold 1 = Some (''b'', Holding [1]) \<and>
   set (map (\<lambda>m. Balance (\<lambda>_ _. 0) m []) (snd (PublishWorkloadSpec (\<lambda>_. None :: unit option) False [demoSpec] (map int [0])))) \<inter>
   set (map (\<lambda>m. Balance (\<lambda>_ _. 0) m []) (snd (PublishWorkloadSpec (\<lambda>_. None :: unit option) False [demoSpec] (map int [1])))) = {}"
proof -
  have h: "ly_procs runTwoHold 0 = Some (''a'', Holding [0])" "ly_procs runTwoHold 1 = Some (''b'', Holding [1])" "(0 :: nat) \<noteq> 1"
    by (simp_all add: runTwoHold_procs)
  have p: "PublishWorkloadSpec (\<lambda>_. None :: unit option) False [demoSpec] (map int [k]) =
      (None, snd (PublishWorkloadSpec (\<lambda>_. None :: unit option) False [demoSpec] (map int [k])))" for k
    by (simp add: PublishWorkloadSpec_def Let_def)
  show ?thesis
    using concurrent_workloads_disjoint [OF runTwoHold_reached h p p, of "\<lambda>_ _. 0" "[]" "[]"] h by blast
qed

end
